(* ===== verification/Prelude.thy ===== *)
theory Prelude imports Complex_Main "HOL-Library.AList" "HOL-Library.Multiset" "HOL-Library.Word" begin

text \<open>
  What the components share. Python's integers are \<open>int\<close>, its strings are character lists, its
  bytes are lists of \<open>8 word\<close>. An exception is a value: every operation that can raise returns
  \<open>exn + 'a\<close>, \<open>Inl\<close> for the exception. A dictionary keeps its insertion order, so it is an
  association list with distinct keys: storing to a key that is present replaces the value in
  place, storing to a new key appends, and \<open>pop\<close> with a default drops the key if it is there.
  The locale \<open>py_mapping\<close> is the interface the components use of a dictionary; its
  interpretation \<open>dict\<close> discharges the laws for association lists.
\<close>

section \<open>Collections of facts\<close>

named_theorems res_simps \<open>evaluation and inversion of computations that may raise\<close>
named_theorems dict_simps \<open>lookups in, and keys of, an updated dictionary\<close>

section \<open>Values and exceptions\<close>

type_synonym byte = "8 word"
type_synonym bytes = "byte list"

text \<open>The identifier types of \<open>domain/ids.py\<close>: a NewType is the type it wraps.\<close>

type_synonym SessionId = string
type_synonym BlockId = int
type_synonym SenderId = int

text \<open>
  The exceptions of \<open>ipc/errors.py\<close>, with the attributes each carries.
\<close>

datatype ipc_error =
    HandshakeError string
  | UnknownSenderError SenderId
  | ProtoHashMismatchError SenderId bytes bytes
  | SendQueueFullError SenderId

text \<open>
  One constructor per \<open>raise ValueError\<close> of the repository, with the values its message
  interpolates, and one for those the libraries raise.
\<close>

datatype value_error =
    EmptyActiveSenders
  | DuplicateSenderIds "SenderId list"
  | NegativeTotalBlocks int
  | BasePortNotPositive int
  | ShardModulusTooSmall int
  | SenderIndexOutOfRange int int
  | NegativeSizeBytes int
  | FileHashLength nat
  | FileHashNotHex string
  | PathNotUnderWatchRoot
  | PathEscapesWatchRoot
  | EnvelopeEmpty
  | MissingConfigKey "string list"
  | WatchPathNotDirectory
  | RateFloorNotPositive
  | RateCeilingBelowFloor int int
  | FecNotPositive
  | FecNTooLarge int
  | FecKNotBelowN int int
  | SymbolBytesOverBudget int
  | BinaryPathEmpty
  | SenderCountNegative int
  | BasePortOutOfRange int
  | LibraryValueError

datatype exn =
    ValueError value_error
  | IpcError ipc_error
  | ZeroDivisionError
  | OverflowError
  | KeyError
  | TypeError
  | AttributeError
  | IndexError
  | DecodeError
  | OSError
  | ProcessLookupError
  | RuntimeError
  | CancelledError

type_synonym 'a result = "exn + 'a"

text \<open>\<open>bindE\<close> continues after a computation that returned; an exception skips the rest.\<close>

fun bindE :: "'e + 'a \<Rightarrow> ('a \<Rightarrow> 'e + 'b) \<Rightarrow> 'e + 'b" where
  "bindE (Inl e) f = Inl e"
| "bindE (Inr x) f = f x"

text \<open>A list comprehension whose body may raise: the first exception wins.\<close>

fun traverseE :: "('a \<Rightarrow> 'e + 'b) \<Rightarrow> 'a list \<Rightarrow> 'e + 'b list" where
  "traverseE f [] = Inr []"
| "traverseE f (x # xs) = bindE (f x) (\<lambda>y. bindE (traverseE f xs) (\<lambda>ys. Inr (y # ys)))"

lemma bindE_eq_Inr [res_simps]: "bindE m f = Inr y \<longleftrightarrow> (\<exists>x. m = Inr x \<and> f x = Inr y)"
  by (cases m) auto

lemma bindE_eq_Inl [res_simps]:
  "bindE m f = Inl e \<longleftrightarrow> m = Inl e \<or> (\<exists>x. m = Inr x \<and> f x = Inl e)"
  by (cases m) auto

lemma traverseE_Inr:
  assumes "\<And>x. x \<in> set xs \<Longrightarrow> f x = Inr (g x)"
  shows "traverseE f xs = Inr (map g xs)"
  using assms by (induction xs) auto

lemma traverseE_InrD: "traverseE f xs = Inr ys \<Longrightarrow> list_all2 (\<lambda>x y. f x = Inr y) xs ys"
  by (induction xs arbitrary: ys) (auto simp: res_simps)

section \<open>Dictionaries\<close>

type_synonym ('k, 'v) dict = "('k \<times> 'v) list"

abbreviation dict_get :: "('k, 'v) dict \<Rightarrow> 'k \<Rightarrow> 'v option" where
  "dict_get \<equiv> map_of"

abbreviation dict_set :: "'k \<Rightarrow> 'v \<Rightarrow> ('k, 'v) dict \<Rightarrow> ('k, 'v) dict" where
  "dict_set \<equiv> AList.update"

abbreviation dict_pop :: "'k \<Rightarrow> ('k, 'v) dict \<Rightarrow> ('k, 'v) dict" where
  "dict_pop \<equiv> AList.delete"

abbreviation dict_keys :: "('k, 'v) dict \<Rightarrow> 'k list" where
  "dict_keys d \<equiv> map fst d"

abbreviation dict_wf :: "('k, 'v) dict \<Rightarrow> bool" where
  "dict_wf d \<equiv> distinct (map fst d)"

text \<open>
  The interface: a lookup, an update, a removal, the list of keys and what every operation keeps.
\<close>

locale py_mapping =
  fixes get :: "'m \<Rightarrow> 'k \<Rightarrow> 'v option"
    and put :: "'k \<Rightarrow> 'v \<Rightarrow> 'm \<Rightarrow> 'm"
    and pop :: "'k \<Rightarrow> 'm \<Rightarrow> 'm"
    and keys :: "'m \<Rightarrow> 'k list"
    and wf :: "'m \<Rightarrow> bool"
  assumes get_put: "get (put a v m) = (get m)(a \<mapsto> v)"
    and get_pop: "get (pop a m) = (get m)(a := None)"
    and set_keys: "set (keys m) = {a. get m a \<noteq> None}"
    and keys_distinct: "wf m \<Longrightarrow> distinct (keys m)"
    and wf_put: "wf m \<Longrightarrow> wf (put a v m)"
    and wf_pop: "wf m \<Longrightarrow> wf (pop a m)"
begin

lemma in_keys_iff: "a \<in> set (keys m) \<longleftrightarrow> (\<exists>v. get m a = Some v)"
  by (simp add: set_keys)

lemma keys_put: "set (keys (put a v m)) = insert a (set (keys m))"
  by (auto simp: set_keys get_put)

lemma keys_pop: "set (keys (pop a m)) = set (keys m) - {a}"
  by (auto simp: set_keys get_pop)

lemma pop_idempotent: "get (pop a (pop a m)) = get (pop a m)"
  by (auto simp: get_pop)

lemma pop_undoes_put: "get m a = None \<Longrightarrow> get (pop a (put a v m)) = get m"
  by (auto simp: get_pop get_put)

lemma put_commute: "a \<noteq> b \<Longrightarrow> get (put a v (put b w m)) = get (put b w (put a v m))"
  by (auto simp: get_put)

lemma length_keys: "wf m \<Longrightarrow> length (keys m) = card {a. get m a \<noteq> None}"
  using keys_distinct set_keys by (metis distinct_card)

end

interpretation dict: py_mapping "dict_get :: ('k, 'v) dict \<Rightarrow> 'k \<Rightarrow> 'v option"
    dict_set dict_pop dict_keys dict_wf
  by unfold_locales
    (auto simp: update_conv' delete_conv' distinct_update distinct_delete map_of_eq_None_iff
      dom_map_of_conv_image_fst[symmetric])

declare dict.get_put [simp, dict_simps] dict.get_pop [simp, dict_simps]
  dict.keys_put [dict_simps] dict.keys_pop [dict_simps]
  dict.wf_put [intro] dict.wf_pop [intro]

section \<open>Lists\<close>

lemma length_filter_lt:
  assumes "x \<in> set xs" and "\<not> P x"
  shows "length (filter P xs) < length xs"
  using assms by (simp add: length_filter_less)

lemma sum_list_map_filter_split:
  fixes f :: "'a \<Rightarrow> nat"
  shows "sum_list (map f (filter P xs)) + sum_list (map f (filter (\<lambda>x. \<not> P x) xs))
    = sum_list (map f xs)"
  by (induction xs) auto

lemma mset_concat_map_split:
  "mset (concat (map f (filter P xs))) + mset (concat (map f (filter (\<lambda>x. \<not> P x) xs)))
    = mset (concat (map f xs))"
  by (induction xs) auto

lemma snoc_eq_split:
  "xs @ [e] = pre @ a # post \<longleftrightarrow>
    post = [] \<and> a = e \<and> pre = xs \<or> (\<exists>post'. post = post' @ [e] \<and> xs = pre @ a # post')"
  by (cases post rule: rev_cases) auto

end
