(* ===== verification/PyBytes.thy ===== *)
theory PyBytes imports Prelude begin

text \<open>
  Hexadecimal text: \<open>bytes.hex\<close> (two lower-case digits per byte, also what \<open>hexdigest\<close> and
  \<open>secrets.token_hex\<close> return) and \<open>bytes.fromhex\<close>, which accepts digits of either case and, as
  CPython does, skips ASCII whitespace before each pair of digits.
\<close>

definition hex_digit :: "nat \<Rightarrow> char" where
  "hex_digit n = ''0123456789abcdef'' ! n"

definition bytes_hex :: "bytes \<Rightarrow> string" where
  "bytes_hex bs = concat (map (\<lambda>b. [hex_digit (unat b div 16), hex_digit (unat b mod 16)]) bs)"

definition digit_value :: "char \<Rightarrow> nat option" where
  "digit_value c =
     (let n = of_char c in
      if 48 \<le> n \<and> n \<le> 57 then Some (n - 48)
      else if 97 \<le> n \<and> n \<le> 102 then Some (n - 87)
      else if 65 \<le> n \<and> n \<le> 70 then Some (n - 55)
      else None)"

definition is_space :: "char \<Rightarrow> bool" where
  "is_space c \<longleftrightarrow> (let n = of_char c :: nat in n = 32 \<or> 9 \<le> n \<and> n \<le> 13)"

function fromhex :: "string \<Rightarrow> bytes result" where
  "fromhex s =
     (case dropWhile is_space s of
        [] \<Rightarrow> Inr []
      | [a] \<Rightarrow> Inl (ValueError LibraryValueError)
      | a # b # rest \<Rightarrow>
          (case (digit_value a, digit_value b) of
             (Some x, Some y) \<Rightarrow>
               bindE (fromhex rest) (\<lambda>bs. Inr (word_of_nat (16 * x + y) # bs))
           | _ \<Rightarrow> Inl (ValueError LibraryValueError)))"
  by pat_completeness auto
termination
proof (relation "measure length")
  fix s a c b rest x y
  assume "dropWhile is_space s = a # c" "c = b # rest"
  then have "length (a # b # rest) \<le> length s" using length_dropWhile_le by metis
  then show "(rest, s) \<in> measure length" by simp
qed simp

declare fromhex.simps [simp del]

lemma nibble_cases: "n < 16 \<Longrightarrow> n \<in> {0, 1, 2, 3, 4, 5, 6, 7, 8, 9, 10, 11, 12, 13, 14, 15::nat}"
  unfolding insert_iff empty_iff by presburger

lemma digit_value_hex_digit: "n < 16 \<Longrightarrow> digit_value (hex_digit n) = Some n"
  by (drule nibble_cases) (auto simp: hex_digit_def digit_value_def)

lemma hex_digit_not_space: "n < 16 \<Longrightarrow> \<not> is_space (hex_digit n)"
  by (drule nibble_cases) (auto simp: hex_digit_def is_space_def)

lemma hex_digit_alphabet: "n < 16 \<Longrightarrow> hex_digit n \<in> set ''0123456789abcdef''"
  by (drule nibble_cases) (auto simp: hex_digit_def)

lemma digit_value_not_space: "digit_value c = Some x \<Longrightarrow> \<not> is_space c"
  by (auto simp: digit_value_def is_space_def Let_def split: if_splits)

lemma byte_bounds: "unat (b :: byte) div 16 < 16" "unat b mod 16 < 16"
proof -
  have "unat b < 2 ^ 8" using unsigned_less[of b] by simp
  then show "unat b div 16 < 16" by simp
qed simp

lemma length_bytes_hex [simp]: "length (bytes_hex bs) = 2 * length bs"
  by (induction bs) (auto simp: bytes_hex_def)

lemma set_bytes_hex: "set (bytes_hex bs) \<subseteq> set ''0123456789abcdef''"
proof (induction bs)
  case (Cons b bs)
  have "bytes_hex (b # bs) = hex_digit (unat b div 16) # hex_digit (unat b mod 16) # bytes_hex bs"
    by (simp add: bytes_hex_def)
  with Cons hex_digit_alphabet[OF byte_bounds(1)[of b]] hex_digit_alphabet[OF byte_bounds(2)[of b]]
  show ?case by (metis insert_subset list.simps(15))
qed (simp add: bytes_hex_def)

lemma fromhex_bytes_hex [simp]: "fromhex (bytes_hex bs) = Inr bs"
proof (induction bs)
  case Nil
  show ?case by (subst fromhex.simps) (simp add: bytes_hex_def)
next
  case (Cons b bs)
  have "16 * (unat b div 16) + unat b mod 16 = unat b" by simp
  with Cons show ?case
    by (subst fromhex.simps)
      (simp add: bytes_hex_def hex_digit_not_space byte_bounds digit_value_hex_digit)
qed

lemma bytes_hex_inj: "bytes_hex xs = bytes_hex ys \<Longrightarrow> xs = ys"
  by (metis fromhex_bytes_hex sum.inject(2))

lemma fromhex_exn: "fromhex s = Inl e \<Longrightarrow> e = ValueError LibraryValueError"
proof (induction s rule: fromhex.induct)
  case (1 s)
  then show ?case
    by (subst (asm) (2) fromhex.simps)
      (auto simp: res_simps split: list.splits option.splits)
qed

text \<open>Every byte takes two digits, and whitespace only makes the text longer.\<close>

lemma fromhex_length: "fromhex s = Inr bs \<Longrightarrow> 2 * length bs \<le> length s"
proof (induction s arbitrary: bs rule: fromhex.induct)
  case (1 s)
  have "length (dropWhile is_space s) \<le> length s" by (rule length_dropWhile_le)
  with 1 show ?case
    by (subst (asm) (2) fromhex.simps)
      (fastforce simp: res_simps split: list.splits option.splits)
qed

lemma fromhex_length_no_space:
  "fromhex s = Inr bs \<Longrightarrow> \<forall>c\<in>set s. \<not> is_space c \<Longrightarrow> length s = 2 * length bs"
proof (induction s arbitrary: bs rule: fromhex.induct)
  case (1 s)
  from 1(3) have ns: "dropWhile is_space s = s" by (simp add: dropWhile_eq_self_iff)
  show ?case
  proof (cases s)
    case Nil
    with 1(2) show ?thesis by (simp add: fromhex.simps)
  next
    case (Cons a t)
    show ?thesis
    proof (cases t)
      case Nil
      with Cons ns 1(2) show ?thesis by (auto simp: fromhex.simps[of "[a]"])
    next
      case c: (Cons b rest)
      from 1(2,3) obtain x y bs' where
        d: "digit_value a = Some x" "digit_value b = Some y"
        and r: "fromhex rest = Inr bs'" "bs = word_of_nat (16 * x + y) # bs'"
        unfolding Cons c
        by (auto simp: fromhex.simps[of "a # b # rest"] res_simps split: option.splits)
      have "length rest = 2 * length bs'"
        by (rule 1(1)) (use Cons c ns d r 1(3) in auto)
      with Cons c r show ?thesis by simp
    qed
  qed
qed

end
