(* ===== verification/PyPath.thy ===== *)
theory PyPath imports Prelude "HOL-Library.Sublist" begin

text \<open>
  The part of \<open>pathlib.PurePosixPath\<close> the source uses, which is pure: a path is its root (empty,
  one slash, or exactly two) and the components after it. Parsing drops empty components and
  single dots and keeps \<open>..\<close>. The operations are \<open>Path(s)\<close>, \<open>str(p)\<close> (and \<open>as_posix\<close>, the same
  on POSIX), \<open>/\<close>, \<open>is_absolute\<close>, \<open>parts\<close> and \<open>relative_to\<close>. \<open>path_wf\<close> holds of every path
  that parsing makes, the operations keep it, and \<open>Path\<close> and \<open>str\<close> are inverse on such paths.
\<close>

section \<open>Splitting and joining strings\<close>

fun split_on :: "char \<Rightarrow> string \<Rightarrow> string list" where
  "split_on c [] = [[]]"
| "split_on c (x # xs) =
     (if x = c then [] # split_on c xs
      else case split_on c xs of [] \<Rightarrow> [[x]] | p # ps \<Rightarrow> (x # p) # ps)"

fun join_with :: "char \<Rightarrow> string list \<Rightarrow> string" where
  "join_with c [] = []"
| "join_with c [p] = p"
| "join_with c (p # ps) = p @ c # join_with c ps"

lemma split_on_nonempty [simp]: "split_on c s \<noteq> []"
  by (induction s) (auto split: list.splits)

lemma split_on_free: "p \<in> set (split_on c s) \<Longrightarrow> c \<notin> set p"
proof (induction s arbitrary: p)
  case Nil
  then show ?case by simp
next
  case (Cons x xs)
  then show ?case by (cases "split_on c xs") (auto split: if_splits)
qed

lemma split_on_free_string: "c \<notin> set p \<Longrightarrow> split_on c p = [p]"
  by (induction p) auto

lemma split_on_append: "c \<notin> set p \<Longrightarrow> split_on c (p @ c # s) = p # split_on c s"
  by (induction p) auto

lemma split_on_join:
  "ps \<noteq> [] \<Longrightarrow> \<forall>p\<in>set ps. c \<notin> set p \<Longrightarrow> split_on c (join_with c ps) = ps"
  by (induction c ps rule: join_with.induct) (auto simp: split_on_free_string split_on_append)

section \<open>Paths\<close>

record path =
  path_root :: string
  path_tail :: "string list"

definition split_root :: "string \<Rightarrow> string \<times> string" where
  "split_root s =
     (if take 1 s \<noteq> ''/'' then ([], s)
      else if take 1 (drop 1 s) \<noteq> ''/'' \<or> take 1 (drop 2 s) = ''/'' then (''/'', drop 1 s)
      else (''//'', drop 2 s))"

definition Path :: "string \<Rightarrow> path" where
  "Path s = (let (r, rel) = split_root s in
     \<lparr>path_root = r, path_tail = filter (\<lambda>p. p \<noteq> [] \<and> p \<noteq> ''.'') (split_on CHR ''/'' rel)\<rparr>)"

definition is_absolute :: "path \<Rightarrow> bool" where
  "is_absolute p \<longleftrightarrow> path_root p \<noteq> []"

definition joinpath :: "path \<Rightarrow> path \<Rightarrow> path" where
  "joinpath p q =
     (if is_absolute q then q else p\<lparr>path_tail := path_tail p @ path_tail q\<rparr>)"

definition path_parts :: "path \<Rightarrow> string list" where
  "path_parts p = (if path_root p = [] then path_tail p else path_root p # path_tail p)"

definition path_str :: "path \<Rightarrow> string" where
  "path_str p =
     (if path_root p = [] \<and> path_tail p = [] then ''.''
      else path_root p @ join_with CHR ''/'' (path_tail p))"

definition relative_to :: "path \<Rightarrow> path \<Rightarrow> path result" where
  "relative_to p other =
     (if path_root p = path_root other \<and> prefix (path_tail other) (path_tail p)
      then Inr \<lparr>path_root = [], path_tail = drop (length (path_tail other)) (path_tail p)\<rparr>
      else Inl (ValueError LibraryValueError))"

definition part_wf :: "string \<Rightarrow> bool" where
  "part_wf p \<longleftrightarrow> p \<noteq> [] \<and> p \<noteq> ''.'' \<and> CHR ''/'' \<notin> set p"

definition path_wf :: "path \<Rightarrow> bool" where
  "path_wf p \<longleftrightarrow> path_root p \<in> {[], ''/'', ''//''} \<and> (\<forall>q\<in>set (path_tail p). part_wf q)"

lemma split_root_root: "fst (split_root s) \<in> {[], ''/'', ''//''}"
  by (auto simp: split_root_def)

lemma path_wf_Path [simp, intro]: "path_wf (Path s)"
  using split_root_root[of s]
  by (auto simp: Path_def path_wf_def part_wf_def dest: split_on_free split: prod.splits)

lemma path_wf_joinpath [intro]: "path_wf p \<Longrightarrow> path_wf q \<Longrightarrow> path_wf (joinpath p q)"
  by (auto simp: joinpath_def path_wf_def)

lemma path_wf_relative_to: "relative_to p r = Inr q \<Longrightarrow> path_wf p \<Longrightarrow> path_wf q"
  by (auto simp: relative_to_def path_wf_def split: if_splits dest!: in_set_dropD)

lemma relative_to_is_relative: "relative_to p r = Inr q \<Longrightarrow> \<not> is_absolute q"
  by (auto simp: relative_to_def is_absolute_def split: if_splits)

lemma joinpath_relative_to:
  "relative_to p r = Inr q \<Longrightarrow> joinpath r q = p"
  by (cases p) (auto simp: relative_to_def joinpath_def is_absolute_def prefix_def split: if_splits)

lemma relative_to_joinpath:
  "\<not> is_absolute q \<Longrightarrow> relative_to (joinpath r q) r = Inr q"
  by (cases q) (simp add: relative_to_def joinpath_def is_absolute_def)

lemma relative_to_exn: "relative_to p r = Inl e \<Longrightarrow> e = ValueError LibraryValueError"
  by (auto simp: relative_to_def split: if_splits)

lemma join_with_hd:
  assumes "ps \<noteq> []" "\<forall>p\<in>set ps. part_wf p"
  shows "\<exists>x xs. join_with CHR ''/'' ps = x # xs \<and> x \<noteq> CHR ''/''"
proof (cases ps)
  case (Cons p qs)
  then obtain x xs where "p = x # xs" "x \<noteq> CHR ''/''"
    using assms by (cases p) (auto simp: part_wf_def)
  with Cons show ?thesis by (cases qs) auto
qed (use assms in simp)

lemma split_root_relative: "x \<noteq> CHR ''/'' \<Longrightarrow> split_root (x # xs) = ([], x # xs)"
  by (simp add: split_root_def)

lemma split_root_nil [simp]: "split_root [] = ([], [])"
  by (simp add: split_root_def)

lemma split_root_one: "take 1 s \<noteq> ''/'' \<Longrightarrow> split_root (CHR ''/'' # s) = (''/'', s)"
  by (simp add: split_root_def)

lemma split_root_two: "take 1 s \<noteq> ''/'' \<Longrightarrow> split_root (CHR ''/'' # CHR ''/'' # s) = (''//'', s)"
  by (auto simp: split_root_def)

lemma filter_parts: "\<forall>p\<in>set ps. part_wf p \<Longrightarrow> filter (\<lambda>p. p \<noteq> [] \<and> p \<noteq> ''.'') ps = ps"
  by (auto simp: part_wf_def intro: filter_True)

lemma Path_path_str:
  assumes wf: "path_wf p"
  shows "Path (path_str p) = p"
proof -
  obtain r ps where p: "p = \<lparr>path_root = r, path_tail = ps\<rparr>" by (cases p)
  have r: "r = [] \<or> r = ''/'' \<or> r = ''//''" and ps: "\<forall>q\<in>set ps. part_wf q"
    using wf by (auto simp: p path_wf_def)
  show ?thesis
  proof (cases "ps = []")
    case True
    with r show ?thesis
      by (auto simp: p path_str_def Path_def split_root_def)
  next
    case False
    let ?s = "join_with CHR ''/'' ps"
    obtain x xs where s: "?s = x # xs" "x \<noteq> CHR ''/''" using join_with_hd[OF False ps] by blast
    have "split_root (r @ ?s) = (r, ?s)"
      using r s by (auto simp: split_root_relative split_root_one split_root_two)
    moreover have "split_on CHR ''/'' ?s = ps"
      using False ps by (intro split_on_join) (auto simp: part_wf_def)
    ultimately show ?thesis
      using False by (simp add: p path_str_def Path_def filter_parts[OF ps])
  qed
qed

end
