(* ===== verification/PyFloat.thy ===== *)
theory PyFloat imports Prelude "HOL-Library.Log_Nat" begin

text \<open>
  Python's \<open>float\<close>: an IEEE 754 double. A finite double is a rational number, so the type is
  \<open>rat\<close>; each operation of the source computes the exact result and rounds it to the nearest
  double, ties to even (\<open>fl\<close>). \<open>int / int\<close> is the correctly rounded quotient, and raises on a
  zero divisor and on a quotient beyond the largest double. The clock's differences are far from
  that bound, so subtraction and addition have no overflow case.
\<close>

type_synonym pyfloat = rat

section \<open>Rounding\<close>

definition round_half_even :: "rat \<Rightarrow> int" where
  "round_half_even z =
     (let q = \<lfloor>z\<rfloor>; r = z - of_int q in
      if r < 1 / 2 then q
      else if 1 / 2 < r then q + 1
      else if even q then q else q + 1)"

text \<open>\<open>binade x\<close> is the \<open>k\<close> with \<open>2 ^ k \<le> x < 2 ^ (k + 1)\<close>, for \<open>x > 0\<close>.\<close>

definition binade :: "rat \<Rightarrow> int" where
  "binade x =
     (let (n, d) = quotient_of x; k = bitlen n - bitlen d in
      if x < 2 powi k then k - 1 else k)"

text \<open>53 bits of precision, and gradual underflow below \<open>2 ^ (-1022)\<close>.\<close>

definition ulp_exp :: "rat \<Rightarrow> int" where
  "ulp_exp x = max (binade x - 52) (-1074)"

definition fl_pos :: "rat \<Rightarrow> pyfloat" where
  "fl_pos x = of_int (round_half_even (x / 2 powi ulp_exp x)) * 2 powi ulp_exp x"

definition fl :: "rat \<Rightarrow> pyfloat" where
  "fl x = (if x = 0 then 0 else if 0 < x then fl_pos x else - fl_pos (- x))"

definition py_truediv :: "int \<Rightarrow> int \<Rightarrow> pyfloat result" where
  "py_truediv a b =
     (if b = 0 then Inl ZeroDivisionError
      else let q = fl (of_int a / of_int b) in
        if 2 ^ 1024 \<le> \<bar>q\<bar> then Inl OverflowError else Inr q)"

definition py_fsub :: "pyfloat \<Rightarrow> pyfloat \<Rightarrow> pyfloat" where
  "py_fsub x y = fl (x - y)"

definition py_fadd :: "pyfloat \<Rightarrow> pyfloat \<Rightarrow> pyfloat" where
  "py_fadd x y = fl (x + y)"

definition py_fmul :: "pyfloat \<Rightarrow> pyfloat \<Rightarrow> pyfloat" where
  "py_fmul x y = fl (x * y)"

definition math_ceil :: "pyfloat \<Rightarrow> int" where
  "math_ceil x = \<lceil>x\<rceil>"

section \<open>The rounding of one binade\<close>

lemma round_half_even_of_int [simp]: "round_half_even (of_int i) = i"
  by (simp add: round_half_even_def)

lemma round_half_even_bounds:
  "of_int (round_half_even z) \<le> z + 1 / 2" "z - 1 / 2 \<le> of_int (round_half_even z)"
  by (simp_all add: round_half_even_def Let_def) linarith+

lemma round_half_even_floor:
  "\<lfloor>z\<rfloor> \<le> round_half_even z" "round_half_even z \<le> \<lfloor>z\<rfloor> + 1"
  by (auto simp: round_half_even_def Let_def)

lemma round_half_even_mono:
  assumes "x \<le> y"
  shows "round_half_even x \<le> round_half_even y"
proof (cases "\<lfloor>x\<rfloor> = \<lfloor>y\<rfloor>")
  case True
  with assms show ?thesis by (auto simp: round_half_even_def Let_def)
next
  case False
  with assms floor_mono[OF assms] have "\<lfloor>x\<rfloor> + 1 \<le> \<lfloor>y\<rfloor>" by linarith
  with round_half_even_floor(2)[of x] round_half_even_floor(1)[of y] show ?thesis by linarith
qed

lemma round_half_even_ge: "of_int i \<le> z \<Longrightarrow> i \<le> round_half_even z"
  using round_half_even_mono[of "of_int i" z] by simp

lemma round_half_even_le: "z \<le> of_int i \<Longrightarrow> round_half_even z \<le> i"
  using round_half_even_mono[of z "of_int i"] by simp

lemma two_powi_pos [simp]: "0 < (2::rat) powi k"
  by (simp add: power_int_def)

lemma two_powi_add: "(2::rat) powi (i + j) = 2 powi i * 2 powi j"
  by (simp add: power_int_add)

lemma two_powi_le_iff [simp]: "(2::rat) powi i \<le> 2 powi j \<longleftrightarrow> i \<le> j"
  by (metis linorder_not_less one_less_numeral_iff order_less_imp_le power_int_increasing
      power_int_strict_increasing semiring_norm(76) less_le_not_le numeral_One)

lemma two_powi_less_iff [simp]: "(2::rat) powi i < 2 powi j \<longleftrightarrow> i < j"
  by (metis linorder_not_less two_powi_le_iff)

lemma two_powi_nonneg: "0 \<le> i \<Longrightarrow> (2::rat) powi i = of_int (2 ^ nat i)"
  by (simp add: power_int_def)

lemma int_bitlen_bounds:
  assumes "0 < n"
  shows "2 powi (bitlen n - 1) \<le> rat_of_int n" "rat_of_int n < 2 powi (bitlen n)"
proof -
  have len: "0 < bitlen n"
    using assms bitlen_eq_zero_iff[of n] bitlen_nonneg[of n] by linarith
  have "2 ^ nat (bitlen n - 1) \<le> n" "n < 2 ^ nat (bitlen n)"
    using bitlen_bounds[OF assms] by auto
  then have "of_int (2 ^ nat (bitlen n - 1)) \<le> rat_of_int n"
    "rat_of_int n < of_int (2 ^ nat (bitlen n))"
    unfolding of_int_le_iff of_int_less_iff .
  with len show "2 powi (bitlen n - 1) \<le> rat_of_int n" "rat_of_int n < 2 powi (bitlen n)"
    by (simp_all add: two_powi_nonneg)
qed

lemma binade_bounds:
  assumes "0 < x"
  shows "2 powi binade x \<le> x" "x < 2 powi (binade x + 1)"
proof -
  obtain n d where nd: "quotient_of x = (n, d)" by force
  have d: "0 < d" using quotient_of_denom_pos[OF nd] .
  have x: "x = of_int n / of_int d" using quotient_of_div[OF nd] .
  with assms d have n: "0 < n" by (simp add: zero_less_divide_iff)
  let ?k = "bitlen n - bitlen d"
  have "rat_of_int n < 2 powi (?k + 1) * 2 powi (bitlen d - 1)"
    using int_bitlen_bounds(2)[OF n] by (simp flip: two_powi_add)
  also have "\<dots> \<le> 2 powi (?k + 1) * of_int d"
    using int_bitlen_bounds(1)[OF d] by (intro mult_left_mono) auto
  finally have up: "x < 2 powi (?k + 1)" using d by (simp add: x divide_less_eq)
  have "2 powi (?k - 1) * rat_of_int d \<le> 2 powi (?k - 1) * 2 powi bitlen d"
    using int_bitlen_bounds(2)[OF d] by (intro mult_left_mono) auto
  also have "\<dots> \<le> rat_of_int n"
    using int_bitlen_bounds(1)[OF n] by (simp flip: two_powi_add)
  finally have lo: "2 powi (?k - 1) \<le> x" using d by (simp add: x le_divide_eq)
  show "2 powi binade x \<le> x" "x < 2 powi (binade x + 1)"
    using up lo by (auto simp: binade_def nd Let_def)
qed

lemma binade_mono:
  assumes "0 < x" "x \<le> y"
  shows "binade x \<le> binade y"
proof -
  have "2 powi binade x < (2::rat) powi (binade y + 1)"
    using binade_bounds(1)[OF assms(1)] binade_bounds(2)[of y] assms by linarith
  then show ?thesis by simp
qed

lemma binade_ge: "0 < x \<Longrightarrow> 2 powi i \<le> x \<Longrightarrow> i \<le> binade x"
  using binade_bounds(2)[of x] two_powi_less_iff[of i "binade x + 1"] by linarith

lemma binade_less: "0 < x \<Longrightarrow> x < 2 powi i \<Longrightarrow> binade x < i"
  using binade_bounds(1)[of x] two_powi_less_iff[of "binade x" i] by linarith

section \<open>The rounding of a positive number\<close>

lemma ulp_exp_mono: "0 < x \<Longrightarrow> x \<le> y \<Longrightarrow> ulp_exp x \<le> ulp_exp y"
  using binade_mono[of x y] by (simp add: ulp_exp_def)

lemma ulp_exp_upper:
  assumes "0 < x"
  shows "x < 2 powi (ulp_exp x + 53)"
proof -
  have "(2::rat) powi (binade x + 1) \<le> 2 powi (ulp_exp x + 53)"
    by (simp add: ulp_exp_def)
  with binade_bounds(2)[OF assms] show ?thesis by linarith
qed

lemma fl_pos_error:
  "\<bar>fl_pos x - x\<bar> \<le> 2 powi (ulp_exp x - 1)"
proof -
  let ?u = "(2::rat) powi ulp_exp x"
  have "\<bar>of_int (round_half_even (x / ?u)) - x / ?u\<bar> \<le> 1 / 2"
    using round_half_even_bounds[of "x / ?u"] by linarith
  then have "\<bar>of_int (round_half_even (x / ?u)) - x / ?u\<bar> * ?u \<le> 1 / 2 * ?u"
    by (intro mult_right_mono) (auto intro: less_imp_le)
  moreover have "\<bar>of_int (round_half_even (x / ?u)) - x / ?u\<bar> * ?u = \<bar>fl_pos x - x\<bar>"
    using two_powi_pos[of "ulp_exp x"]
    by (simp add: fl_pos_def abs_mult_pos' field_simps flip: abs_mult_pos)
  moreover have "1 / 2 * ?u = 2 powi (ulp_exp x - 1)"
    by (simp add: power_int_diff)
  ultimately show ?thesis by simp
qed

lemma fl_pos_le:
  assumes "x \<le> of_int m * 2 powi ulp_exp x"
  shows "fl_pos x \<le> of_int m * 2 powi ulp_exp x"
proof -
  have "x / 2 powi ulp_exp x \<le> of_int m" using assms by (simp add: divide_le_eq)
  then have "round_half_even (x / 2 powi ulp_exp x) \<le> m" by (rule round_half_even_le)
  then show ?thesis unfolding fl_pos_def by (intro mult_right_mono) (auto intro: less_imp_le)
qed

lemma fl_pos_ge:
  assumes "of_int m * 2 powi ulp_exp x \<le> x"
  shows "of_int m * 2 powi ulp_exp x \<le> fl_pos x"
proof -
  have "of_int m \<le> x / 2 powi ulp_exp x" using assms by (simp add: le_divide_eq)
  then have "m \<le> round_half_even (x / 2 powi ulp_exp x)" by (rule round_half_even_ge)
  then show ?thesis unfolding fl_pos_def by (intro mult_right_mono) (auto intro: less_imp_le)
qed

lemma two_powi_53: "of_int (2 ^ 53) * (2::rat) powi e = 2 powi (e + 53)"
  by (simp add: power_int_add)

lemma two_powi_52: "of_int (2 ^ 52) * (2::rat) powi e = 2 powi (e + 52)"
  by (simp add: power_int_add)

lemma fl_pos_mono:
  assumes x: "0 < x" and xy: "x \<le> y"
  shows "fl_pos x \<le> fl_pos y"
proof (cases "ulp_exp x = ulp_exp y")
  case True
  have "x / 2 powi ulp_exp y \<le> y / 2 powi ulp_exp y"
    using xy by (intro divide_right_mono) (auto intro: less_imp_le)
  then show ?thesis
    unfolding fl_pos_def True
    by (intro mult_right_mono) (auto intro: less_imp_le round_half_even_mono)
next
  case False
  with ulp_exp_mono[OF x xy] have less: "ulp_exp x + 1 \<le> ulp_exp y" by linarith
  then have "ulp_exp y = binade y - 52" by (auto simp: ulp_exp_def)
  then have "of_int (2 ^ 52) * 2 powi ulp_exp y \<le> y"
    using binade_bounds(1)[of y] x xy unfolding two_powi_52 by simp
  then have up: "2 powi (ulp_exp y + 52) \<le> fl_pos y"
    using fl_pos_ge[of "2 ^ 52" y] unfolding two_powi_52 by simp
  have "x \<le> of_int (2 ^ 53) * 2 powi ulp_exp x"
    using ulp_exp_upper[OF x] unfolding two_powi_53 by simp
  then have "fl_pos x \<le> 2 powi (ulp_exp x + 53)"
    using fl_pos_le[of x "2 ^ 53"] unfolding two_powi_53 by simp
  also have "\<dots> \<le> 2 powi (ulp_exp y + 52)" using less by simp
  finally show ?thesis using up by linarith
qed

lemma fl_pos_exact:
  assumes x: "x = of_int m * 2 powi j" and j: "ulp_exp x \<le> j"
  shows "fl_pos x = x"
proof -
  have "2 powi j / (2::rat) powi ulp_exp x = of_int (2 ^ nat (j - ulp_exp x))"
    using j two_powi_nonneg[of "j - ulp_exp x"] by (simp add: power_int_diff)
  then have "x / 2 powi ulp_exp x = of_int (m * 2 ^ nat (j - ulp_exp x))"
    by (metis (no_types) x of_int_mult times_divide_eq_right)
  then show ?thesis
    unfolding fl_pos_def
    by (metis nonzero_divide_eq_eq round_half_even_of_int two_powi_pos less_irrefl)
qed

lemma fl_pos_nonneg: "0 \<le> x \<Longrightarrow> 0 \<le> fl_pos x"
  using fl_pos_ge[of 0 x] by simp

section \<open>The rounding of any number\<close>

lemma fl_zero [simp]: "fl 0 = 0"
  by (simp add: fl_def)

text \<open>What lies above a power of two by at most half a unit in its last place is rounded down to it.\<close>

lemma fl_above_power:
  assumes "0 < d" "d \<le> 2 powi (int k - 53)"
  shows "fl (2 ^ k + d) = 2 ^ k"
proof -
  let ?x = "2 ^ k + d" and ?u = "(2 :: rat) powi (int k - 52)"
  have pow: "(2 :: rat) ^ k = 2 powi int k" by simp
  have half: "(2 :: rat) powi (int k - 53) = ?u / 2" using power_int_diff[of "2 :: rat" "int k - 52" 1] by simp
  have scale: "(2 :: rat) ^ k = of_int (2 ^ 52) * ?u" unfolding two_powi_52 by simp
  have pos: "0 < ?x" using assms(1) by (simp add: add_pos_pos)
  have "2 powi (int k - 53) < (2 :: rat) powi int k" by (subst two_powi_less_iff) simp
  then have "?x < 2 powi int k + 2 powi int k" using assms(2) unfolding pow by linarith
  also have "\<dots> = 2 powi (int k + 1)" unfolding two_powi_add by simp
  finally have above: "?x < 2 powi (int k + 1)" .
  have below: "2 powi int k \<le> ?x" using assms(1) by simp
  then have "binade ?x = int k"
    using binade_ge[OF pos below] binade_less[OF pos above] by linarith
  then have ulp: "ulp_exp ?x = int k - 52" by (simp add: ulp_exp_def)
  have quot: "?x / ?u = of_int (2 ^ 52) + d / ?u" unfolding scale by (simp add: add_divide_distrib)
  have r: "0 < d / ?u" "d / ?u \<le> 1 / 2"
    using assms unfolding half by (simp_all add: divide_le_eq)
  then have "\<lfloor>?x / ?u\<rfloor> = 2 ^ 52" unfolding quot by (intro floor_unique) linarith+
  then have "round_half_even (?x / ?u) = 2 ^ 52"
    using r unfolding round_half_even_def Let_def quot by simp
  then have "fl_pos ?x = of_int (2 ^ 52) * ?u" by (simp only: fl_pos_def ulp)
  then show ?thesis using pos by (simp only: fl_def scale[symmetric]) simp
qed

lemma fl_uminus: "fl (- x) = - fl x"
  by (simp add: fl_def)

lemma fl_mono:
  assumes "x \<le> y"
  shows "fl x \<le> fl y"
proof -
  consider "0 < x" | "y < 0" | "x \<le> 0" "0 \<le> y" by linarith
  then show ?thesis
  proof cases
    case 1
    with assms show ?thesis by (simp add: fl_def fl_pos_mono)
  next
    case 2
    with assms show ?thesis by (simp add: fl_def fl_pos_mono)
  next
    case 3
    have "fl x \<le> 0" "0 \<le> fl y"
      using 3 fl_pos_nonneg[of "- x"] fl_pos_nonneg[of y] by (auto simp: fl_def)
    then show ?thesis by linarith
  qed
qed

lemma ulp_exp_of_int:
  assumes "0 < m" "m < 2 ^ 53"
  shows "ulp_exp (of_int m) \<le> 0"
proof -
  have "rat_of_int m < of_int (2 ^ 53)" using assms(2) unfolding of_int_less_iff .
  then have "rat_of_int m < 2 powi 53" by (simp add: power_int_def)
  with assms(1) have "binade (of_int m) < 53" by (intro binade_less) auto
  then show ?thesis by (simp add: ulp_exp_def)
qed

lemma fl_of_int:
  assumes "\<bar>m\<bar> < 2 ^ 53"
  shows "fl (of_int m) = of_int m"
proof -
  have pos: "fl_pos (of_int i) = of_int i" if "0 < i" "i < 2 ^ 53" for i
    using fl_pos_exact[of "of_int i" i 0] ulp_exp_of_int[OF that] by simp
  show ?thesis
    using assms pos[of m] pos[of "- m"] by (auto simp: fl_def)
qed

lemma fl_sub_ge: "of_int m \<le> x - y \<Longrightarrow> \<bar>m\<bar> < 2 ^ 53 \<Longrightarrow> of_int m \<le> py_fsub x y"
  using fl_mono[of "of_int m" "x - y"] fl_of_int[of m] by (simp add: py_fsub_def)

lemma fl_sub_le: "x - y \<le> of_int m \<Longrightarrow> \<bar>m\<bar> < 2 ^ 53 \<Longrightarrow> py_fsub x y \<le> of_int m"
  using fl_mono[of "x - y" "of_int m"] fl_of_int[of m] by (simp add: py_fsub_def)

lemma py_fsub_self [simp]: "py_fsub x x = 0"
  by (simp add: py_fsub_def)

lemma py_fsub_nonneg: "y \<le> x \<Longrightarrow> 0 \<le> py_fsub x y"
  using fl_sub_ge[of 0 x y] by simp

lemma py_fsub_mono_left: "x \<le> x' \<Longrightarrow> py_fsub x y \<le> py_fsub x' y"
  by (simp add: py_fsub_def fl_mono)

lemma py_fsub_mono_right: "y \<le> y' \<Longrightarrow> py_fsub x y' \<le> py_fsub x y"
  by (simp add: py_fsub_def fl_mono)

section \<open>The ceiling of a rounded quotient\<close>

text \<open>
  Below \<open>2 ^ 53\<close> the rounding never moves a quotient across an integer from above, so the
  ceiling of the float is the ceiling of the quotient.
\<close>

lemma fl_quotient_gt_floor:
  assumes a: "0 < a" "a < 2 ^ 53" and b: "0 < b" "b \<le> 2 ^ 53" and r: "a mod b \<noteq> 0"
  shows "of_int (a div b) < fl (of_int a / of_int b)"
proof -
  let ?x = "rat_of_int a / of_int b" and ?q = "a div b"
  have x: "0 < ?x" using a b by simp
  have "b * ?q + 1 \<le> a" using r b pos_mod_sign[OF b(1), of a] mult_div_mod_eq[of b a] by linarith
  then have "rat_of_int (b * ?q + 1) \<le> of_int a" unfolding of_int_le_iff .
  then have "of_int b * of_int ?q + 1 \<le> rat_of_int a" by simp
  then have "(of_int ?q + 1 / of_int b) * of_int b \<le> rat_of_int a"
    using b by (simp add: distrib_right distrib_left mult.commute)
  then have gap: "of_int ?q + 1 / of_int b \<le> ?x"
    using b by (subst pos_le_divide_eq) auto
  have q: "0 \<le> ?q" using a b by (simp add: pos_imp_zdiv_nonneg_iff)
  have small: "2 powi binade ?x * of_int b < (2::rat) powi 53"
  proof (rule le_less_trans)
    show "2 powi binade ?x * of_int b \<le> rat_of_int a"
      using binade_bounds(1)[OF x] b by (simp add: le_divide_eq)
    have "rat_of_int a < of_int (2 ^ 53)" using a(2) unfolding of_int_less_iff .
    then show "rat_of_int a < 2 powi 53" by (simp add: power_int_def)
  qed
  have "(2::rat) powi (- 53) \<le> ?x"
  proof -
    have "rat_of_int b \<le> of_int (2 ^ 53)" using b(2) unfolding of_int_le_iff .
    moreover have "1 \<le> rat_of_int a" using a by simp
    ultimately have "rat_of_int b \<le> of_int (2 ^ 53) * rat_of_int a"
      by (metis (no_types) mult.right_neutral mult_mono of_int_0_le_iff order_trans zero_le_one
          zero_le_numeral zero_le_power order_refl)
    then show ?thesis using b by (simp add: power_int_def field_simps)
  qed
  then have "- 53 \<le> binade ?x" by (rule binade_ge[OF x])
  then have u: "ulp_exp ?x = binade ?x - 52" by (simp add: ulp_exp_def)
  have "2 powi (ulp_exp ?x - 1) * 2 powi 53 = (2::rat) powi binade ?x"
    unfolding u two_powi_add[symmetric] by simp
  then have "2 powi (ulp_exp ?x - 1) * of_int b * 2 powi 53 = 2 powi binade ?x * rat_of_int b"
    by (metis (no_types) mult.assoc mult.commute)
  with small have "2 powi (ulp_exp ?x - 1) * of_int b * 2 powi 53 < 1 * (2::rat) powi 53"
    by (simp only: mult_1)
  then have "2 powi (ulp_exp ?x - 1) * of_int b < (1::rat)"
    by (rule mult_right_less_imp_less) simp
  then have "2 powi (ulp_exp ?x - 1) < 1 / rat_of_int b" using b by (simp add: less_divide_eq)
  moreover have "?x - 2 powi (ulp_exp ?x - 1) \<le> fl_pos ?x" using fl_pos_error[of ?x] by linarith
  ultimately have "of_int ?q < fl_pos ?x" using gap by linarith
  then show ?thesis using x unfolding fl_def by auto
qed

lemma ceiling_fl_quotient:
  assumes a: "0 \<le> a" "a < 2 ^ 53" and b: "0 < b" "b \<le> 2 ^ 53"
  shows "math_ceil (fl (of_int a / of_int b)) = (a + b - 1) div b"
proof (cases "a mod b = 0")
  case True
  then obtain c where c: "a = b * c" by (metis dvdE mod_eq_0_iff_dvd)
  then have "rat_of_int a / of_int b = of_int c" using b by simp
  moreover have "0 \<le> c" using a b c by (simp add: zero_le_mult_iff)
  moreover have "c \<le> a" using \<open>0 \<le> c\<close> b c mult_right_mono[of 1 b c] by simp
  ultimately have "fl (of_int a / of_int b) = of_int c" using a by (simp add: fl_of_int)
  moreover have "(b * c + b - 1) div b = c"
    using b by (intro int_div_pos_eq[where r = "b - 1"]) auto
  ultimately show ?thesis by (simp add: math_ceil_def c)
next
  case False
  with a have pos: "0 < a" by (cases "a = 0") auto
  let ?q = "a div b"
  have "a = b * ?q + a mod b" by simp
  moreover have "0 < a mod b" "a mod b < b" using False b pos_mod_bound[OF b(1), of a] pos_mod_sign[OF b(1), of a] by linarith+
  ultimately have "(a + b - 1) div b = ?q + 1"
    by (intro int_div_pos_eq[where r = "a mod b - 1"]) (auto simp: algebra_simps)
  moreover have "of_int ?q < fl (of_int a / of_int b)"
    by (rule fl_quotient_gt_floor[OF pos a(2) b False])
  moreover have "fl (of_int a / of_int b) \<le> of_int (?q + 1)"
  proof -
    have "a = b * ?q + a mod b" by simp
    with \<open>a mod b < b\<close> have "a \<le> b * ?q + b" by linarith
    then have "a \<le> (?q + 1) * b" by (simp add: algebra_simps)
    then have "rat_of_int a \<le> of_int ((?q + 1) * b)" unfolding of_int_le_iff .
    then have "rat_of_int a / of_int b \<le> of_int (?q + 1)" using b by (simp add: divide_le_eq)
    then have "fl (of_int a / of_int b) \<le> fl (of_int (?q + 1))" by (rule fl_mono)
    moreover have "\<bar>?q + 1\<bar> < 2 ^ 53"
    proof -
      have "1 < b" using False by (metis mod_by_1 b(1) int_one_le_iff_zero_less less_le)
      then have "?q < a" using int_div_less_self[OF pos] by simp
      moreover have "0 \<le> ?q" using pos b by (simp add: pos_imp_zdiv_nonneg_iff)
      ultimately show ?thesis using a(2) by simp
    qed
    ultimately show ?thesis by (simp only: fl_of_int)
  qed
  ultimately show ?thesis unfolding math_ceil_def by (auto intro!: ceiling_unique)
qed

end
