(* ===== verification/Models.thy ===== *)
theory Models imports PyPath PyFloat begin

text \<open>
  The data of \<open>domain/models.py\<close> and the constants of \<open>services/constants.py\<close>. A frozen dataclass
  is a record; a field whose name two classes share carries a prefix. \<open>fec_valid\<close> is what
  \<open>validate_config\<close> accepts of the FEC parameters; the theorems about block layout assume it.
\<close>

section \<open>Constants\<close>

definition MISSED_HEARTBEAT_LIMIT :: int where
  "MISSED_HEARTBEAT_LIMIT = 3"

definition HEARTBEAT_INTERVAL_SECONDS :: pyfloat where
  "HEARTBEAT_INTERVAL_SECONDS = 5"

definition DEBOUNCE_SECONDS :: pyfloat where
  "DEBOUNCE_SECONDS = fl (2 / 10)"

definition MAX_DISPATCH_ATTEMPTS :: nat where
  "MAX_DISPATCH_ATTEMPTS = 2"

definition DISPATCH_RETRY_DELAY_SECONDS :: pyfloat where
  "DISPATCH_RETRY_DELAY_SECONDS = fl (5 / 100)"

definition SESSION_ID_RANDOM_BYTES :: nat where
  "SESSION_ID_RANDOM_BYTES = 8"

definition UNSET_SENDER_BPS_LIMIT :: int where
  "UNSET_SENDER_BPS_LIMIT = 0"

definition FILE_HASH_HEX_LENGTH :: nat where
  "FILE_HASH_HEX_LENGTH = 64"

definition GF256_MAX_SHARES :: int where
  "GF256_MAX_SHARES = 255"

definition MAX_SYMBOL_BYTES :: int where
  "MAX_SYMBOL_BYTES = 1500 - 20 - 8 - 12 - 18"

definition MIN_PORT :: int where
  "MIN_PORT = 1"

definition MAX_PORT :: int where
  "MAX_PORT = 65535"

section \<open>Domain models\<close>

record source_file =
  sf_path :: path
  size_bytes :: int
  file_hash :: string

record fec_params =
  fec_k :: int
  fec_n :: int
  symbol_bytes :: int

definition block_size :: "fec_params \<Rightarrow> int" where
  "block_size p = fec_k p * symbol_bytes p"

record block_plan =
  bp_block_id :: BlockId
  start_byte :: int
  end_byte :: int

record shard_assignment =
  sa_sender_id :: SenderId
  shard_modulus :: int
  shard_residue :: int
  assigned_blocks :: "BlockId list"
  sa_target_port :: int

section \<open>Valid FEC parameters\<close>

definition fec_valid :: "fec_params \<Rightarrow> bool" where
  "fec_valid p \<longleftrightarrow> 0 < fec_k p \<and> 0 < fec_n p \<and> 0 < symbol_bytes p
     \<and> fec_n p \<le> GF256_MAX_SHARES \<and> fec_k p < fec_n p \<and> symbol_bytes p \<le> MAX_SYMBOL_BYTES"

lemma block_size_pos: "fec_valid p \<Longrightarrow> 0 < block_size p"
  by (simp add: fec_valid_def block_size_def)

lemma block_size_le: "fec_valid p \<Longrightarrow> block_size p \<le> 254 * 1442"
  unfolding fec_valid_def block_size_def GF256_MAX_SHARES_def MAX_SYMBOL_BYTES_def
  by (intro mult_mono) auto

lemma block_size_bounds: "fec_valid p \<Longrightarrow> 0 < block_size p \<and> block_size p \<le> 2 ^ 53"
  using block_size_pos[of p] block_size_le[of p] by simp

end
