(* ===== verification/Planning.thy ===== *)
theory Planning imports Models begin

text \<open>
  \<open>domain/planning.py\<close>: the block layout of a file and the split of its blocks over the live
  senders. The locale \<open>residue_sharding\<close> is the contract of a shard function (\<open>b\<close> is in shard
  \<open>r\<close> of \<open>m\<close> exactly when \<open>b mod m = r\<close>); its lemmas (shards are disjoint, together they are
  every block once) are proved from the contract and used through the interpretation \<open>shards\<close>.
\<close>

section \<open>Block layout\<close>

definition calculate_block_count :: "int \<Rightarrow> fec_params \<Rightarrow> int result" where
  "calculate_block_count file_size fec =
     bindE (py_truediv file_size (block_size fec)) (\<lambda>q. Inr (math_ceil q))"

definition block_plan_at :: "int \<Rightarrow> int \<Rightarrow> int \<Rightarrow> block_plan" where
  "block_plan_at file_size bs i =
     \<lparr>bp_block_id = i, start_byte = i * bs, end_byte = min (i * bs + bs) file_size\<rparr>"

definition compute_block_plans :: "int \<Rightarrow> fec_params \<Rightarrow> block_plan list result" where
  "compute_block_plans file_size fec =
     bindE (calculate_block_count file_size fec) (\<lambda>block_count.
       Inr (map (block_plan_at file_size (block_size fec)) [0..block_count - 1]))"

section \<open>Shards\<close>

definition blocks_for_shard :: "int \<Rightarrow> int \<Rightarrow> int \<Rightarrow> BlockId list result" where
  "blocks_for_shard total_blocks modulus residue =
     (if modulus = 0 \<and> 0 < total_blocks then Inl ZeroDivisionError
      else Inr (filter (\<lambda>b. b mod modulus = residue) [0..total_blocks - 1]))"

text \<open>The loop that collects the ids seen before, with its two sets.\<close>

fun scan_duplicates :: "SenderId list \<Rightarrow> SenderId set \<Rightarrow> SenderId set \<Rightarrow> SenderId set" where
  "scan_duplicates [] seen dups = dups"
| "scan_duplicates (s # ss) seen dups =
     scan_duplicates ss (insert s seen) (if s \<in> seen then insert s dups else dups)"

definition shard_assignment_for :: "int \<Rightarrow> int \<Rightarrow> int \<Rightarrow> nat \<times> SenderId \<Rightarrow> shard_assignment result" where
  "shard_assignment_for total_blocks modulus base_port = (\<lambda>(residue, sender_id).
     bindE (blocks_for_shard total_blocks modulus (int residue)) (\<lambda>bs.
       Inr \<lparr>sa_sender_id = sender_id, shard_modulus = modulus, shard_residue = int residue,
            assigned_blocks = bs, sa_target_port = base_port + int residue\<rparr>))"

definition derive_shard_assignments ::
  "int \<Rightarrow> SenderId list \<Rightarrow> int \<Rightarrow> shard_assignment list result" where
  "derive_shard_assignments total_blocks active_senders base_port =
     (if active_senders = [] then Inl (ValueError EmptyActiveSenders)
      else let dups = scan_duplicates active_senders {} {} in
        if dups \<noteq> {} then Inl (ValueError (DuplicateSenderIds (sorted_list_of_set dups)))
        else if total_blocks < 0 then Inl (ValueError (NegativeTotalBlocks total_blocks))
        else if base_port \<le> 0 then Inl (ValueError (BasePortNotPositive base_port))
        else traverseE (shard_assignment_for total_blocks (int (length active_senders)) base_port)
               (List.enumerate 0 active_senders))"

section \<open>Block count\<close>

text \<open>The ceiling the layout needs, in exact integers.\<close>

definition ceil_div :: "int \<Rightarrow> int \<Rightarrow> int" where
  "ceil_div a b = (a + b - 1) div b"

lemma ceil_div_unique:
  assumes "0 < b" "(c - 1) * b < a" "a \<le> c * b"
  shows "ceil_div a b = c"
  unfolding ceil_div_def
  using assms by (intro int_div_pos_eq[where r = "a + b - 1 - b * c"]) (auto simp: algebra_simps)

lemma ceil_div_spec:
  assumes "0 < b"
  shows "(ceil_div a b - 1) * b < a" "a \<le> ceil_div a b * b"
proof -
  have "a + b - 1 = b * ceil_div a b + (a + b - 1) mod b"
    by (simp add: ceil_div_def)
  with pos_mod_bound[OF assms, of "a + b - 1"] pos_mod_sign[OF assms, of "a + b - 1"]
  show "(ceil_div a b - 1) * b < a" "a \<le> ceil_div a b * b"
    by (auto simp: algebra_simps)
qed

lemma ceil_div_nonneg: "0 < b \<Longrightarrow> 0 \<le> a \<Longrightarrow> 0 \<le> ceil_div a b"
  by (simp add: ceil_div_def pos_imp_zdiv_nonneg_iff)

lemma fl_quotient_small:
  assumes "0 \<le> a" "a < 2 ^ 53" "0 < b" "b \<le> 2 ^ 53"
  shows "\<bar>fl (of_int a / of_int b)\<bar> < 2 ^ 1024"
proof -
  let ?x = "rat_of_int a / of_int b"
  have "1 \<le> rat_of_int b" using assms by simp
  then have "?x \<le> of_int a" using assms by (simp add: divide_le_eq mult_right_mono_neg
        mult_left_mono[of 1 "rat_of_int b" "rat_of_int a", simplified])
  then have "fl ?x \<le> of_int a" using fl_mono[of ?x "of_int a"] fl_of_int[of a] assms by simp
  moreover have "0 \<le> fl ?x" using fl_mono[of 0 ?x] assms by simp
  moreover have "rat_of_int a < of_int (2 ^ 1024)"
    unfolding of_int_less_iff using assms(2) by (rule less_le_trans) simp
  ultimately show ?thesis by simp
qed

lemma calculate_block_count_eq:
  assumes "fec_valid fec" "0 \<le> file_size" "file_size < 2 ^ 53"
  shows "calculate_block_count file_size fec = Inr (ceil_div file_size (block_size fec))"
  using block_size_bounds[OF assms(1)] assms
    fl_quotient_small[of file_size "block_size fec"]
    ceiling_fl_quotient[of file_size "block_size fec"]
  by (auto simp: calculate_block_count_def py_truediv_def ceil_div_def Let_def)

lemma block_count_rounds_down:
  assumes "0 < B" "k < 1024" "0 < extra" "extra * 2 ^ 53 \<le> B * 2 ^ k"
  shows "bindE (py_truediv (2 ^ k * B + extra) B) (\<lambda>q. Inr (math_ceil q)) = Inr (2 ^ k)"
proof -
  let ?d = "rat_of_int extra / of_int B"
  have "rat_of_int (extra * 2 ^ 53) \<le> of_int (B * 2 ^ k)" using assms(4) by (simp only: of_int_le_iff)
  then have "?d * 2 ^ 53 \<le> 2 ^ k" using assms(1) by (simp add: divide_le_eq mult.commute)
  then have "?d \<le> 2 powi (int k - 53)" by (simp add: power_int_diff le_divide_eq)
  moreover have "0 < ?d" using assms(1,3) by simp
  ultimately have "fl (2 ^ k + ?d) = 2 ^ k" by (intro fl_above_power)
  moreover have "rat_of_int (2 ^ k * B + extra) / of_int B = 2 ^ k + ?d" using assms(1) by (simp add: add_divide_distrib)
  moreover have "(2 :: rat) ^ k < 2 ^ 1024" using assms(2) by (intro power_strict_increasing) simp_all
  ultimately show ?thesis using assms(1) by (simp add: py_truediv_def math_ceil_def Let_def)
qed

lemma calculate_block_count_zero_size:
  "calculate_block_count file_size fec = Inl ZeroDivisionError \<longleftrightarrow> block_size fec = 0"
  by (auto simp: calculate_block_count_def py_truediv_def Let_def res_simps split: if_splits)

section \<open>The block plans tile the file\<close>

text \<open>
  \<open>tiles a ps b\<close>: the byte ranges of \<open>ps\<close>, in order, cover \<open>[a, b)\<close> with no gap, no overlap and
  no empty block.
\<close>

fun tiles :: "int \<Rightarrow> block_plan list \<Rightarrow> int \<Rightarrow> bool" where
  "tiles a [] b \<longleftrightarrow> a = b"
| "tiles a (p # ps) b \<longleftrightarrow> start_byte p = a \<and> a < end_byte p \<and> tiles (end_byte p) ps b"

lemma tiles_le: "tiles a ps b \<Longrightarrow> a \<le> b"
  by (induction ps arbitrary: a) force+

lemma tiles_start_ge: "tiles a ps b \<Longrightarrow> p \<in> set ps \<Longrightarrow> a \<le> start_byte p"
  by (induction ps arbitrary: a) force+

lemma tiles_unique_block:
  assumes "tiles a ps b" "a \<le> x" "x < b"
  shows "\<exists>!i. i < length ps \<and> start_byte (ps ! i) \<le> x \<and> x < end_byte (ps ! i)"
  using assms
proof (induction ps arbitrary: a)
  case Nil
  then show ?case by simp
next
  case (Cons p ps)
  have later: "end_byte p \<le> start_byte (ps ! i)" if "i < length ps" for i
    using that Cons.prems(1) by (auto intro: tiles_start_ge)
  show ?case
  proof (cases "x < end_byte p")
    case True
    show ?thesis
    proof (rule ex1I[of _ 0])
      show "0 < length (p # ps) \<and> start_byte ((p # ps) ! 0) \<le> x \<and> x < end_byte ((p # ps) ! 0)"
        using True Cons.prems by simp
      fix j
      assume j: "j < length (p # ps) \<and> start_byte ((p # ps) ! j) \<le> x \<and> x < end_byte ((p # ps) ! j)"
      show "j = 0"
      proof (cases j)
        case (Suc i)
        with j later[of i] True show ?thesis by auto
      qed
    qed
  next
    case False
    with Cons.prems have "end_byte p \<le> x" "tiles (end_byte p) ps b" by auto
    from Cons.IH[OF this(2,1) \<open>x < b\<close>] obtain i where
      i: "i < length ps" "start_byte (ps ! i) \<le> x" "x < end_byte (ps ! i)"
      and uniq: "\<And>j. j < length ps \<Longrightarrow> start_byte (ps ! j) \<le> x \<Longrightarrow> x < end_byte (ps ! j) \<Longrightarrow> j = i"
      by blast
    show ?thesis
    proof (rule ex1I[of _ "Suc i"])
      fix j
      assume "j < length (p # ps) \<and> start_byte ((p # ps) ! j) \<le> x \<and> x < end_byte ((p # ps) ! j)"
      with False uniq show "j = Suc i" by (cases j) auto
    qed (use i in simp)
  qed
qed

lemma upto_shift: "i \<le> j \<Longrightarrow> [i..j] = i # [i + 1..j]"
  by (simp add: upto_rec1)

lemma tiles_block_plans:
  assumes bs: "0 < bs" and
    c: "(c - 1) * bs < fs" "fs \<le> c * bs" and i: "0 \<le> i" "i \<le> c" "i * bs \<le> fs \<or> i = c"
  shows "tiles (min (i * bs) fs) (map (block_plan_at fs bs) [i..c - 1]) fs"
  using i
proof (induction "nat (c - i)" arbitrary: i)
  case 0
  then have "i = c" by simp
  with c show ?case by simp
next
  case (Suc n)
  then have ic: "i \<le> c - 1" by linarith
  have "i * bs \<le> (c - 1) * bs" using ic bs by (intro mult_right_mono) auto
  with c have lt: "i * bs < fs" by linarith
  have next_le: "i + 1 = c \<or> (i + 1) * bs \<le> fs"
  proof (cases "i + 1 = c")
    case False
    with ic have "(i + 1) * bs \<le> (c - 1) * bs" using bs by (intro mult_right_mono) auto
    with c show ?thesis by linarith
  qed simp
  have "tiles (min ((i + 1) * bs) fs) (map (block_plan_at fs bs) [i + 1..c - 1]) fs"
    using Suc next_le ic by (intro Suc.hyps(1)) auto
  moreover have "min ((i + 1) * bs) fs = end_byte (block_plan_at fs bs i)"
    by (simp add: block_plan_at_def algebra_simps)
  ultimately show ?case
    using lt bs by (simp add: upto_shift[OF ic] block_plan_at_def)
qed

lemma compute_block_plans_eq:
  assumes "fec_valid fec" "0 \<le> file_size" "file_size < 2 ^ 53"
  shows "compute_block_plans file_size fec =
    Inr (map (block_plan_at file_size (block_size fec)) [0..ceil_div file_size (block_size fec) - 1])"
  by (simp add: compute_block_plans_def calculate_block_count_eq[OF assms])

lemma compute_block_plans_tiles:
  assumes "fec_valid fec" "0 \<le> file_size" "file_size < 2 ^ 53"
    and "compute_block_plans file_size fec = Inr plans"
  shows "tiles 0 plans file_size"
proof -
  let ?bs = "block_size fec" and ?c = "ceil_div file_size (block_size fec)"
  have bs: "0 < ?bs" using assms(1) by (rule block_size_pos)
  have "tiles (min (0 * ?bs) file_size) (map (block_plan_at file_size ?bs) [0..?c - 1]) file_size"
    using ceil_div_spec[OF bs, of file_size] ceil_div_nonneg[OF bs assms(2)] assms(2) bs
    by (intro tiles_block_plans) auto
  with assms show ?thesis by (simp add: compute_block_plans_eq)
qed

section \<open>The contract of a shard function\<close>

lemma mset_concat_classes:
  assumes "distinct rs"
  shows "mset (concat (map (\<lambda>r. filter (\<lambda>b. f b = r) xs) rs)) = mset (filter (\<lambda>b. f b \<in> set rs) xs)"
  using assms
proof (induction rs)
  case Nil
  then show ?case by simp
next
  case (Cons r rs)
  have "filter (\<lambda>b. f b \<in> set (r # rs)) xs = filter (\<lambda>b. f b = r \<or> f b \<in> set rs) xs"
    by simp
  moreover have "mset (filter (\<lambda>b. f b = r \<or> f b \<in> set rs) xs)
      = mset (filter (\<lambda>b. f b = r) xs) + mset (filter (\<lambda>b. f b \<in> set rs) xs)"
    using Cons.prems by (induction xs) auto
  ultimately show ?case using Cons by simp
qed

locale residue_sharding =
  fixes shard :: "int \<Rightarrow> int \<Rightarrow> int \<Rightarrow> BlockId list"
  assumes shard_sorted: "0 < m \<Longrightarrow> sorted (shard t m r)"
    and shard_distinct: "0 < m \<Longrightarrow> distinct (shard t m r)"
    and shard_mem: "0 < m \<Longrightarrow> set (shard t m r) = {b. 0 \<le> b \<and> b < t \<and> b mod m = r}"
begin

lemma shard_eq_filter:
  assumes "0 < m"
  shows "shard t m r = filter (\<lambda>b. b mod m = r) [0..t - 1]"
  by (rule sorted_distinct_set_unique)
    (use assms in \<open>auto simp: shard_sorted shard_distinct shard_mem intro: sorted_wrt_filter\<close>)

lemma shards_disjoint: "0 < m \<Longrightarrow> r \<noteq> r' \<Longrightarrow> set (shard t m r) \<inter> set (shard t m r') = {}"
  by (auto simp: shard_mem)

lemma shards_partition:
  assumes "0 < m"
  shows "mset (concat (map (shard t m) [0..m - 1])) = mset [0..t - 1]"
proof -
  have "shard t m = (\<lambda>r. filter (\<lambda>b. b mod m = r) [0..t - 1])"
    by (rule ext) (rule shard_eq_filter[OF assms])
  then have "mset (concat (map (shard t m) [0..m - 1]))
      = mset (concat (map (\<lambda>r. filter (\<lambda>b. b mod m = r) [0..t - 1]) [0..m - 1]))"
    by simp
  also have "\<dots> = mset (filter (\<lambda>b. b mod m \<in> set [0..m - 1]) [0..t - 1])"
    by (rule mset_concat_classes) simp
  also have "filter (\<lambda>b. b mod m \<in> set [0..m - 1]) [0..t - 1] = [0..t - 1]"
    using assms by (intro filter_True) auto
  finally show ?thesis .
qed

lemma shard_out_of_range_empty:
  assumes "0 < m" "r < 0 \<or> m \<le> r"
  shows "shard t m r = []"
  using assms pos_mod_sign[OF assms(1)] pos_mod_bound[OF assms(1)]
  by (fastforce simp: shard_eq_filter[OF assms(1)] filter_empty_conv not_le[symmetric])

end

text \<open>The list the planner computes where it does not raise.\<close>

definition shard_blocks :: "int \<Rightarrow> int \<Rightarrow> int \<Rightarrow> BlockId list" where
  "shard_blocks total_blocks modulus residue =
     filter (\<lambda>b. b mod modulus = residue) [0..total_blocks - 1]"

lemma blocks_for_shard_eq:
  "modulus \<noteq> 0 \<Longrightarrow> blocks_for_shard t modulus r = Inr (shard_blocks t modulus r)"
  by (simp add: blocks_for_shard_def shard_blocks_def)

interpretation shards: residue_sharding shard_blocks
  by unfold_locales (auto simp: shard_blocks_def intro: sorted_wrt_filter)

section \<open>The derived assignments\<close>

lemma scan_duplicates_eq:
  "scan_duplicates ss seen dups
    = dups \<union> {s \<in> set ss. s \<in> seen} \<union> {s. 1 < count_list ss s}"
proof (induction ss arbitrary: seen dups)
  case Nil
  then show ?case by simp
next
  case (Cons a ss)
  have "1 \<le> count_list ss s \<longleftrightarrow> s \<in> set ss" for s
    using count_list_0_iff[of ss s] by (cases "count_list ss s") auto
  then show ?case by (auto simp: Cons.IH Suc_le_eq)
qed

lemma count_list_le_one: "(\<forall>s. count_list ss s \<le> 1) \<longleftrightarrow> distinct ss"
proof (induction ss)
  case (Cons a ss)
  have "(\<forall>s. count_list (a # ss) s \<le> 1) \<longleftrightarrow> count_list ss a = 0 \<and> (\<forall>s. count_list ss s \<le> 1)"
    (is "?l \<longleftrightarrow> ?r")
  proof
    assume l: ?l
    from spec[OF l, of a] have "count_list ss a = 0" by simp
    moreover have "count_list ss s \<le> 1" for s
      using spec[OF l, of s] by (simp split: if_splits)
    ultimately show ?r by blast
  next
    assume ?r
    then show ?l by simp
  qed
  with Cons show ?case by (simp add: count_list_0_iff)
qed simp

lemma scan_duplicates_empty_iff: "scan_duplicates ss {} {} = {} \<longleftrightarrow> distinct ss"
proof -
  have "scan_duplicates ss {} {} = {} \<longleftrightarrow> (\<forall>s. count_list ss s \<le> 1)"
    by (simp add: scan_duplicates_eq not_less)
  then show ?thesis by (simp only: count_list_le_one)
qed

definition assignment_at :: "int \<Rightarrow> int \<Rightarrow> int \<Rightarrow> nat \<times> SenderId \<Rightarrow> shard_assignment" where
  "assignment_at tb m base = (\<lambda>(r, s). \<lparr>sa_sender_id = s, shard_modulus = m,
     shard_residue = int r, assigned_blocks = shard_blocks tb m (int r),
     sa_target_port = base + int r\<rparr>)"

lemma shard_assignment_for_eq:
  "m \<noteq> 0 \<Longrightarrow> shard_assignment_for tb m base x = Inr (assignment_at tb m base x)"
  by (cases x) (simp add: shard_assignment_for_def assignment_at_def blocks_for_shard_eq)

definition valid_shard_request :: "int \<Rightarrow> SenderId list \<Rightarrow> int \<Rightarrow> bool" where
  "valid_shard_request tb senders base \<longleftrightarrow>
     senders \<noteq> [] \<and> distinct senders \<and> 0 \<le> tb \<and> 0 < base"

lemma derive_shard_assignments_ok:
  assumes "valid_shard_request tb senders base"
  shows "derive_shard_assignments tb senders base =
    Inr (map (assignment_at tb (int (length senders)) base) (List.enumerate 0 senders))"
proof -
  have "scan_duplicates senders {} {} = {}"
    using assms by (simp add: scan_duplicates_empty_iff valid_shard_request_def)
  moreover have "int (length senders) \<noteq> 0"
    using assms by (simp add: valid_shard_request_def)
  then have "traverseE (shard_assignment_for tb (int (length senders)) base)
      (List.enumerate 0 senders)
    = Inr (map (assignment_at tb (int (length senders)) base) (List.enumerate 0 senders))"
    by (intro traverseE_Inr shard_assignment_for_eq)
  ultimately show ?thesis
    using assms by (simp add: derive_shard_assignments_def valid_shard_request_def)
qed

lemma derive_shard_assignments_Inr_iff:
  "derive_shard_assignments tb senders base = Inr sas \<longleftrightarrow>
     valid_shard_request tb senders base
     \<and> sas = map (assignment_at tb (int (length senders)) base) (List.enumerate 0 senders)"
proof (cases "valid_shard_request tb senders base")
  case True
  then show ?thesis by (auto simp: derive_shard_assignments_ok)
next
  case False
  then have "\<exists>e. derive_shard_assignments tb senders base = Inl e"
    by (auto simp: derive_shard_assignments_def valid_shard_request_def Let_def
        scan_duplicates_empty_iff)
  with False show ?thesis by auto
qed

lemma assigned_blocks_enumerate:
  "map (assigned_blocks \<circ> assignment_at tb m base) (List.enumerate 0 senders)
    = map (shard_blocks tb m) [0..int (length senders) - 1]"
proof -
  have "map fst (List.enumerate 0 senders) = [0..<length senders]"
    by (simp add: enumerate_eq_zip)
  moreover have "map int [0..<n] = [0..int n - 1]" for n
    by (induction n) (auto simp: upto_rec2)
  ultimately have "map (int \<circ> fst) (List.enumerate 0 senders) = [0..int (length senders) - 1]"
    by (metis map_map)
  moreover have "assigned_blocks \<circ> assignment_at tb m base = shard_blocks tb m \<circ> (int \<circ> fst)"
    by (auto simp: assignment_at_def fun_eq_iff)
  ultimately show ?thesis by (metis map_map)
qed

lemma sender_ids_enumerate:
  "map (sa_sender_id \<circ> assignment_at tb m base) (List.enumerate k senders) = senders"
proof -
  have "sa_sender_id \<circ> assignment_at tb m base = snd"
    by (auto simp: assignment_at_def fun_eq_iff)
  then show ?thesis by simp
qed

lemma assignment_at_nth:
  "i < length senders \<Longrightarrow>
    map (assignment_at tb m base) (List.enumerate 0 senders) ! i
      = assignment_at tb m base (i, senders ! i)"
  by (simp add: nth_enumerate_eq)

lemma assignments_partition:
  assumes "derive_shard_assignments total_blocks active_senders base_port = Inr assignments"
  shows "mset (concat (map assigned_blocks assignments)) = mset [0..total_blocks - 1]"
proof -
  let ?m = "int (length active_senders)"
  have v: "valid_shard_request total_blocks active_senders base_port"
    and a: "assignments
      = map (assignment_at total_blocks ?m base_port) (List.enumerate 0 active_senders)"
    using assms by (simp_all add: derive_shard_assignments_Inr_iff)
  have "0 < ?m" using v by (simp add: valid_shard_request_def)
  then show ?thesis
    using shards.shards_partition[of ?m total_blocks]
      assigned_blocks_enumerate[of total_blocks ?m base_port active_senders]
    by (simp add: a)
qed

section \<open>Properties\<close>

text \<open>C6: When the planner derives assignments, every block of the file is assigned exactly once:
  the blocks of all the assignments together are the blocks \<open>0 .. total_blocks - 1\<close>, with
  multiplicity.\<close>

theorem derived_shards_partition:
  assumes "derive_shard_assignments total_blocks active_senders base_port = Inr assignments"
  shows "mset (concat (map assigned_blocks assignments)) = mset [0..total_blocks - 1]"
  by (rule assignments_partition[OF assms])

theorem derived_shards_partition_witness:
  "\<exists>assignments. derive_shard_assignments 12 [0, 2] 9000 = Inr assignments
     \<and> mset (concat (map assigned_blocks assignments)) = mset [0..11]"
proof -
  have "valid_shard_request 12 [0, 2] 9000" by (simp add: valid_shard_request_def)
  then obtain sas where sas: "derive_shard_assignments 12 [0, 2] 9000 = Inr sas"
    using derive_shard_assignments_ok by blast
  from derived_shards_partition[OF sas] sas show ?thesis by auto
qed

text \<open>The residue is the position among the live senders, never the sender's own id: sender
  number \<open>i\<close> of the list gets residue \<open>i\<close>, the modulus is the number of live senders, its port
  is the base port plus its residue, and its blocks are those congruent to its residue.\<close>

theorem derived_shards_positional:
  assumes "derive_shard_assignments total_blocks active_senders base_port = Inr assignments"
  shows "map sa_sender_id assignments = active_senders
    \<and> (\<forall>i < length assignments.
          shard_residue (assignments ! i) = int i
        \<and> shard_modulus (assignments ! i) = int (length active_senders)
        \<and> sa_target_port (assignments ! i) = base_port + int i
        \<and> set (assigned_blocks (assignments ! i))
            = {b. 0 \<le> b \<and> b < total_blocks \<and> b mod int (length active_senders) = int i})"
proof -
  let ?m = "int (length active_senders)"
  have v: "valid_shard_request total_blocks active_senders base_port"
    and a: "assignments
      = map (assignment_at total_blocks ?m base_port) (List.enumerate 0 active_senders)"
    using assms by (simp_all add: derive_shard_assignments_Inr_iff)
  have m: "0 < ?m" using v by (simp add: valid_shard_request_def)
  have "map sa_sender_id assignments = active_senders"
    by (simp add: a sender_ids_enumerate)
  moreover have "assignments ! i = assignment_at total_blocks ?m base_port (i, active_senders ! i)"
    if "i < length assignments" for i
    using that by (simp add: a nth_enumerate_eq)
  ultimately show ?thesis
    using shards.shard_mem[OF m] by (simp add: assignment_at_def)
qed

theorem derived_shards_positional_witness:
  "\<exists>assignments. derive_shard_assignments 12 [0, 2] 9000 = Inr assignments
     \<and> map sa_sender_id assignments = [0, 2]
     \<and> shard_residue (assignments ! 1) = 1 \<and> sa_target_port (assignments ! 1) = 9001"
proof -
  have v: "valid_shard_request 12 [0, 2] 9000" by (simp add: valid_shard_request_def)
  then obtain sas where sas: "derive_shard_assignments 12 [0, 2] 9000 = Inr sas"
    using derive_shard_assignments_ok by blast
  note pos = derived_shards_positional[OF sas]
  then have ids: "map sa_sender_id sas = [0, 2]" by blast
  then have "1 < length sas" using map_eq_imp_length_eq[of sa_sender_id sas id "[0, 2]"] by simp
  with pos have "shard_residue (sas ! 1) = int 1" "sa_target_port (sas ! 1) = 9000 + int 1"
    by blast+
  with sas ids show ?thesis by auto
qed

text \<open>\<open>derive_shard_assignments\<close> raises exactly for an empty list of senders, a repeated
  sender (naming every repeated id, sorted), a negative block count or a non-positive base port,
  checked in that order, and returns for every other request.\<close>

theorem derive_shard_assignments_errors:
  "derive_shard_assignments total_blocks active_senders base_port =
    (if active_senders = [] then Inl (ValueError EmptyActiveSenders)
     else if \<not> distinct active_senders
       then Inl (ValueError (DuplicateSenderIds
         (sorted_list_of_set {s. 1 < count_list active_senders s})))
     else if total_blocks < 0 then Inl (ValueError (NegativeTotalBlocks total_blocks))
     else if base_port \<le> 0 then Inl (ValueError (BasePortNotPositive base_port))
     else Inr (map (assignment_at total_blocks (int (length active_senders)) base_port)
            (List.enumerate 0 active_senders)))"
proof (cases "valid_shard_request total_blocks active_senders base_port")
  case True
  then show ?thesis by (auto simp: derive_shard_assignments_ok valid_shard_request_def)
next
  case False
  have "scan_duplicates active_senders {} {} = {s. 1 < count_list active_senders s}"
    by (simp add: scan_duplicates_eq)
  with False scan_duplicates_empty_iff[of active_senders] show ?thesis
    by (auto simp: derive_shard_assignments_def valid_shard_request_def Let_def)
qed

text \<open>C38: With the FEC parameters the configuration accepts, and for a file below \<open>2 ^ 53\<close> bytes,
  the float division gives the exact block count, the ceiling of size over block size.\<close>

theorem block_count_exact:
  assumes "fec_valid fec" "0 \<le> file_size" "file_size < 2 ^ 53"
  shows "\<exists>c. calculate_block_count file_size fec = Inr c
    \<and> (c - 1) * block_size fec < file_size \<and> file_size \<le> c * block_size fec"
  using calculate_block_count_eq[OF assms] ceil_div_spec[OF block_size_pos[OF assms(1)]]
  by blast

theorem block_count_exact_witness:
  "\<exists>c. calculate_block_count 1000000000 \<lparr>fec_k = 200, fec_n = 255, symbol_bytes = 1400\<rparr> = Inr c
    \<and> (c - 1) * 280000 < 1000000000 \<and> 1000000000 \<le> c * 280000"
  using block_count_exact[of "\<lparr>fec_k = 200, fec_n = 255, symbol_bytes = 1400\<rparr>" 1000000000]
  by (simp add: fec_valid_def block_size_def GF256_MAX_SHARES_def MAX_SYMBOL_BYTES_def)

text \<open>C39: Beyond that bound the float division can lose the end of a file, for any FEC parameters: a
  file that is longer than \<open>2 ^ k\<close> blocks by at most one part in \<open>2 ^ 53\<close> is planned as \<open>2 ^ k\<close> blocks
  though it needs more, and its bytes beyond those blocks are in no block plan.\<close>

theorem block_count_float_shortfall:
  assumes "fec_valid fec" "k < 1024" "0 < extra" "extra * 2 ^ 53 \<le> block_size fec * 2 ^ k"
    and "file_size = 2 ^ k * block_size fec + extra"
  shows "calculate_block_count file_size fec = Inr (2 ^ k) \<and> 2 ^ k < ceil_div file_size (block_size fec)
    \<and> (\<exists>plans. compute_block_plans file_size fec = Inr plans \<and> length plans = 2 ^ k
      \<and> (\<forall>x. 2 ^ k * block_size fec \<le> x \<longrightarrow> \<not> (\<exists>p\<in>set plans. start_byte p \<le> x \<and> x < end_byte p)))"
proof -
  let ?B = "block_size fec"
  have B: "0 < ?B" using block_size_pos[OF assms(1)] .
  have count: "calculate_block_count file_size fec = Inr (2 ^ k)"
    using block_count_rounds_down[OF B assms(2-4)] by (simp add: assms(5) calculate_block_count_def)
  have "2 ^ k * ?B < ceil_div file_size ?B * ?B" using ceil_div_spec(2)[OF B, of file_size] assms(3,5) by linarith
  then have "2 ^ k < ceil_div file_size ?B" using B by simp
  moreover have "end_byte (block_plan_at file_size ?B i) \<le> 2 ^ k * ?B" if "i < 2 ^ k" for i
  proof -
    have "(i + 1) * ?B \<le> 2 ^ k * ?B" using that B by (intro mult_right_mono) simp_all
    then show ?thesis by (simp add: block_plan_at_def algebra_simps)
  qed
  ultimately show ?thesis using count by (fastforce simp: compute_block_plans_def)
qed

theorem block_count_float_shortfall_witness:
  "calculate_block_count (2 ^ 35 * 280000 + 1) \<lparr>fec_k = 200, fec_n = 255, symbol_bytes = 1400\<rparr> = Inr (2 ^ 35)
    \<and> 2 ^ 35 < ceil_div (2 ^ 35 * 280000 + 1) 280000"
  using block_count_float_shortfall[of "\<lparr>fec_k = 200, fec_n = 255, symbol_bytes = 1400\<rparr>" 35 1 "2 ^ 35 * 280000 + 1"]
  by (simp add: fec_valid_def block_size_def GF256_MAX_SHARES_def MAX_SYMBOL_BYTES_def)

text \<open>C37: The block plans of a file below \<open>2 ^ 53\<close> bytes tile it: numbered \<open>0, 1, ...\<close> in order, none longer than a
  block, contiguous and non-empty, and every byte of the file is in exactly one of them.\<close>

theorem block_plans_cover_file:
  assumes "fec_valid fec" "0 \<le> file_size" "file_size < 2 ^ 53"
    and "compute_block_plans file_size fec = Inr plans"
  shows "map bp_block_id plans = [0..int (length plans) - 1]
    \<and> tiles 0 plans file_size
    \<and> (\<forall>p\<in>set plans. end_byte p - start_byte p \<le> block_size fec)
    \<and> (\<forall>x. 0 \<le> x \<longrightarrow> x < file_size \<longrightarrow>
          (\<exists>!i. i < length plans \<and> start_byte (plans ! i) \<le> x \<and> x < end_byte (plans ! i)))"
proof -
  let ?c = "ceil_div file_size (block_size fec)"
  have plans: "plans = map (block_plan_at file_size (block_size fec)) [0..?c - 1]"
    using assms compute_block_plans_eq by simp
  have c: "0 \<le> ?c" using assms block_size_pos by (intro ceil_div_nonneg) auto
  have "map bp_block_id plans = [0..?c - 1]"
    by (simp add: plans block_plan_at_def comp_def)
  moreover have "int (length plans) = ?c" using c by (simp add: plans)
  moreover have "\<forall>p\<in>set plans. end_byte p - start_byte p \<le> block_size fec"
    by (auto simp: plans block_plan_at_def)
  ultimately show ?thesis
    using compute_block_plans_tiles[OF assms] tiles_unique_block by simp
qed

theorem block_plans_cover_file_witness:
  "\<exists>plans. compute_block_plans 401 \<lparr>fec_k = 4, fec_n = 6, symbol_bytes = 10\<rparr> = Inr plans
    \<and> tiles 0 plans 401"
proof -
  let ?fec = "\<lparr>fec_k = 4, fec_n = 6, symbol_bytes = 10\<rparr>"
  have v: "fec_valid ?fec"
    by (simp add: fec_valid_def GF256_MAX_SHARES_def MAX_SYMBOL_BYTES_def)
  obtain plans where p: "compute_block_plans 401 ?fec = Inr plans"
    using compute_block_plans_eq[OF v, of 401] by simp
  from block_plans_cover_file[OF v _ _ p] p show ?thesis by auto
qed

end
