(* ===== verification/Messages.thy ===== *)
theory Messages imports Models "HOL-Library.Countable" begin

text \<open>
  The envelope and its codec: \<open>ipc/message_types.py\<close>, \<open>ipc/codec.py\<close> and the field names of
  \<open>ipc/constants.py\<close>. The message classes are generated from \<open>nexus-proto\<close>, which is not in the
  repository; \<open>docs/SENDER_CONTRACT.md\<close> lists their fields, and an envelope is a protobuf
  \<open>oneof\<close>: a field name with its message, or nothing. What the generated classes and the
  protobuf runtime do beyond that is a parameter: a \<open>protobuf\<close> record says which field values
  the constructors accept, how an envelope is serialized and how bytes are parsed. The documented
  fact used of it is \<open>parses_back\<close>: parsing what was serialized gives the envelope back.
\<close>

section \<open>Messages\<close>

record manifest =
  m_session_id :: SessionId
  m_filepath :: string
  m_file_size :: int
  m_file_hash :: bytes
  m_k :: int
  m_n :: int
  m_block_bytes :: int
  m_total_blocks :: int
  m_sender_id :: int
  m_sender_bps_limit :: int

record assign_session =
  as_manifest :: manifest
  as_total_senders :: int
  as_target_host :: string
  as_target_port :: int
  as_source_path :: string

record sender_hello =
  hello_sender_id :: SenderId
  hello_pid :: int
  hello_proto_hash :: bytes

datatype message =
    SenderHello sender_hello
  | Heartbeat int int
  | SenderProgress SessionId int int int
  | SessionComplete SessionId int
  | LocalCongestion SessionId int int int
  | AssignSession assign_session
  | UpdateRate SessionId int
  | Abort
  | UnlistedMessage

type_synonym envelope = "(string \<times> message) option"

section \<open>Field names\<close>

definition SENDER_HELLO_FIELD_NAME :: string where
  "SENDER_HELLO_FIELD_NAME = ''sender_hello''"
definition HEARTBEAT_FIELD_NAME :: string where
  "HEARTBEAT_FIELD_NAME = ''heartbeat''"
definition SENDER_PROGRESS_FIELD_NAME :: string where
  "SENDER_PROGRESS_FIELD_NAME = ''sender_progress''"
definition SESSION_COMPLETE_FIELD_NAME :: string where
  "SESSION_COMPLETE_FIELD_NAME = ''session_complete''"
definition LOCAL_CONGESTION_FIELD_NAME :: string where
  "LOCAL_CONGESTION_FIELD_NAME = ''local_congestion''"
definition ASSIGN_SESSION_FIELD_NAME :: string where
  "ASSIGN_SESSION_FIELD_NAME = ''assign_session''"
definition UPDATE_RATE_FIELD_NAME :: string where
  "UPDATE_RATE_FIELD_NAME = ''update_rate''"
definition ABORT_FIELD_NAME :: string where
  "ABORT_FIELD_NAME = ''abort''"

lemmas field_name_defs = SENDER_HELLO_FIELD_NAME_def HEARTBEAT_FIELD_NAME_def
  SENDER_PROGRESS_FIELD_NAME_def SESSION_COMPLETE_FIELD_NAME_def LOCAL_CONGESTION_FIELD_NAME_def
  ASSIGN_SESSION_FIELD_NAME_def UPDATE_RATE_FIELD_NAME_def ABORT_FIELD_NAME_def

text \<open>The dictionary from the message's type to its field; no entry for any other class.\<close>

fun field_name_by_message_type :: "message \<Rightarrow> string option" where
  "field_name_by_message_type (SenderHello h) = Some SENDER_HELLO_FIELD_NAME"
| "field_name_by_message_type (Heartbeat p t) = Some HEARTBEAT_FIELD_NAME"
| "field_name_by_message_type (SenderProgress s a b c) = Some SENDER_PROGRESS_FIELD_NAME"
| "field_name_by_message_type (SessionComplete s p) = Some SESSION_COMPLETE_FIELD_NAME"
| "field_name_by_message_type (LocalCongestion s a b c) = Some LOCAL_CONGESTION_FIELD_NAME"
| "field_name_by_message_type (AssignSession a) = Some ASSIGN_SESSION_FIELD_NAME"
| "field_name_by_message_type (UpdateRate s r) = Some UPDATE_RATE_FIELD_NAME"
| "field_name_by_message_type Abort = Some ABORT_FIELD_NAME"
| "field_name_by_message_type UnlistedMessage = None"

section \<open>The protobuf runtime, a parameter\<close>

record protobuf =
  pb_accepts_manifest :: "manifest \<Rightarrow> bool"
  pb_accepts_assign_session :: "assign_session \<Rightarrow> bool"
  pb_serialize :: "envelope \<Rightarrow> bytes"
  pb_parse :: "bytes \<Rightarrow> envelope result"

definition parses_back :: "protobuf \<Rightarrow> bool" where
  "parses_back pb \<longleftrightarrow> (\<forall>env. pb_parse pb (pb_serialize pb env) = Inr env)"

text \<open>
  The second documented fact: a constructor accepts a message all of whose fields are values of
  their types. A protobuf string holds any Unicode text (so any ASCII text), a \<open>uint32\<close> any
  integer from 0 below \<open>2 ^ 32\<close>. The types of the integer fields of \<open>Manifest\<close> are not in the
  repository, so their width is a variable: whatever their types, they hold the integers from 0
  below some \<open>2 ^ width\<close>, where no protobuf type has fewer than 31 bits for them. Outside of these
  values a constructor may raise, and nothing is assumed of it.
\<close>

definition ascii_text :: "string \<Rightarrow> bool" where
  "ascii_text s \<longleftrightarrow> (\<forall>c\<in>set s. of_char c < (128 :: nat))"

definition fits :: "nat \<Rightarrow> int \<Rightarrow> bool" where
  "fits width x \<longleftrightarrow> 0 \<le> x \<and> x < 2 ^ width"

definition manifest_fits :: "nat \<Rightarrow> manifest \<Rightarrow> bool" where
  "manifest_fits width m \<longleftrightarrow> ascii_text (m_session_id m) \<and> ascii_text (m_filepath m)
     \<and> (\<forall>x\<in>{m_file_size m, m_k m, m_n m, m_block_bytes m, m_total_blocks m, m_sender_id m,
          m_sender_bps_limit m}. fits width x)"

definition assign_session_fits :: "nat \<Rightarrow> assign_session \<Rightarrow> bool" where
  "assign_session_fits width a \<longleftrightarrow> manifest_fits width (as_manifest a)
     \<and> fits 32 (as_total_senders a) \<and> fits 32 (as_target_port a)
     \<and> ascii_text (as_target_host a) \<and> ascii_text (as_source_path a)"

definition accepts_fitting :: "nat \<Rightarrow> protobuf \<Rightarrow> bool" where
  "accepts_fitting width pb \<longleftrightarrow> 31 \<le> width
     \<and> (\<forall>m. manifest_fits width m \<longrightarrow> pb_accepts_manifest pb m)
     \<and> (\<forall>a. assign_session_fits width a \<longrightarrow> pb_accepts_assign_session pb a)"

lemma ascii_text_append [simp]: "ascii_text (xs @ ys) \<longleftrightarrow> ascii_text xs \<and> ascii_text ys"
  by (auto simp: ascii_text_def)

lemma ascii_text_subset: "set xs \<subseteq> set ys \<Longrightarrow> ascii_text ys \<Longrightarrow> ascii_text xs"
  by (auto simp: ascii_text_def)

lemma ascii_text_join:
  assumes "\<forall>p\<in>set ps. ascii_text p"
  shows "ascii_text (join_with CHR ''/'' ps)"
  using assms by (induction "CHR ''/''" ps rule: join_with.induct) (auto simp: ascii_text_def)

lemma set_join_with: "p \<in> set ps \<Longrightarrow> set p \<subseteq> set (join_with c ps)"
  by (induction c ps rule: join_with.induct) auto

lemma ascii_text_tail: "ascii_text (path_str p) \<Longrightarrow> q \<in> set (path_tail p) \<Longrightarrow> ascii_text q"
  by (rule ascii_text_subset[of _ "join_with CHR ''/'' (path_tail p)"])
    (auto simp: path_str_def dest: set_join_with split: if_splits)

lemma ascii_text_relative:
  assumes "relative_to p r = Inr q" "ascii_text (path_str p)"
  shows "ascii_text (path_str q)"
proof -
  have "\<forall>x\<in>set (path_tail q). ascii_text x"
    using assms(1) ascii_text_tail[OF assms(2)] by (auto simp: relative_to_def split: if_splits) (metis in_set_dropD)
  moreover have "path_root q = []" using assms(1) by (auto simp: relative_to_def split: if_splits)
  ultimately show ?thesis using ascii_text_join by (auto simp: path_str_def ascii_text_def)
qed

section \<open>The codec\<close>

definition encode :: "protobuf \<Rightarrow> message \<Rightarrow> bytes result" where
  "encode pb payload =
     (case field_name_by_message_type payload of
        None \<Rightarrow> Inl KeyError
      | Some field_name \<Rightarrow> Inr (pb_serialize pb (Some (field_name, payload))))"

definition decode :: "protobuf \<Rightarrow> bytes \<Rightarrow> (string \<times> message) result" where
  "decode pb raw =
     bindE (pb_parse pb raw) (\<lambda>envelope.
       case envelope of
         None \<Rightarrow> Inl (ValueError EnvelopeEmpty)
       | Some (field_name, payload) \<Rightarrow> Inr (field_name, payload))"

lemma decode_eq: "pb_parse pb raw = Inr (Some (f, m)) \<Longrightarrow> decode pb raw = Inr (f, m)"
  by (simp add: decode_def)

lemma decode_serialize:
  "parses_back pb \<Longrightarrow> decode pb (pb_serialize pb (Some (f, m))) = Inr (f, m)"
  by (simp add: decode_def parses_back_def)

section \<open>A runtime that parses back\<close>

text \<open>
  Messages are countable, so a serialization exists: the number of the envelope in unary, with a
  short form for the two messages of the examples. It serves the witnesses, which need a runtime
  that satisfies \<open>parses_back\<close>.
\<close>

instance manifest_ext :: (countable) countable
proof
  let ?f = "\<lambda>m::'a manifest_ext. to_nat (m_session_id m, m_filepath m, m_file_size m,
    m_file_hash m, m_k m, m_n m, m_block_bytes m, m_total_blocks m, m_sender_id m,
    m_sender_bps_limit m, manifest.more m)"
  have "inj ?f" by (rule injI) (simp add: manifest.equality)
  then show "\<exists>f::'a manifest_ext \<Rightarrow> nat. inj f" by blast
qed

instance assign_session_ext :: (countable) countable
proof
  let ?f = "\<lambda>a::'a assign_session_ext. to_nat (as_manifest a, as_total_senders a,
    as_target_host a, as_target_port a, as_source_path a, assign_session.more a)"
  have "inj ?f" by (rule injI) (simp add: assign_session.equality)
  then show "\<exists>f::'a assign_session_ext \<Rightarrow> nat. inj f" by blast
qed

instance sender_hello_ext :: (countable) countable
proof
  let ?f = "\<lambda>h::'a sender_hello_ext. to_nat (hello_sender_id h, hello_pid h,
    hello_proto_hash h, sender_hello.more h)"
  have "inj ?f" by (rule injI) (simp add: sender_hello.equality)
  then show "\<exists>f::'a sender_hello_ext \<Rightarrow> nat. inj f" by blast
qed

instance message :: countable
  by countable_datatype

definition example_hello :: sender_hello where
  "example_hello = \<lparr>hello_sender_id = 7, hello_pid = 1, hello_proto_hash = [1]\<rparr>"

abbreviation hello_envelope :: envelope where
  "hello_envelope \<equiv> Some (SENDER_HELLO_FIELD_NAME, SenderHello example_hello)"

definition unary_protobuf :: protobuf where
  "unary_protobuf = \<lparr>pb_accepts_manifest = (\<lambda>_. True), pb_accepts_assign_session = (\<lambda>_. True),
     pb_serialize = (\<lambda>env. if env = None then [2] else if env = hello_envelope then [1]
       else replicate (Suc (to_nat env)) 0),
     pb_parse = (\<lambda>raw. case raw of [] \<Rightarrow> Inr None
       | b # bs \<Rightarrow> Inr (if b = 2 then None else if b = 1 then hello_envelope else from_nat (length bs)))\<rparr>"

lemma unary_parses_back: "parses_back unary_protobuf"
  by (simp add: parses_back_def unary_protobuf_def)

lemma unary_serialize [simp]:
  "pb_serialize unary_protobuf None = [2]" "pb_serialize unary_protobuf hello_envelope = [1]"
  by (simp_all add: unary_protobuf_def)

section \<open>Properties\<close>

text \<open>Encoding then decoding gives the message back under its field name, and messages of a
  class with no field in the table are refused with a KeyError before anything is serialized.\<close>

theorem encode_decode_roundtrip:
  assumes "parses_back pb"
  shows "(case encode pb payload of
      Inr raw \<Rightarrow> \<exists>f. field_name_by_message_type payload = Some f \<and> decode pb raw = Inr (f, payload)
    | Inl e \<Rightarrow> e = KeyError \<and> payload = UnlistedMessage)"
proof (cases "field_name_by_message_type payload")
  case None
  then have "payload = UnlistedMessage" by (cases payload) auto
  with None show ?thesis by (simp add: encode_def)
next
  case (Some f)
  then show ?thesis by (simp add: encode_def decode_serialize[OF assms])
qed

theorem encode_decode_roundtrip_witness:
  "(case encode unary_protobuf (Heartbeat 42 7) of
      Inr raw \<Rightarrow> \<exists>f. field_name_by_message_type (Heartbeat 42 7) = Some f
        \<and> decode unary_protobuf raw = Inr (f, Heartbeat 42 7)
    | Inl e \<Rightarrow> e = KeyError \<and> Heartbeat 42 7 = UnlistedMessage)"
  by (rule encode_decode_roundtrip[OF unary_parses_back])

end
