(* ===== verification/Planner.thy ===== *)
theory Planner imports PyBytes Planning Messages begin

text \<open>
  \<open>services/planner.py\<close>: session ids, manifests and assignments. \<open>apply_shard\<close> sets a field of
  the manifest it is given, so it returns the manifest. The protobuf constructors (and the field
  assignment) raise a ValueError for values the runtime does not accept. The random bytes of
  \<open>secrets.token_hex\<close> are an argument. \<open>derive_blocks\<close> is the receiving side: what a sender
  computes from an assignment, as the stub sender of the integration tests does.
\<close>

section \<open>Definitions\<close>

definition generate_session_id :: "(nat \<Rightarrow> bytes) \<Rightarrow> SessionId" where
  "generate_session_id token_bytes = bytes_hex (token_bytes SESSION_ID_RANDOM_BYTES)"

definition apply_shard :: "protobuf \<Rightarrow> manifest \<Rightarrow> int \<Rightarrow> int \<Rightarrow> manifest result" where
  "apply_shard pb m sender_index modulus =
     (if modulus < 1 then Inl (ValueError (ShardModulusTooSmall modulus))
      else if \<not> (0 \<le> sender_index \<and> sender_index < modulus)
        then Inl (ValueError (SenderIndexOutOfRange modulus sender_index))
      else let m' = m\<lparr>m_sender_id := sender_index\<rparr> in
        if pb_accepts_manifest pb m' then Inr m' else Inl (ValueError LibraryValueError))"

definition new_manifest :: "protobuf \<Rightarrow> manifest \<Rightarrow> manifest result" where
  "new_manifest pb m =
     (if pb_accepts_manifest pb m then Inr m else Inl (ValueError LibraryValueError))"

definition file_hash_bytes :: "source_file \<Rightarrow> bytes result" where
  "file_hash_bytes sf =
     (if length (file_hash sf) \<noteq> FILE_HASH_HEX_LENGTH
      then Inl (ValueError (FileHashLength (length (file_hash sf))))
      else case fromhex (file_hash sf) of
        Inl _ \<Rightarrow> Inl (ValueError (FileHashNotHex (file_hash sf)))
      | Inr bs \<Rightarrow> Inr bs)"

definition relative_path :: "source_file \<Rightarrow> path \<Rightarrow> path result" where
  "relative_path sf watch_root =
     (case relative_to (sf_path sf) watch_root of
        Inl _ \<Rightarrow> Inl (ValueError PathNotUnderWatchRoot)
      | Inr rel \<Rightarrow>
          if ''..'' \<in> set (path_parts rel) then Inl (ValueError PathEscapesWatchRoot)
          else Inr rel)"

definition build_manifest ::
  "protobuf \<Rightarrow> source_file \<Rightarrow> fec_params \<Rightarrow> SessionId \<Rightarrow> int \<Rightarrow> int \<Rightarrow> path \<Rightarrow> int \<Rightarrow> manifest result"
where
  "build_manifest pb sf fec session_id sender_index modulus watch_root bps_limit =
     (if size_bytes sf < 0 then Inl (ValueError (NegativeSizeBytes (size_bytes sf)))
      else bindE (file_hash_bytes sf) (\<lambda>hash.
        bindE (relative_path sf watch_root) (\<lambda>rel.
          bindE (calculate_block_count (size_bytes sf) fec) (\<lambda>blocks.
            bindE (new_manifest pb
                \<lparr>m_session_id = session_id, m_filepath = path_str rel,
                 m_file_size = size_bytes sf, m_file_hash = hash,
                 m_k = fec_k fec, m_n = fec_n fec, m_block_bytes = symbol_bytes fec,
                 m_total_blocks = blocks, m_sender_id = 0, m_sender_bps_limit = bps_limit\<rparr>)
              (\<lambda>m. apply_shard pb m sender_index modulus)))))"

definition build_assign_session ::
  "protobuf \<Rightarrow> manifest \<Rightarrow> int \<Rightarrow> string \<Rightarrow> int \<Rightarrow> string \<Rightarrow> assign_session result"
where
  "build_assign_session pb m modulus target_host target_port source_path =
     (let a = \<lparr>as_manifest = m, as_total_senders = modulus, as_target_host = target_host,
               as_target_port = target_port, as_source_path = source_path\<rparr> in
      if pb_accepts_assign_session pb a then Inr a else Inl (ValueError LibraryValueError))"

text \<open>The receiving side.\<close>

definition derive_blocks :: "assign_session \<Rightarrow> BlockId list result" where
  "derive_blocks a =
     (if as_total_senders a = 0 \<and> 0 < m_total_blocks (as_manifest a) then Inl ZeroDivisionError
      else Inr (filter (\<lambda>b. b mod as_total_senders a = m_sender_id (as_manifest a))
             [0..m_total_blocks (as_manifest a) - 1]))"

section \<open>What an accepted manifest holds\<close>

lemma apply_shard_Inr_iff:
  "apply_shard pb m i n = Inr m' \<longleftrightarrow>
     0 \<le> i \<and> i < n \<and> m' = m\<lparr>m_sender_id := i\<rparr> \<and> pb_accepts_manifest pb m'"
  by (auto simp: apply_shard_def Let_def)

lemma new_manifest_Inr_iff: "new_manifest pb m = Inr m' \<longleftrightarrow> m' = m \<and> pb_accepts_manifest pb m"
  by (auto simp: new_manifest_def)

lemma file_hash_bytes_Inr_iff:
  "file_hash_bytes sf = Inr bs \<longleftrightarrow> length (file_hash sf) = 64 \<and> fromhex (file_hash sf) = Inr bs"
  by (auto simp: file_hash_bytes_def FILE_HASH_HEX_LENGTH_def split: sum.splits)

lemma relative_path_Inr_iff:
  "relative_path sf wroot = Inr rel \<longleftrightarrow>
     relative_to (sf_path sf) wroot = Inr rel \<and> ''..'' \<notin> set (path_parts rel)"
  by (auto simp: relative_path_def split: sum.splits)

lemma build_manifest_Inr_iff:
  "build_manifest pb sf fec sid i n wroot bps = Inr m \<longleftrightarrow>
     0 \<le> size_bytes sf \<and> 0 \<le> i \<and> i < n \<and> length (file_hash sf) = 64
     \<and> (\<exists>hash rel blocks. fromhex (file_hash sf) = Inr hash
          \<and> relative_to (sf_path sf) wroot = Inr rel \<and> ''..'' \<notin> set (path_parts rel)
          \<and> calculate_block_count (size_bytes sf) fec = Inr blocks
          \<and> m = \<lparr>m_session_id = sid, m_filepath = path_str rel, m_file_size = size_bytes sf,
                 m_file_hash = hash, m_k = fec_k fec, m_n = fec_n fec,
                 m_block_bytes = symbol_bytes fec, m_total_blocks = blocks, m_sender_id = i,
                 m_sender_bps_limit = bps\<rparr>
          \<and> pb_accepts_manifest pb (m\<lparr>m_sender_id := 0\<rparr>) \<and> pb_accepts_manifest pb m)"
  by (auto simp: build_manifest_def res_simps file_hash_bytes_Inr_iff relative_path_Inr_iff
      new_manifest_Inr_iff apply_shard_Inr_iff)

lemma build_assign_session_Inr_iff:
  "build_assign_session pb m n host port src = Inr a \<longleftrightarrow>
     a = \<lparr>as_manifest = m, as_total_senders = n, as_target_host = host, as_target_port = port,
          as_source_path = src\<rparr> \<and> pb_accepts_assign_session pb a"
  by (auto simp: build_assign_session_def Let_def)

lemma derive_blocks_assigned:
  assumes "calculate_block_count (size_bytes sf) fec = Inr tb"
    and as: "derive_shard_assignments tb active base = Inr as" "a \<in> set as"
    and m: "build_manifest pb sf fec sid (shard_residue a) (shard_modulus a) wroot bps = Inr m"
      "build_assign_session pb m (shard_modulus a) host port src = Inr msg"
  shows "derive_blocks msg = Inr (assigned_blocks a)"
proof -
  obtain i s where a: "a = assignment_at tb (int (length active)) base (i, s)"
    using as by (auto simp: derive_shard_assignments_Inr_iff)
  have "active \<noteq> []"
    using as by (simp add: derive_shard_assignments_Inr_iff valid_shard_request_def)
  with assms show ?thesis
    by (auto simp: build_manifest_Inr_iff build_assign_session_Inr_iff derive_blocks_def a
        assignment_at_def shard_blocks_def)
qed

section \<open>Properties\<close>

definition example_source :: source_file where
  "example_source = \<lparr>sf_path = Path ''/watch/sub/example.bin'', size_bytes = 10,
     file_hash = bytes_hex (replicate 32 171)\<rparr>"

definition example_fec :: fec_params where
  "example_fec = \<lparr>fec_k = 1, fec_n = 2, symbol_bytes = 1\<rparr>"

lemma example_relative:
  "relative_to (sf_path example_source) (Path ''/watch'')
    = Inr \<lparr>path_root = [], path_tail = [''sub'', ''example.bin'']\<rparr>"
  by code_simp

lemma example_manifest:
  "\<exists>m. build_manifest unary_protobuf example_source example_fec ''0123456789abcdef'' 1 3
      (Path ''/watch'') 0 = Inr m"
proof -
  have "fec_valid example_fec"
    by (simp add: example_fec_def fec_valid_def GF256_MAX_SHARES_def MAX_SYMBOL_BYTES_def)
  then have "\<exists>c. calculate_block_count (size_bytes example_source) example_fec = Inr c"
    using calculate_block_count_eq by (simp add: example_source_def)
  moreover have "fromhex (file_hash example_source) = Inr (replicate 32 171)"
    "length (file_hash example_source) = 64"
    unfolding example_source_def source_file.simps by (simp_all only: fromhex_bytes_hex, simp)
  moreover have "0 \<le> size_bytes example_source" by (simp add: example_source_def)
  ultimately show ?thesis
    by (auto simp: build_manifest_Inr_iff example_relative unary_protobuf_def path_parts_def)
qed

text \<open>C31: The path on the wire is safe for the receiver to join to its own directory: it is
  relative, it has no \<open>..\<close> component, whatever directory it is joined to the result is under that
  directory, and joined to the watch root it is the file that was watched.\<close>

theorem manifest_path_safe:
  assumes "build_manifest pb sf fec session_id sender_index modulus watch_root bps = Inr m"
    and "path_wf (sf_path sf)"
  shows "\<not> is_absolute (Path (m_filepath m))
    \<and> ''..'' \<notin> set (path_parts (Path (m_filepath m)))
    \<and> (\<forall>out. \<exists>rel. relative_to (joinpath out (Path (m_filepath m))) out = Inr rel)
    \<and> joinpath watch_root (Path (m_filepath m)) = sf_path sf"
proof -
  obtain rel where rel: "relative_to (sf_path sf) watch_root = Inr rel"
    "''..'' \<notin> set (path_parts rel)" "m_filepath m = path_str rel"
    using assms(1) by (auto simp: build_manifest_Inr_iff)
  have "Path (m_filepath m) = rel"
    using Path_path_str path_wf_relative_to[OF rel(1) assms(2)] by (simp add: rel(3))
  then show ?thesis
    using rel relative_to_is_relative[OF rel(1)] joinpath_relative_to[OF rel(1)]
      relative_to_joinpath[of rel] by auto
qed

theorem manifest_path_safe_witness:
  "\<exists>m. build_manifest unary_protobuf example_source example_fec ''0123456789abcdef'' 1 3
      (Path ''/watch'') 0 = Inr m
    \<and> joinpath (Path ''/watch'') (Path (m_filepath m)) = Path ''/watch/sub/example.bin''"
proof -
  obtain m where m: "build_manifest unary_protobuf example_source example_fec ''0123456789abcdef''
      1 3 (Path ''/watch'') 0 = Inr m"
    using example_manifest by blast
  have "path_wf (sf_path example_source)" by (simp add: example_source_def)
  from manifest_path_safe[OF m this] m show ?thesis by (auto simp: example_source_def)
qed

text \<open>C40: The hash on the wire is the hasher's digest: for the hexadecimal text of a digest the
  manifest carries that digest, and only a 32-byte digest is accepted.\<close>

theorem manifest_carries_digest:
  assumes "build_manifest pb sf fec session_id sender_index modulus watch_root bps = Inr m"
    and "file_hash sf = bytes_hex digest"
  shows "m_file_hash m = digest \<and> length digest = 32"
  using assms by (auto simp: build_manifest_Inr_iff)

theorem manifest_carries_digest_witness:
  "\<exists>m. build_manifest unary_protobuf example_source example_fec ''0123456789abcdef'' 1 3
      (Path ''/watch'') 0 = Inr m \<and> m_file_hash m = replicate 32 171"
proof -
  obtain m where m: "build_manifest unary_protobuf example_source example_fec ''0123456789abcdef''
      1 3 (Path ''/watch'') 0 = Inr m"
    using example_manifest by blast
  have "file_hash example_source = bytes_hex (replicate 32 171)"
    by (simp only: example_source_def source_file.simps)
  from manifest_carries_digest[OF m this] m show ?thesis by blast
qed

text \<open>The check of the hash text counts characters, not digits: 64 characters of which two are
  blanks pass it, and the manifest then carries a digest of 31 bytes.\<close>

theorem manifest_hash_check_counts_whitespace:
  "\<exists>m. build_manifest unary_protobuf
      (example_source\<lparr>file_hash := ''  '' @ bytes_hex (replicate 31 171)\<rparr>) example_fec
      ''0123456789abcdef'' 1 3 (Path ''/watch'') 0 = Inr m \<and> length (m_file_hash m) = 31"
proof -
  let ?hash = "''  '' @ bytes_hex (replicate 31 171)"
  have "fromhex ?hash = fromhex (bytes_hex (replicate 31 171))"
    by (subst (1 2) fromhex.simps) (simp add: is_space_def)
  then have "fromhex ?hash = Inr (replicate 31 171)" by (simp only: fromhex_bytes_hex)
  moreover have "length ?hash = 64" by simp
  moreover obtain c where "calculate_block_count 10 example_fec = Inr c"
    using calculate_block_count_eq[of example_fec 10]
    by (auto simp: example_fec_def fec_valid_def GF256_MAX_SHARES_def MAX_SYMBOL_BYTES_def)
  moreover have "relative_to (sf_path (example_source\<lparr>file_hash := ?hash\<rparr>)) (Path ''/watch'')
    = Inr \<lparr>path_root = [], path_tail = [''sub'', ''example.bin'']\<rparr>"
    using example_relative by (simp add: example_source_def)
  ultimately show ?thesis
    by (simp add: build_manifest_Inr_iff unary_protobuf_def path_parts_def
        example_source_def del: append_Cons append_Nil)
qed

text \<open>C16: A sender that follows the contract, taking the modulus from the assignment and the residue
  from the manifest, transmits exactly the blocks the planner assigned to it.\<close>

theorem sender_transmits_assigned_blocks:
  assumes "calculate_block_count (size_bytes sf) fec = Inr total_blocks"
    and "derive_shard_assignments total_blocks active_senders base_port = Inr assignments"
    and "a \<in> set assignments"
    and "build_manifest pb sf fec session_id (shard_residue a) (shard_modulus a) watch_root bps
      = Inr m"
    and "build_assign_session pb m (shard_modulus a) target_host (sa_target_port a) source_path
      = Inr msg"
  shows "derive_blocks msg = Inr (assigned_blocks a)"
  by (rule derive_blocks_assigned[OF assms])

theorem sender_transmits_assigned_blocks_witness:
  "\<exists>a m msg. derive_shard_assignments 10 [0, 5, 9] 9000 = Inr a \<and>
    build_manifest unary_protobuf example_source example_fec ''0123456789abcdef'' 1 3
      (Path ''/watch'') 0 = Inr m
    \<and> build_assign_session unary_protobuf m 3 ''127.0.0.1'' 9001 ''/watch/sub/example.bin'' = Inr msg
    \<and> derive_blocks msg = Inr (assigned_blocks (a ! 1))"
proof -
  obtain m where m: "build_manifest unary_protobuf example_source example_fec ''0123456789abcdef''
      1 3 (Path ''/watch'') 0 = Inr m"
    using example_manifest by blast
  obtain msg where msg: "build_assign_session unary_protobuf m 3 ''127.0.0.1'' 9001
      ''/watch/sub/example.bin'' = Inr msg"
    by (simp add: build_assign_session_def unary_protobuf_def)
  have count: "calculate_block_count (size_bytes example_source) example_fec = Inr 10"
    using calculate_block_count_eq[of example_fec 10]
    by (simp add: example_fec_def example_source_def fec_valid_def GF256_MAX_SHARES_def
        MAX_SYMBOL_BYTES_def block_size_def ceil_div_def)
  let ?sas = "map (assignment_at 10 3 9000) (List.enumerate 0 [0, 5, 9])"
  have sas: "derive_shard_assignments 10 [0, 5, 9] 9000 = Inr ?sas"
    using derive_shard_assignments_ok[of 10 "[0, 5, 9]" 9000]
    by (simp add: valid_shard_request_def)
  have a1: "?sas ! 1 = assignment_at 10 3 9000 (1, 5)" and mem: "?sas ! 1 \<in> set ?sas"
    by simp_all
  have "derive_blocks msg = Inr (assigned_blocks (?sas ! 1))"
    by (rule sender_transmits_assigned_blocks[OF count sas mem])
      (use m msg in \<open>simp_all add: assignment_at_def\<close>)
  with m msg sas show ?thesis by blast
qed

text \<open>A session id is 16 lower-case hexadecimal characters, and different random bytes give
  different ids.\<close>

theorem session_id_format:
  assumes "\<And>n. length (token_bytes n) = n" "\<And>n. length (token_bytes' n) = n"
  shows "length (generate_session_id token_bytes) = 16
    \<and> set (generate_session_id token_bytes) \<subseteq> set ''0123456789abcdef''
    \<and> (generate_session_id token_bytes = generate_session_id token_bytes'
        \<longrightarrow> token_bytes 8 = token_bytes' 8)"
  using set_bytes_hex[of "token_bytes 8"] bytes_hex_inj assms
  by (simp add: generate_session_id_def SESSION_ID_RANDOM_BYTES_def)

theorem session_id_format_witness:
  "length (generate_session_id (\<lambda>n. replicate n 7)) = 16
    \<and> set (generate_session_id (\<lambda>n. replicate n 7)) \<subseteq> set ''0123456789abcdef''
    \<and> generate_session_id (\<lambda>n. replicate n 7) \<noteq> generate_session_id (\<lambda>n. replicate n 9)"
proof -
  have "replicate 8 (7 :: byte) \<noteq> replicate 8 9" by simp
  then show ?thesis
    using session_id_format[of "\<lambda>n. replicate n 7" "\<lambda>n. replicate n 9"] by auto
qed

text \<open>On a file below \<open>2 ^ 53\<close> bytes with valid FEC parameters, the only exception
  \<open>build_manifest\<close> raises is ValueError.\<close>

theorem build_manifest_raises_value_error:
  assumes "fec_valid fec" "size_bytes sf < 2 ^ 53"
    and "build_manifest pb sf fec session_id sender_index modulus watch_root bps = Inl e"
  shows "\<exists>v. e = ValueError v"
proof (cases "0 \<le> size_bytes sf")
  case True
  then obtain c where "calculate_block_count (size_bytes sf) fec = Inr c"
    using calculate_block_count_eq[OF assms(1)] assms(2) by blast
  with assms(3) show ?thesis
    by (auto simp: build_manifest_def file_hash_bytes_def relative_path_def new_manifest_def
        apply_shard_def Let_def res_simps split: if_splits sum.splits)
next
  case False
  with assms(3) show ?thesis by (auto simp: build_manifest_def)
qed

theorem build_manifest_raises_value_error_witness:
  "\<exists>v. build_manifest unary_protobuf (example_source\<lparr>size_bytes := -1\<rparr>) example_fec [] 0 1
      (Path ''/watch'') 0 = Inl (ValueError v)"
proof -
  let ?r = "build_manifest unary_protobuf (example_source\<lparr>size_bytes := -1\<rparr>) example_fec [] 0 1
      (Path ''/watch'') 0"
  have r: "?r = Inl (ValueError (NegativeSizeBytes (-1)))" by (simp add: build_manifest_def)
  have "\<exists>v. ValueError (NegativeSizeBytes (-1)) = ValueError v"
    by (rule build_manifest_raises_value_error[OF _ _ r])
      (simp_all add: example_fec_def fec_valid_def GF256_MAX_SHARES_def MAX_SYMBOL_BYTES_def)
  with r show ?thesis by simp
qed

end
