(* ===== verification/Registry.thy ===== *)
theory Registry imports Models begin

text \<open>
  \<open>services/registry.py\<close>: which senders were heard from within the timeout. Every operation that
  reads the clock takes the reading as its argument. The locale \<open>liveness_table\<close> is what the
  dispatcher and the message handlers rely on; its interpretation \<open>senders\<close> is the registry.
  The last section compares a whole history of operations with its specification, the time of
  the last contact since the last removal.
\<close>

section \<open>State and operations\<close>

record registry =
  timeout_seconds :: pyfloat
  last_seen :: "(SenderId, pyfloat) dict"

definition SenderRegistry :: "pyfloat \<Rightarrow> registry" where
  "SenderRegistry heartbeat_interval_seconds =
     \<lparr>timeout_seconds = py_fmul heartbeat_interval_seconds (of_int MISSED_HEARTBEAT_LIMIT),
      last_seen = []\<rparr>"

definition register :: "pyfloat \<Rightarrow> SenderId \<Rightarrow> registry \<Rightarrow> registry" where
  "register now s r = r\<lparr>last_seen := dict_set s now (last_seen r)\<rparr>"

definition refresh :: "pyfloat \<Rightarrow> SenderId \<Rightarrow> registry \<Rightarrow> registry" where
  "refresh now s r = register now s r"

definition remove :: "SenderId \<Rightarrow> registry \<Rightarrow> registry" where
  "remove s r = r\<lparr>last_seen := dict_pop s (last_seen r)\<rparr>"

definition expired_at :: "pyfloat \<Rightarrow> registry \<Rightarrow> SenderId list" where
  "expired_at now r =
     map fst (filter (\<lambda>(s, seen). timeout_seconds r \<le> py_fsub now seen) (last_seen r))"

definition purge_expired :: "pyfloat \<Rightarrow> registry \<Rightarrow> registry" where
  "purge_expired now r = r\<lparr>last_seen := fold dict_pop (expired_at now r) (last_seen r)\<rparr>"

definition active_senders :: "pyfloat \<Rightarrow> registry \<Rightarrow> SenderId list \<times> registry" where
  "active_senders now r =
     (let r' = purge_expired now r in (sort (dict_keys (last_seen r')), r'))"

definition registry_wf :: "registry \<Rightarrow> bool" where
  "registry_wf r \<longleftrightarrow> dict_wf (last_seen r)"

abbreviation seen_at :: "registry \<Rightarrow> SenderId \<Rightarrow> pyfloat option" where
  "seen_at r \<equiv> dict_get (last_seen r)"

section \<open>The interface\<close>

locale liveness_table =
  fixes contact :: "pyfloat \<Rightarrow> SenderId \<Rightarrow> 'r \<Rightarrow> 'r"
    and forget :: "SenderId \<Rightarrow> 'r \<Rightarrow> 'r"
    and live :: "pyfloat \<Rightarrow> 'r \<Rightarrow> SenderId list \<times> 'r"
    and seen :: "'r \<Rightarrow> SenderId \<Rightarrow> pyfloat option"
    and fresh :: "'r \<Rightarrow> pyfloat \<Rightarrow> pyfloat \<Rightarrow> bool"
    and invar :: "'r \<Rightarrow> bool"
  assumes seen_contact: "invar r \<Longrightarrow> seen (contact now s r) = (seen r)(s \<mapsto> now)"
    and seen_forget: "invar r \<Longrightarrow> seen (forget s r) = (seen r)(s := None)"
    and seen_live: "invar r \<Longrightarrow> seen (snd (live now r)) s =
          (case seen r s of None \<Rightarrow> None | Some t \<Rightarrow> if fresh r now t then Some t else None)"
    and live_list: "invar r \<Longrightarrow> fst (live now r) =
          sorted_list_of_set {s. \<exists>t. seen r s = Some t \<and> fresh r now t}"
    and seen_finite: "invar r \<Longrightarrow> finite (dom (seen r))"
    and fresh_contact: "fresh (contact now s r) = fresh r"
    and fresh_forget: "fresh (forget s r) = fresh r"
    and fresh_live: "fresh (snd (live now r)) = fresh r"
    and fresh_earlier: "t \<le> t' \<Longrightarrow> now' \<le> now \<Longrightarrow> fresh r now t \<Longrightarrow> fresh r now' t'"
    and invar_contact: "invar r \<Longrightarrow> invar (contact now s r)"
    and invar_forget: "invar r \<Longrightarrow> invar (forget s r)"
    and invar_live: "invar r \<Longrightarrow> invar (snd (live now r))"
begin

lemma live_finite: "invar r \<Longrightarrow> finite {s. \<exists>t. seen r s = Some t \<and> fresh r now t}"
  by (rule finite_subset[OF _ seen_finite[of r]]) auto

lemma live_set: "invar r \<Longrightarrow> set (fst (live now r)) = {s. \<exists>t. seen r s = Some t \<and> fresh r now t}"
  by (simp add: live_list live_finite)

lemma live_sorted: "invar r \<Longrightarrow> sorted (fst (live now r))"
  by (simp add: live_list)

lemma live_distinct: "invar r \<Longrightarrow> distinct (fst (live now r))"
  by (simp add: live_list)

lemma forgotten_not_live: "invar r \<Longrightarrow> s \<notin> set (fst (live now (forget s r)))"
  by (simp add: live_set invar_forget seen_forget)

lemma forget_keeps_others:
  "invar r \<Longrightarrow> s' \<noteq> s \<Longrightarrow> s' \<in> set (fst (live now (forget s r))) \<longleftrightarrow> s' \<in> set (fst (live now r))"
  by (simp add: live_set invar_forget seen_forget fresh_forget)

lemma contact_keeps_others:
  "invar r \<Longrightarrow> s' \<noteq> s \<Longrightarrow>
    s' \<in> set (fst (live now (contact t s r))) \<longleftrightarrow> s' \<in> set (fst (live now r))"
  by (simp add: live_set invar_contact seen_contact fresh_contact)

lemma contacted_live_iff: "invar r \<Longrightarrow> s \<in> set (fst (live now (contact t s r))) \<longleftrightarrow> fresh r now t"
  by (simp add: live_set invar_contact seen_contact fresh_contact)

text \<open>Reading the list twice gives the same list: the purge has nothing more to do.\<close>

lemma live_idempotent: "invar r \<Longrightarrow> fst (live now (snd (live now r))) = fst (live now r)"
proof -
  assume r: "invar r"
  have "{s. \<exists>t. seen (snd (live now r)) s = Some t \<and> fresh (snd (live now r)) now t}
      = {s. \<exists>t. seen r s = Some t \<and> fresh r now t}"
    by (auto simp: seen_live[OF r] fresh_live split: option.splits if_splits)
  then show ?thesis by (simp add: live_list r invar_live)
qed

text \<open>A purge at an earlier time never hides a sender that is still fresh later.\<close>

lemma purge_transparent:
  assumes r: "invar r" and "now \<le> later"
  shows "fst (live later (snd (live now r))) = fst (live later r)"
proof -
  have "{s. \<exists>t. seen (snd (live now r)) s = Some t \<and> fresh (snd (live now r)) later t}
      = {s. \<exists>t. seen r s = Some t \<and> fresh r later t}"
    using assms(2)
    by (auto simp: seen_live[OF r] fresh_live split: option.splits if_splits
        dest: fresh_earlier[OF order_refl])
  then show ?thesis by (simp add: live_list r invar_live)
qed

end

section \<open>The registry provides the interface\<close>

definition fresh_in :: "registry \<Rightarrow> pyfloat \<Rightarrow> pyfloat \<Rightarrow> bool" where
  "fresh_in r now seen \<longleftrightarrow> py_fsub now seen < timeout_seconds r"

lemma registry_wf_init [simp, intro]: "registry_wf (SenderRegistry i)"
  by (simp add: registry_wf_def SenderRegistry_def)

lemma fold_dict_pop_get:
  "dict_get (fold dict_pop ks d) = (\<lambda>s. if s \<in> set ks then None else dict_get d s)"
  by (induction ks arbitrary: d) (auto simp: fun_eq_iff)

lemma fold_dict_pop_wf: "dict_wf d \<Longrightarrow> dict_wf (fold dict_pop ks d)"
  by (induction ks arbitrary: d) (auto simp: dict.wf_pop)

lemma expired_at_iff:
  "registry_wf r \<Longrightarrow>
    s \<in> set (expired_at now r) \<longleftrightarrow> (\<exists>t. seen_at r s = Some t \<and> \<not> fresh_in r now t)"
  by (force simp: expired_at_def fresh_in_def registry_wf_def not_less
      intro: map_of_is_SomeI dest: map_of_SomeD)

lemma seen_purge_expired:
  "registry_wf r \<Longrightarrow> seen_at (purge_expired now r) s =
     (case seen_at r s of None \<Rightarrow> None | Some t \<Rightarrow> if fresh_in r now t then Some t else None)"
  by (auto simp: purge_expired_def fold_dict_pop_get expired_at_iff split: option.splits)

lemma purge_expired_wf: "registry_wf r \<Longrightarrow> registry_wf (purge_expired now r)"
  by (simp add: registry_wf_def purge_expired_def fold_dict_pop_wf)

lemma length_fold_dict_pop: "length (fold dict_pop ks d) \<le> length d"
  by (induction ks arbitrary: d) (auto intro: order_trans length_delete_le)

lemma active_senders_length: "length (fst (active_senders now r)) \<le> length (last_seen r)"
  by (simp add: active_senders_def Let_def purge_expired_def length_fold_dict_pop)

lemma timeout_unchanged [simp]:
  "timeout_seconds (register now s r) = timeout_seconds r"
  "timeout_seconds (remove s r) = timeout_seconds r"
  "timeout_seconds (purge_expired now r) = timeout_seconds r"
  "timeout_seconds (snd (active_senders now r)) = timeout_seconds r"
  by (simp_all add: register_def remove_def purge_expired_def active_senders_def Let_def)

lemma active_senders_list:
  assumes "registry_wf r"
  shows "fst (active_senders now r)
    = sorted_list_of_set {s. \<exists>t. seen_at r s = Some t \<and> fresh_in r now t}"
proof -
  let ?d = "last_seen (purge_expired now r)"
  have "distinct (dict_keys ?d)"
    using purge_expired_wf[OF assms] by (simp add: registry_wf_def)
  then have "sort (dict_keys ?d) = sorted_list_of_set (set (dict_keys ?d))"
    by (metis distinct_remdups_id sorted_list_of_set_sort_remdups)
  also have "set (dict_keys ?d) = {s. \<exists>t. seen_at r s = Some t \<and> fresh_in r now t}"
    unfolding dict.set_keys
    by (auto simp: seen_purge_expired[OF assms] split: option.splits if_splits)
  finally show ?thesis by (simp add: active_senders_def Let_def)
qed

interpretation senders: liveness_table register remove active_senders seen_at fresh_in registry_wf
proof (unfold_locales, goal_cases)
  case (3 r now s)
  then show ?case by (simp add: active_senders_def Let_def seen_purge_expired)
next
  case (4 r now)
  then show ?case by (rule active_senders_list)
next
  case (9 t t' now' now r)
  have "py_fsub now' t' \<le> py_fsub now t"
    using py_fsub_mono_left[OF 9(2), of t] py_fsub_mono_right[OF 9(1), of now'] by linarith
  with 9(3) show ?case by (simp add: fresh_in_def)
next
  case (12 r now)
  then show ?case by (simp add: active_senders_def Let_def purge_expired_wf)
qed (auto simp: register_def remove_def registry_wf_def fresh_in_def active_senders_def Let_def
    finite_dom_map_of fun_eq_iff intro: dict.wf_put dict.wf_pop)

section \<open>Histories of operations\<close>

datatype registry_op = Register SenderId | Refresh SenderId | Remove SenderId | ListActive

fun apply_registry_op :: "pyfloat \<times> registry_op \<Rightarrow> registry \<Rightarrow> registry" where
  "apply_registry_op (t, Register s) r = register t s r"
| "apply_registry_op (t, Refresh s) r = refresh t s r"
| "apply_registry_op (t, Remove s) r = remove s r"
| "apply_registry_op (t, ListActive) r = snd (active_senders t r)"

text \<open>The specification: the time of the last contact after the last removal.\<close>

fun note_contact :: "pyfloat \<times> registry_op \<Rightarrow> (SenderId \<rightharpoonup> pyfloat) \<Rightarrow> (SenderId \<rightharpoonup> pyfloat)" where
  "note_contact (t, Register s) m = m(s \<mapsto> t)"
| "note_contact (t, Refresh s) m = m(s \<mapsto> t)"
| "note_contact (t, Remove s) m = m(s := None)"
| "note_contact (t, ListActive) m = m"

definition last_contact :: "(pyfloat \<times> registry_op) list \<Rightarrow> SenderId \<Rightarrow> pyfloat option" where
  "last_contact history = fold note_contact history Map.empty"

text \<open>
  The registry may have purged a contact the specification still knows, but only one that was
  already stale at the time reached.
\<close>

definition tracks :: "pyfloat \<Rightarrow> (SenderId \<rightharpoonup> pyfloat) \<Rightarrow> registry \<Rightarrow> bool" where
  "tracks now m r \<longleftrightarrow> registry_wf r \<and>
     (\<forall>s. seen_at r s = m s
        \<or> seen_at r s = None \<and> (\<exists>t. m s = Some t \<and> \<not> fresh_in r now t))"

lemma tracks_later: "tracks now m r \<Longrightarrow> now \<le> now' \<Longrightarrow> tracks now' m r"
  unfolding tracks_def by (meson order_refl senders.fresh_earlier)

lemma apply_registry_op_timeout [simp]:
  "timeout_seconds (apply_registry_op x r) = timeout_seconds r"
  by (induction x r rule: apply_registry_op.induct) (simp_all add: refresh_def)

lemma fresh_in_cong: "timeout_seconds r = timeout_seconds r' \<Longrightarrow> fresh_in r = fresh_in r'"
  by (simp add: fresh_in_def fun_eq_iff)

lemma tracks_step:
  assumes "tracks now m r" and "now \<le> t"
  shows "tracks t (note_contact (t, x) m) (apply_registry_op (t, x) r)"
proof -
  from tracks_later[OF assms] have r: "registry_wf r"
    and sim: "\<And>s. seen_at r s = m s
      \<or> seen_at r s = None \<and> (\<exists>u. m s = Some u \<and> \<not> fresh_in r t u)"
    by (auto simp: tracks_def)
  have fresh: "fresh_in (apply_registry_op (t, x) r) = fresh_in r"
    by (rule fresh_in_cong) simp
  have "seen_at (apply_registry_op (t, x) r) s = note_contact (t, x) m s
      \<or> seen_at (apply_registry_op (t, x) r) s = None
        \<and> (\<exists>u. note_contact (t, x) m s = Some u \<and> \<not> fresh_in r t u)" for s
    using sim[of s]
    by (cases x) (auto simp: refresh_def senders.seen_contact[OF r] senders.seen_forget[OF r]
        senders.seen_live[OF r] split: option.splits)
  moreover have "registry_wf (apply_registry_op (t, x) r)"
    using r by (cases x)
      (auto simp: refresh_def senders.invar_contact senders.invar_forget senders.invar_live)
  ultimately show ?thesis by (simp add: tracks_def fresh)
qed

lemma tracks_run:
  assumes "tracks now m r" and "sorted (now # map fst history)"
  shows "tracks (last (now # map fst history)) (fold note_contact history m)
    (fold apply_registry_op history r)"
  using assms
proof (induction history arbitrary: now m r)
  case Nil
  then show ?case by simp
next
  case (Cons x history)
  obtain t y where x: "x = (t, y)" by (cases x)
  from Cons.prems have "tracks t (note_contact x m) (apply_registry_op x r)"
    unfolding x by (intro tracks_step[of now]) auto
  from Cons.IH[OF this] Cons.prems(2) show ?case by (simp add: x)
qed

lemma tracks_active:
  assumes "tracks now m r"
  shows "fst (active_senders now r)
    = sorted_list_of_set {s. \<exists>t. m s = Some t \<and> fresh_in r now t}"
proof -
  have "seen_at r s = m s
      \<or> seen_at r s = None \<and> (\<exists>t. m s = Some t \<and> \<not> fresh_in r now t)" for s
    using assms by (simp add: tracks_def)
  then have "{s. \<exists>t. seen_at r s = Some t \<and> fresh_in r now t}
      = {s. \<exists>t. m s = Some t \<and> fresh_in r now t}"
    by (metis option.discI option.inject)
  then show ?thesis using assms by (simp add: senders.live_list tracks_def)
qed

lemma fold_apply_timeout [simp]:
  "timeout_seconds (fold apply_registry_op history r) = timeout_seconds r"
  by (induction history arbitrary: r) auto

lemma default_timeout: "timeout_seconds (SenderRegistry HEARTBEAT_INTERVAL_SECONDS) = 15"
  using fl_of_int[of 15]
  by (simp add: SenderRegistry_def HEARTBEAT_INTERVAL_SECONDS_def MISSED_HEARTBEAT_LIMIT_def
      py_fmul_def)

lemma active_after_history:
  assumes "sorted (map fst history @ [now])"
  shows "fst (active_senders now (fold apply_registry_op history (SenderRegistry interval)))
    = sorted_list_of_set {s. \<exists>t. last_contact history s = Some t
        \<and> py_fsub now t < timeout_seconds (SenderRegistry interval)}"
proof -
  let ?r = "fold apply_registry_op history (SenderRegistry interval)"
  have start: "tracks t0 Map.empty (SenderRegistry interval)" for t0
    by (simp add: tracks_def) (simp add: SenderRegistry_def)
  define t0 where "t0 = (case history of [] \<Rightarrow> now | x # _ \<Rightarrow> fst x)"
  have "sorted (t0 # map fst history)"
    using assms by (cases history) (auto simp: t0_def sorted_append)
  moreover have "\<forall>t\<in>set (t0 # map fst history). t \<le> now"
    using assms by (cases history) (auto simp: t0_def sorted_append)
  then have "last (t0 # map fst history) \<le> now" using last_in_set by blast
  ultimately have "tracks now (last_contact history) ?r"
    using tracks_run[OF start] tracks_later unfolding last_contact_def by blast
  from tracks_active[OF this] show ?thesis by (simp add: fresh_in_def)
qed

section \<open>Properties\<close>

text \<open>After any history of registrations, heartbeats, removals and listings read from a clock
  that never goes back, the active senders are, in ascending order and each once, exactly those
  whose last contact since their last removal is less than the timeout ago. The purges the
  listings do in between never show.\<close>

theorem active_senders_history:
  assumes "sorted (map fst history @ [now])"
  shows "fst (active_senders now (fold apply_registry_op history (SenderRegistry interval)))
    = sorted_list_of_set {s. \<exists>t. last_contact history s = Some t
        \<and> py_fsub now t < timeout_seconds (SenderRegistry interval)}"
  using assms by (rule active_after_history)

theorem active_senders_history_witness:
  "fst (active_senders 16 (fold apply_registry_op
      [(0, Register 1), (1, Register 2), (9, Refresh 1), (10, ListActive)] (SenderRegistry 5)))
    = sorted_list_of_set {s. \<exists>t. last_contact
        [(0, Register 1), (1, Register 2), (9, Refresh 1), (10, ListActive)] s = Some t
        \<and> py_fsub 16 t < timeout_seconds (SenderRegistry 5)}"
  by (rule active_senders_history) simp

text \<open>With the shipped interval the timeout is 15 seconds: a sender last heard from at \<open>t\<close> is
  still active at any reading up to one float below \<open>t + 15\<close>, and gone from \<open>t + 15\<close> on.\<close>

theorem heartbeat_timeout_window:
  assumes "registry_wf r" "timeout_seconds r = timeout_seconds (SenderRegistry HEARTBEAT_INTERVAL_SECONDS)"
    and "seen_at r s = Some t"
  shows "(now - t \<le> 15 - 1 / 2 ^ 49 \<longrightarrow> s \<in> set (fst (active_senders now r)))
    \<and> (15 \<le> now - t \<longrightarrow> s \<notin> set (fst (active_senders now r)))"
proof -
  have r15: "timeout_seconds r = 15" using assms(2) by (simp add: default_timeout)
  have below: "py_fsub now t < 15" if "now - t \<le> 15 - 1 / 2 ^ 49"
  proof -
    have "py_fsub now t \<le> fl (15 - 1 / 2 ^ 49)"
      using that by (simp add: py_fsub_def fl_mono)
    moreover have "fl (15 - 1 / 2 ^ 49) < 15" by code_simp
    ultimately show ?thesis by linarith
  qed
  moreover have "15 \<le> py_fsub now t" if "15 \<le> now - t"
    using fl_sub_ge[of 15 now t] that by simp
  ultimately show ?thesis
    using assms(3) by (auto simp: senders.live_set[OF assms(1)] fresh_in_def r15 not_less)
qed

theorem heartbeat_timeout_window_witness:
  "7 \<in> set (fst (active_senders 14 (register 0 7 (SenderRegistry HEARTBEAT_INTERVAL_SECONDS))))
    \<and> 7 \<notin> set (fst (active_senders 15 (register 0 7 (SenderRegistry HEARTBEAT_INTERVAL_SECONDS))))"
proof -
  let ?r = "register 0 7 (SenderRegistry HEARTBEAT_INTERVAL_SECONDS)"
  have "registry_wf ?r" by (simp add: senders.invar_contact)
  moreover have "seen_at ?r 7 = Some 0" by (simp add: register_def)
  ultimately show ?thesis
    using heartbeat_timeout_window[of ?r 7 0 14] heartbeat_timeout_window[of ?r 7 0 15] by simp
qed

text \<open>Removing a sender takes effect at once and touches no other sender: it is active at no
  reading until it is registered again, and every other sender stays as it was.\<close>

theorem remove_only_that_sender:
  assumes "registry_wf r"
  shows "set (fst (active_senders now (remove s r))) = set (fst (active_senders now r)) - {s}"
proof (rule set_eqI)
  fix s'
  show "s' \<in> set (fst (active_senders now (remove s r)))
      \<longleftrightarrow> s' \<in> set (fst (active_senders now r)) - {s}"
    using senders.forgotten_not_live[OF assms] senders.forget_keeps_others[OF assms]
    by (cases "s' = s") auto
qed

theorem remove_only_that_sender_witness:
  "set (fst (active_senders 1 (remove 2 (register 0 2 (register 0 1 (SenderRegistry 5))))))
    = set (fst (active_senders 1 (register 0 2 (register 0 1 (SenderRegistry 5))))) - {2}"
  by (rule remove_only_that_sender) (simp add: senders.invar_contact)

end
