(* ===== verification/Handshake.thy ===== *)
theory Handshake imports PyBytes "HOL-Library.List_Lexorder" "HOL-Library.Char_ord" begin

text \<open>
  The proto-contract hash (\<open>ipc/handshake.py\<close>) and the chunked file hash
  (\<open>adapters/blake3_hasher.py\<close>). BLAKE3 is a third-party package: its hasher object is the
  parameter \<open>hasher\<close>, and what both callers rely on is that it streams: feeding chunks one by one
  is feeding their concatenation (\<open>streams\<close>).
\<close>

section \<open>The hasher, a parameter\<close>

record 'h hasher =
  h_new :: 'h
  h_update :: "bytes \<Rightarrow> 'h \<Rightarrow> 'h"
  h_digest :: "'h \<Rightarrow> bytes"

definition streams :: "'h hasher \<Rightarrow> bool" where
  "streams h \<longleftrightarrow> (\<forall>s. h_update h [] s = s)
     \<and> (\<forall>a b s. h_update h b (h_update h a s) = h_update h (a @ b) s)"

text \<open>The digest of one byte string.\<close>

definition hash_of :: "'h hasher \<Rightarrow> bytes \<Rightarrow> bytes" where
  "hash_of h bs = h_digest h (h_update h bs (h_new h))"

lemma streams_fold:
  "streams h \<Longrightarrow> fold (h_update h) chunks s = h_update h (concat chunks) s"
  by (induction chunks arbitrary: s) (simp_all add: streams_def)

section \<open>The contract directory\<close>

text \<open>An entry is a file with its bytes or a directory, which \<open>read_bytes\<close> cannot read.\<close>

datatype dir_entry = RegularFile bytes | Directory

type_synonym dir_listing = "(string \<times> dir_entry) list"

definition glob_proto :: "dir_listing \<Rightarrow> dir_listing" where
  "glob_proto entries =
     filter (\<lambda>(name, _). 6 \<le> length name \<and> drop (length name - 6) name = ''.proto'') entries"

fun read_bytes :: "dir_entry \<Rightarrow> bytes result" where
  "read_bytes (RegularFile bs) = Inr bs"
| "read_bytes Directory = Inl OSError"

fun hash_entries :: "'h hasher \<Rightarrow> dir_listing \<Rightarrow> 'h \<Rightarrow> 'h result" where
  "hash_entries h [] s = Inr s"
| "hash_entries h ((_, entry) # es) s =
     bindE (read_bytes entry) (\<lambda>bs. hash_entries h es (h_update h bs s))"

definition compute_proto_hash :: "'h hasher \<Rightarrow> dir_listing \<Rightarrow> bytes result" where
  "compute_proto_hash h entries =
     bindE (hash_entries h (sort_key fst (glob_proto entries)) (h_new h))
       (\<lambda>s. Inr (h_digest h s))"

definition verify_proto_hash :: "SenderId \<Rightarrow> bytes \<Rightarrow> bytes \<Rightarrow> unit result" where
  "verify_proto_hash sender_id reported_hash expected_hash =
     (if reported_hash \<noteq> expected_hash
      then Inl (IpcError (ProtoHashMismatchError sender_id reported_hash expected_hash))
      else Inr ())"

lemma verify_proto_hash_Inr [simp]:
  "verify_proto_hash s reported expected = Inr u \<longleftrightarrow> reported = expected"
  by (simp add: verify_proto_hash_def)

lemma hash_entries_files:
  assumes "streams h" "\<forall>(n, e)\<in>set es. e \<noteq> Directory"
  shows "hash_entries h es s
    = Inr (h_update h (concat (map (\<lambda>(n, e). case e of RegularFile bs \<Rightarrow> bs | Directory \<Rightarrow> []) es)) s)"
  using assms
proof (induction h es s rule: hash_entries.induct)
  case (1 h s)
  then show ?case by (simp add: streams_def)
next
  case (2 h n e es s)
  then show ?case by (cases e) (auto simp: streams_def)
qed

section \<open>Chunked hashing of a file\<close>

definition CHUNK_SIZE :: nat where
  "CHUNK_SIZE = 1048576"

text \<open>\<open>read(CHUNK_SIZE)\<close> returns the next chunk, empty at the end of the file.\<close>

function hash_chunks :: "'h hasher \<Rightarrow> bytes \<Rightarrow> 'h \<Rightarrow> 'h" where
  "hash_chunks h content s =
     (let chunk = take CHUNK_SIZE content in
      if chunk = [] then s
      else hash_chunks h (drop CHUNK_SIZE content) (h_update h chunk s))"
  by pat_completeness auto
termination
  by (relation "measure (\<lambda>(h, content, s). length content)") (auto simp: CHUNK_SIZE_def)

declare hash_chunks.simps [simp del]

definition hash_file_sync :: "'h hasher \<Rightarrow> dir_entry \<Rightarrow> string result" where
  "hash_file_sync h entry =
     bindE (read_bytes entry) (\<lambda>content.
       Inr (bytes_hex (h_digest h (hash_chunks h content (h_new h)))))"

lemma hash_chunks_eq: "streams h \<Longrightarrow> hash_chunks h content s = h_update h content s"
proof (induction h content s rule: hash_chunks.induct)
  case (1 h content s)
  show ?case
  proof (cases "content = []")
    case True
    with 1(2) show ?thesis by (simp add: hash_chunks.simps streams_def)
  next
    case False
    then have ne: "take CHUNK_SIZE content \<noteq> []" by (simp add: CHUNK_SIZE_def)
    with 1 have "hash_chunks h content s
        = h_update h (drop CHUNK_SIZE content) (h_update h (take CHUNK_SIZE content) s)"
      by (subst hash_chunks.simps) (simp add: Let_def)
    with 1(2) show ?thesis by (simp add: streams_def)
  qed
qed

section \<open>Properties\<close>

text \<open>The contract hash is the hash of the \<open>.proto\<close> files' bytes, joined in the order of their
  names with nothing between them; entries with other names do not matter.\<close>

theorem proto_hash_of_sorted_concatenation:
  assumes "streams h" "\<forall>(n, e)\<in>set (glob_proto entries). e \<noteq> Directory"
  shows "compute_proto_hash h entries = Inr (hash_of h
    (concat (map (\<lambda>(n, e). case e of RegularFile bs \<Rightarrow> bs | Directory \<Rightarrow> [])
      (sort_key fst (glob_proto entries)))))"
  using assms by (simp add: compute_proto_hash_def hash_entries_files hash_of_def)

definition concat_hasher :: "bytes hasher" where
  "concat_hasher = \<lparr>h_new = [], h_update = (\<lambda>b s. s @ b), h_digest = id\<rparr>"

lemma concat_hasher_streams [simp]: "streams concat_hasher"
  by (simp add: streams_def concat_hasher_def)

theorem proto_hash_of_sorted_concatenation_witness:
  "compute_proto_hash concat_hasher
      [(''b.proto'', RegularFile [2]), (''x.txt'', Directory), (''a.proto'', RegularFile [1])]
    = Inr (hash_of concat_hasher
        (concat (map (\<lambda>(n, e). case e of RegularFile bs \<Rightarrow> bs | Directory \<Rightarrow> []) (sort_key fst
          (glob_proto [(''b.proto'', RegularFile [2]), (''x.txt'', Directory),
            (''a.proto'', RegularFile [1])])))))"
  by (rule proto_hash_of_sorted_concatenation) (auto simp: glob_proto_def)

text \<open>The order in which the directory lists its files does not change the contract hash.\<close>

theorem proto_hash_listing_order:
  assumes "mset entries = mset entries'" "distinct (map fst entries)"
  shows "compute_proto_hash h entries = compute_proto_hash h entries'"
proof -
  have "mset (glob_proto entries) = mset (glob_proto entries')"
    using assms(1) by (simp add: glob_proto_def)
  moreover have "distinct (map fst (glob_proto entries))"
    using assms(2) by (simp add: glob_proto_def distinct_map_filter)
  then have "inj_on fst (set (glob_proto entries))" by (simp add: distinct_map)
  ultimately have "sort_key fst (glob_proto entries) = sort_key fst (glob_proto entries')"
    by (intro sort_key_inj_key_eq) simp_all
  then show ?thesis by (simp add: compute_proto_hash_def)
qed

theorem proto_hash_listing_order_witness:
  "compute_proto_hash concat_hasher [(''b.proto'', RegularFile [2]), (''a.proto'', RegularFile [1])]
    = compute_proto_hash concat_hasher [(''a.proto'', RegularFile [1]), (''b.proto'', RegularFile [2])]"
  by (rule proto_hash_listing_order) auto

text \<open>Reading a file in chunks does not change its hash: the digest is that of the whole
  content, as 2 lower-case hexadecimal digits per byte.\<close>

theorem file_hash_independent_of_chunks:
  assumes "streams h"
  shows "hash_file_sync h (RegularFile content) = Inr (bytes_hex (hash_of h content))"
  by (simp add: hash_file_sync_def hash_chunks_eq[OF assms] hash_of_def)

theorem file_hash_independent_of_chunks_witness:
  "hash_file_sync concat_hasher (RegularFile [1, 2, 3]) = Inr (bytes_hex (hash_of concat_hasher [1, 2, 3]))"
  by (rule file_hash_independent_of_chunks) simp

end
