(* ===== verification/Dispatcher.thy ===== *)
theory Dispatcher imports Planner Registry Handshake begin

text \<open>
  \<open>services/dispatcher.py\<close>: one session per stable file. The dispatcher's world is the registry, the
  state of the IPC server, the sessions it dispatched and a trace of what it did that another
  component can see: send attempts with their outcome, sleeps and log records. The ports it is
  given are a record of functions. Other tasks run where the code suspends, in \<open>compute_hash\<close> and
  in \<open>sleep\<close>: there the port returns an arbitrary new registry and server state, which may depend
  on the whole trace, and it may raise (a cancelled task). The locale \<open>ipc_port\<close> states what an
  \<open>IpcServer\<close> promises of \<open>send\<close>; the server of \<open>Uds\<close> provides it.
\<close>

section \<open>State and ports\<close>

text \<open>The log records of the dispatcher, and in the last four those of the tasks of \<open>main.py\<close>.\<close>

datatype log_record =
    DispatchSkippedNoActiveSenders path
  | DispatchSendFailed SessionId SenderId string
  | SessionDispatched SessionId SenderId int int int nat
  | DispatchPartiallyFailed SessionId "SenderId list" nat "(SenderId \<times> int \<times> int \<times> nat) list"
  | DispatchFailedForPath path exn
  | SessionCompleteReceived SenderId SessionId
  | MessageIgnored string SenderId
  | UnknownIncomingMessageType string SenderId

datatype event =
    Sent SenderId bytes "unit result"
  | Slept pyfloat
  | Logged log_record

record 'i world =
  w_registry :: registry
  w_ipc :: 'i
  dispatched_sessions :: "(SessionId, SenderId list) dict"
  w_trace :: "event list"

text \<open>What other tasks may change while the dispatcher waits.\<close>

type_synonym 'i shared = "registry \<times> (SessionId, SenderId list) dict \<times> 'i"

record 'i dispatch_ports =
  dp_send :: "SenderId \<Rightarrow> bytes \<Rightarrow> 'i \<Rightarrow> unit result \<times> 'i"
  dp_stat :: "path \<Rightarrow> int result"
  dp_compute_hash :: "path \<Rightarrow> event list \<Rightarrow> 'i shared \<Rightarrow> string result \<times> 'i shared"
  dp_sleep :: "pyfloat \<Rightarrow> event list \<Rightarrow> 'i shared \<Rightarrow> unit result \<times> 'i shared"
  dp_now :: "event list \<Rightarrow> pyfloat"
  dp_token_bytes :: "event list \<Rightarrow> nat \<Rightarrow> bytes"
  dp_runtime :: protobuf

record dispatch_config =
  dc_fec_params :: fec_params
  dc_watch_root :: path
  dc_target_host :: string
  dc_base_port :: int

definition emit :: "event \<Rightarrow> 'i world \<Rightarrow> 'i world" where
  "emit e w = w\<lparr>w_trace := w_trace w @ [e]\<rparr>"

definition shared_part :: "'i world \<Rightarrow> 'i shared" where
  "shared_part w = (w_registry w, dispatched_sessions w, w_ipc w)"

definition set_shared :: "'i shared \<Rightarrow> 'i world \<Rightarrow> 'i world" where
  "set_shared x w = (case x of (reg, ds, i) \<Rightarrow>
     w\<lparr>w_registry := reg, w_ipc := i, dispatched_sessions := ds\<rparr>)"

lemma set_shared_part [simp]: "set_shared (shared_part w) w = w"
  by (simp add: set_shared_def shared_part_def)

definition clock_sleep :: "'i dispatch_ports \<Rightarrow> pyfloat \<Rightarrow> 'i world \<Rightarrow> unit result \<times> 'i world" where
  "clock_sleep P d w =
     (case dp_sleep P d (w_trace w) (shared_part w) of (r, x) \<Rightarrow> (r, emit (Slept d) (set_shared x w)))"

definition hasher_compute_hash ::
  "'i dispatch_ports \<Rightarrow> path \<Rightarrow> 'i world \<Rightarrow> string result \<times> 'i world" where
  "hasher_compute_hash P path w =
     (case dp_compute_hash P path (w_trace w) (shared_part w) of (r, x) \<Rightarrow> (r, set_shared x w))"

definition ipc_send ::
  "'i dispatch_ports \<Rightarrow> SenderId \<Rightarrow> bytes \<Rightarrow> 'i world \<Rightarrow> unit result \<times> 'i world" where
  "ipc_send P s payload w =
     (case dp_send P s payload (w_ipc w) of
        (r, i) \<Rightarrow> (r, emit (Sent s payload r) (w\<lparr>w_ipc := i\<rparr>)))"

section \<open>Operations\<close>

text \<open>The body of \<open>_deliver\<close> for the attempts that are left of \<open>range(MAX_DISPATCH_ATTEMPTS)\<close>.\<close>

fun deliver_attempts ::
  "'i dispatch_ports \<Rightarrow> SessionId \<Rightarrow> shard_assignment \<Rightarrow> bytes \<Rightarrow> nat list \<Rightarrow> 'i world
    \<Rightarrow> bool result \<times> 'i world" where
  "deliver_attempts P sid a payload [] w = (Inr False, w)"
| "deliver_attempts P sid a payload (attempt # attempts) w =
     (case ipc_send P (sa_sender_id a) payload w of
        (Inr _, w1) \<Rightarrow> (Inr True, w1)
      | (Inl (IpcError (UnknownSenderError _)), w1) \<Rightarrow>
          let w2 = emit (Logged (DispatchSendFailed sid (sa_sender_id a) ''sender_disconnected'')) w1
          in (Inr False, w2\<lparr>w_registry := remove (sa_sender_id a) (w_registry w2)\<rparr>)
      | (Inl (IpcError (SendQueueFullError _)), w1) \<Rightarrow>
          let w2 = emit (Logged (DispatchSendFailed sid (sa_sender_id a) ''send_queue_full'')) w1
          in if attempt < MAX_DISPATCH_ATTEMPTS - 1
             then case clock_sleep P DISPATCH_RETRY_DELAY_SECONDS w2 of
                 (Inl e, w3) \<Rightarrow> (Inl e, w3)
               | (Inr _, w3) \<Rightarrow> deliver_attempts P sid a payload attempts w3
             else deliver_attempts P sid a payload attempts w2
      | (Inl e, w1) \<Rightarrow> (Inl e, w1))"

definition deliver ::
  "'i dispatch_ports \<Rightarrow> SessionId \<Rightarrow> shard_assignment \<Rightarrow> bytes \<Rightarrow> 'i world
    \<Rightarrow> bool result \<times> 'i world" where
  "deliver P sid a payload w = deliver_attempts P sid a payload [0..<MAX_DISPATCH_ATTEMPTS] w"

definition log_partial_failure ::
  "SessionId \<Rightarrow> shard_assignment list \<Rightarrow> 'i world \<Rightarrow> 'i world" where
  "log_partial_failure sid lost w =
     emit (Logged (DispatchPartiallyFailed sid (map sa_sender_id lost)
       (sum_list (map (\<lambda>a. length (assigned_blocks a)) lost))
       (map (\<lambda>a. (sa_sender_id a, shard_residue a, shard_modulus a, length (assigned_blocks a)))
          lost))) w"

text \<open>The message one assignment is turned into, encoded.\<close>

definition assignment_payload ::
  "protobuf \<Rightarrow> dispatch_config \<Rightarrow> SessionId \<Rightarrow> source_file \<Rightarrow> shard_assignment \<Rightarrow> bytes result" where
  "assignment_payload pb C sid sf a =
     bindE (build_manifest pb sf (dc_fec_params C) sid (shard_residue a) (shard_modulus a)
         (dc_watch_root C) UNSET_SENDER_BPS_LIMIT) (\<lambda>m.
       bindE (build_assign_session pb m (shard_modulus a) (dc_target_host C) (sa_target_port a)
           (path_str (sf_path sf))) (\<lambda>msg.
         encode pb (AssignSession msg)))"

text \<open>The loop over the assignments, with the lists \<open>succeeded\<close> and \<open>lost_assignments\<close> so far.\<close>

fun send_loop ::
  "'i dispatch_ports \<Rightarrow> dispatch_config \<Rightarrow> SessionId \<Rightarrow> source_file \<Rightarrow> shard_assignment list
    \<Rightarrow> SenderId list \<Rightarrow> shard_assignment list \<Rightarrow> 'i world
    \<Rightarrow> (SenderId list \<times> shard_assignment list) result \<times> 'i world" where
  "send_loop P C sid sf [] succeeded lost w = (Inr (succeeded, lost), w)"
| "send_loop P C sid sf (a # assignments) succeeded lost w =
     (case assignment_payload (dp_runtime P) C sid sf a of
        Inl e \<Rightarrow> (Inl e, w)
      | Inr payload \<Rightarrow>
          (case deliver P sid a payload w of
             (Inl e, w1) \<Rightarrow> (Inl e, w1)
           | (Inr True, w1) \<Rightarrow>
               send_loop P C sid sf assignments (succeeded @ [sa_sender_id a]) lost
                 (emit (Logged (SessionDispatched sid (sa_sender_id a) (shard_residue a)
                    (shard_modulus a) (sa_target_port a) (length (assigned_blocks a)))) w1)
           | (Inr False, w1) \<Rightarrow>
               send_loop P C sid sf assignments succeeded (lost @ [a]) w1))"

definition send_to_senders ::
  "'i dispatch_ports \<Rightarrow> dispatch_config \<Rightarrow> SessionId \<Rightarrow> source_file \<Rightarrow> int \<Rightarrow> SenderId list \<Rightarrow> 'i world
    \<Rightarrow> SenderId list option result \<times> 'i world" where
  "send_to_senders P C sid sf total_blocks active w =
     (case derive_shard_assignments total_blocks active (dc_base_port C) of
        Inl e \<Rightarrow> (Inl e, w)
      | Inr assignments \<Rightarrow>
          (case send_loop P C sid sf assignments [] [] w of
             (Inl e, w1) \<Rightarrow> (Inl e, w1)
           | (Inr (succeeded, lost), w1) \<Rightarrow>
               (Inr (if succeeded = [] then None else Some succeeded),
                if lost = [] then w1 else log_partial_failure sid lost w1)))"

definition dispatch ::
  "'i dispatch_ports \<Rightarrow> dispatch_config \<Rightarrow> path \<Rightarrow> 'i world \<Rightarrow> SessionId option result \<times> 'i world" where
  "dispatch P C path w =
     (case dp_stat P path of
        Inl e \<Rightarrow> (Inl e, w)
      | Inr sz \<Rightarrow>
          (case hasher_compute_hash P path w of
             (Inl e, w1) \<Rightarrow> (Inl e, w1)
           | (Inr hash, w1) \<Rightarrow>
               let sf = \<lparr>sf_path = path, size_bytes = sz, file_hash = hash\<rparr>;
                   (active, reg) = active_senders (dp_now P (w_trace w1)) (w_registry w1);
                   w2 = w1\<lparr>w_registry := reg\<rparr>
               in if active = []
                  then (Inr None, emit (Logged (DispatchSkippedNoActiveSenders path)) w2)
                  else let sid = generate_session_id (dp_token_bytes P (w_trace w2)) in
                    case calculate_block_count sz (dc_fec_params C) of
                      Inl e \<Rightarrow> (Inl e, w2)
                    | Inr total_blocks \<Rightarrow>
                        (case send_to_senders P C sid sf total_blocks active w2 of
                           (Inl e, w3) \<Rightarrow> (Inl e, w3)
                         | (Inr None, w3) \<Rightarrow> (Inr None, w3)
                         | (Inr (Some succeeded), w3) \<Rightarrow>
                             (Inr (Some sid),
                              w3\<lparr>dispatched_sessions :=
                                   dict_set sid succeeded (dispatched_sessions w3)\<rparr>))))"

definition complete_session :: "SessionId \<Rightarrow> 'i world \<Rightarrow> 'i world" where
  "complete_session sid w = w\<lparr>dispatched_sessions := dict_pop sid (dispatched_sessions w)\<rparr>"

section \<open>What a run adds to the trace\<close>

fun accepted_sends :: "event list \<Rightarrow> (SenderId \<times> bytes) list" where
  "accepted_sends [] = []"
| "accepted_sends (Sent s p (Inr _) # es) = (s, p) # accepted_sends es"
| "accepted_sends (_ # es) = accepted_sends es"

fun partial_failures :: "event list \<Rightarrow> log_record list" where
  "partial_failures [] = []"
| "partial_failures (Logged (DispatchPartiallyFailed sid ids n shs) # es)
     = DispatchPartiallyFailed sid ids n shs # partial_failures es"
| "partial_failures (_ # es) = partial_failures es"

lemma accepted_sends_append [simp]:
  "accepted_sends (xs @ ys) = accepted_sends xs @ accepted_sends ys"
  by (induction xs rule: accepted_sends.induct) auto

lemma partial_failures_append [simp]:
  "partial_failures (xs @ ys) = partial_failures xs @ partial_failures ys"
  by (induction xs rule: partial_failures.induct) auto

text \<open>\<open>extends w w' new\<close>: the run added the events \<open>new\<close>.\<close>

definition extends :: "'i world \<Rightarrow> 'i world \<Rightarrow> event list \<Rightarrow> bool" where
  "extends w w' new \<longleftrightarrow> w_trace w' = w_trace w @ new"

lemma extends_refl [simp, intro]: "extends w w []"
  by (simp add: extends_def)

lemma extends_trans: "extends w w1 xs \<Longrightarrow> extends w1 w2 ys \<Longrightarrow> extends w w2 (xs @ ys)"
  by (simp add: extends_def)

lemma extends_emit [simp, intro]: "extends w (emit e w) [e]"
  by (simp add: extends_def emit_def)

lemma extends_upd [simp]:
  "extends w (w'\<lparr>w_registry := reg\<rparr>) new \<longleftrightarrow> extends w w' new"
  "extends (w\<lparr>w_registry := reg\<rparr>) w' new \<longleftrightarrow> extends w w' new"
  by (simp_all add: extends_def)

lemma extends_emit_last: "extends w w' new \<Longrightarrow> extends w (emit e w') (new @ [e])"
  by (rule extends_trans[OF _ extends_emit])

lemma extends_sleep: "clock_sleep P d w = (r, w') \<Longrightarrow> extends w w' [Slept d]"
  by (auto simp: clock_sleep_def set_shared_def extends_def emit_def split: prod.splits)

lemma extends_send: "ipc_send P s p w = (r, w') \<Longrightarrow> extends w w' [Sent s p r]"
  by (auto simp: ipc_send_def extends_def emit_def split: prod.splits)

lemma extends_hash: "hasher_compute_hash P path w = (r, w') \<Longrightarrow> extends w w' []"
  by (auto simp: hasher_compute_hash_def set_shared_def extends_def split: prod.splits)

lemmas extends_intros = extends_sleep extends_send extends_hash extends_emit_last

section \<open>Delivery\<close>

definition other_error :: "exn \<Rightarrow> bool" where
  "other_error e \<longleftrightarrow> (\<forall>s. e \<noteq> IpcError (UnknownSenderError s) \<and> e \<noteq> IpcError (SendQueueFullError s))"

lemma send_error_cases:
  obtains (unknown) s where "e = IpcError (UnknownSenderError s)"
    | (full) s where "e = IpcError (SendQueueFullError s)"
    | (other) "other_error e"
  by (cases "other_error e") (auto simp: other_error_def)

lemma deliver_attempts_other:
  "ipc_send P (sa_sender_id a) payload w = (Inl e, w1) \<Longrightarrow> other_error e \<Longrightarrow>
    deliver_attempts P sid a payload (attempt # attempts) w = (Inl e, w1)"
  by (cases e) (auto simp: other_error_def split: ipc_error.splits)

lemma deliver_attempts_trace:
  assumes "deliver_attempts P sid a payload attempts w = (r, w')"
  shows "\<exists>new. extends w w' new
    \<and> accepted_sends new = (if r = Inr True then [(sa_sender_id a, payload)] else [])
    \<and> partial_failures new = []"
  using assms
proof (induction attempts arbitrary: w)
  case Nil
  then show ?case by (intro exI[of _ "[]"]) auto
next
  case (Cons attempt attempts)
  let ?s = "sa_sender_id a"
  obtain r1 w1 where send: "ipc_send P ?s payload w = (r1, w1)" by fastforce
  note ext1 = extends_send[OF send]
  show ?case
  proof (cases r1)
    case (Inr u)
    with Cons.prems send ext1 show ?thesis by (intro exI[of _ "[Sent ?s payload r1]"]) auto
  next
    case (Inl e)
    show ?thesis
    proof (cases e rule: send_error_cases)
      case (unknown s)
      with Cons.prems send Inl show ?thesis
        using extends_emit_last[OF ext1]
        by (intro exI[of _ "[Sent ?s payload r1,
            Logged (DispatchSendFailed sid ?s ''sender_disconnected'')]"])
          (auto simp: Let_def)
    next
      case other
      with Cons.prems deliver_attempts_other[of P a payload w e w1] send Inl
      have "r = Inl e" "w' = w1" by simp_all
      with ext1 Inl show ?thesis by (intro exI[of _ "[Sent ?s payload r1]"]) simp
    next
      case (full s)
      define w2 where "w2 = emit (Logged (DispatchSendFailed sid ?s ''send_queue_full'')) w1"
      let ?new2 = "[Sent ?s payload r1, Logged (DispatchSendFailed sid ?s ''send_queue_full'')]"
      have ext2: "extends w w2 ?new2" using extends_emit_last[OF ext1] by (simp add: w2_def)
      show ?thesis
      proof (cases "attempt < MAX_DISPATCH_ATTEMPTS - 1")
        case False
        then have "deliver_attempts P sid a payload attempts w2 = (r, w')"
          using Cons.prems send Inl full by (simp add: Let_def w2_def)
        from Cons.IH[OF this] ext2 show ?thesis
          using Inl by (fastforce dest: extends_trans)
      next
        case True
        obtain r3 w3 where sleep: "clock_sleep P DISPATCH_RETRY_DELAY_SECONDS w2 = (r3, w3)"
          by fastforce
        have ext3: "extends w w3 (?new2 @ [Slept DISPATCH_RETRY_DELAY_SECONDS])"
          by (rule extends_trans[OF ext2 extends_sleep[OF sleep]])
        show ?thesis
        proof (cases r3)
          case (Inl e3)
          then show ?thesis using Cons.prems send \<open>r1 = Inl e\<close> full True sleep ext3
            by (intro exI[of _ "?new2 @ [Slept DISPATCH_RETRY_DELAY_SECONDS]"])
              (auto simp: Let_def w2_def)
        next
          case (Inr u)
          then have "deliver_attempts P sid a payload attempts w3 = (r, w')"
            using Cons.prems send \<open>r1 = Inl e\<close> full True sleep by (simp add: Let_def w2_def)
          from Cons.IH[OF this] ext3 show ?thesis
            using \<open>r1 = Inl e\<close> by (fastforce dest: extends_trans)
        qed
      qed
    qed
  qed
qed


lemma deliver_trace:
  "deliver P sid a payload w = (r, w') \<Longrightarrow>
    \<exists>new. extends w w' new
      \<and> accepted_sends new = (if r = Inr True then [(sa_sender_id a, payload)] else [])
      \<and> partial_failures new = []"
  unfolding deliver_def by (rule deliver_attempts_trace)

text \<open>
  What an IPC server promises of \<open>send\<close>: it never waits, a payload for a connected sender with room
  goes to the end of that sender's queue and nothing else changes, and the two refusals leave the
  server as it was. \<open>deliver\<close> over such a server is determined by what it finds before the first
  attempt and after the sleep.
\<close>

locale ipc_port =
  fixes send :: "SenderId \<Rightarrow> bytes \<Rightarrow> 'i \<Rightarrow> unit result \<times> 'i"
    and connected :: "'i \<Rightarrow> SenderId \<Rightarrow> bool"
    and pending :: "'i \<Rightarrow> SenderId \<Rightarrow> bytes list"
    and capacity :: nat
    and ok :: "'i \<Rightarrow> bool"
  assumes send_accepts: "ok i \<Longrightarrow> connected i s \<Longrightarrow> length (pending i s) < capacity \<Longrightarrow>
      \<exists>i'. send s p i = (Inr (), i') \<and> pending i' = (pending i)(s := pending i s @ [p])
        \<and> connected i' = connected i \<and> ok i'"
    and send_full: "ok i \<Longrightarrow> connected i s \<Longrightarrow> \<not> length (pending i s) < capacity \<Longrightarrow>
      send s p i = (Inl (IpcError (SendQueueFullError s)), i)"
    and send_unknown: "ok i \<Longrightarrow> \<not> connected i s \<Longrightarrow>
      send s p i = (Inl (IpcError (UnknownSenderError s)), i)"
begin

lemma deliver_attempt_accepted:
  assumes "dp_send P = send" "ok (w_ipc w)" "connected (w_ipc w) (sa_sender_id a)"
    and "length (pending (w_ipc w) (sa_sender_id a)) < capacity"
  shows "\<exists>w'. deliver_attempts P sid a payload (n # ns) w = (Inr True, w')
    \<and> w_registry w' = w_registry w \<and> w_trace w' = w_trace w @ [Sent (sa_sender_id a) payload (Inr ())]
    \<and> pending (w_ipc w') = (pending (w_ipc w))(sa_sender_id a
        := pending (w_ipc w) (sa_sender_id a) @ [payload])"
  using send_accepts[OF assms(2-4), of payload] assms(1) by (auto simp: ipc_send_def emit_def)

lemma deliver_attempt_unknown:
  assumes "dp_send P = send" "ok (w_ipc w)" "\<not> connected (w_ipc w) (sa_sender_id a)"
  shows "\<exists>w'. deliver_attempts P sid a payload (n # ns) w = (Inr False, w')
    \<and> w_registry w' = remove (sa_sender_id a) (w_registry w) \<and> w_ipc w' = w_ipc w"
  using send_unknown[OF assms(2,3), of payload] assms(1)
  by (auto simp: ipc_send_def emit_def Let_def)

lemma deliver_attempt_full:
  assumes "dp_send P = send" "ok (w_ipc w)" "connected (w_ipc w) (sa_sender_id a)"
    and "\<not> length (pending (w_ipc w) (sa_sender_id a)) < capacity"
  shows "\<exists>w2. w_registry w2 = w_registry w \<and> w_ipc w2 = w_ipc w
    \<and> deliver_attempts P sid a payload (n # ns) w =
      (if n < MAX_DISPATCH_ATTEMPTS - 1
       then case clock_sleep P DISPATCH_RETRY_DELAY_SECONDS w2 of
           (Inl e, w3) \<Rightarrow> (Inl e, w3)
         | (Inr _, w3) \<Rightarrow> deliver_attempts P sid a payload ns w3
       else deliver_attempts P sid a payload ns w2)"
  using send_full[OF assms(2-4), of payload] assms(1)
  by (intro exI[of _ "emit (Logged (DispatchSendFailed sid (sa_sender_id a) ''send_queue_full''))
      (emit (Sent (sa_sender_id a) payload (Inl (IpcError (SendQueueFullError (sa_sender_id a))))) w)"])
    (auto simp: ipc_send_def emit_def Let_def)

lemma two_attempts: "[0..<MAX_DISPATCH_ATTEMPTS] = [0, Suc 0]"
  by (simp add: MAX_DISPATCH_ATTEMPTS_def upt_rec)

lemma deliver_first_accepted:
  assumes "dp_send P = send" "ok (w_ipc w)" "connected (w_ipc w) (sa_sender_id a)"
    and "length (pending (w_ipc w) (sa_sender_id a)) < capacity"
  shows "\<exists>w'. deliver P sid a payload w = (Inr True, w')
    \<and> w_registry w' = w_registry w \<and> w_trace w' = w_trace w @ [Sent (sa_sender_id a) payload (Inr ())]
    \<and> pending (w_ipc w') = (pending (w_ipc w))(sa_sender_id a
        := pending (w_ipc w) (sa_sender_id a) @ [payload])"
  unfolding deliver_def two_attempts by (rule deliver_attempt_accepted[OF assms])

lemma deliver_first_unknown:
  assumes "dp_send P = send" "ok (w_ipc w)" "\<not> connected (w_ipc w) (sa_sender_id a)"
  shows "\<exists>w'. deliver P sid a payload w = (Inr False, w')
    \<and> w_registry w' = remove (sa_sender_id a) (w_registry w) \<and> w_ipc w' = w_ipc w"
  unfolding deliver_def two_attempts by (rule deliver_attempt_unknown[OF assms])

text \<open>A full queue: one sleep, then one more attempt on whatever the sleep left.\<close>

lemma deliver_retry:
  assumes P: "dp_send P = send" and first: "ok (w_ipc w)" "connected (w_ipc w) (sa_sender_id a)"
      "\<not> length (pending (w_ipc w) (sa_sender_id a)) < capacity"
  shows "\<exists>w2 r w3. w_registry w2 = w_registry w \<and> w_ipc w2 = w_ipc w
    \<and> clock_sleep P DISPATCH_RETRY_DELAY_SECONDS w2 = (r, w3)
    \<and> (case r of
         Inl e \<Rightarrow> deliver P sid a payload w = (Inl e, w3)
       | Inr _ \<Rightarrow> ok (w_ipc w3) \<longrightarrow> (\<exists>w'.
           if \<not> connected (w_ipc w3) (sa_sender_id a)
           then deliver P sid a payload w = (Inr False, w')
             \<and> w_registry w' = remove (sa_sender_id a) (w_registry w3)
           else w_registry w' = w_registry w3 \<and> deliver P sid a payload w
             = (Inr (length (pending (w_ipc w3) (sa_sender_id a)) < capacity), w')))"
proof -
  let ?s = "sa_sender_id a"
  from deliver_attempt_full[OF assms, of sid payload 0 "[Suc 0]"] obtain w2 where
    w2: "w_registry w2 = w_registry w" "w_ipc w2 = w_ipc w"
      "deliver P sid a payload w = (case clock_sleep P DISPATCH_RETRY_DELAY_SECONDS w2 of
         (Inl e, w3) \<Rightarrow> (Inl e, w3)
       | (Inr _, w3) \<Rightarrow> deliver_attempts P sid a payload [Suc 0] w3)"
    unfolding deliver_def two_attempts by (auto simp: MAX_DISPATCH_ATTEMPTS_def)
  obtain r w3 where sleep: "clock_sleep P DISPATCH_RETRY_DELAY_SECONDS w2 = (r, w3)" by fastforce
  have "\<exists>w'. if \<not> connected (w_ipc w3) ?s
      then deliver_attempts P sid a payload [Suc 0] w3 = (Inr False, w')
        \<and> w_registry w' = remove ?s (w_registry w3)
      else w_registry w' = w_registry w3 \<and> deliver_attempts P sid a payload [Suc 0] w3
        = (Inr (length (pending (w_ipc w3) ?s) < capacity), w')"
    if ok: "ok (w_ipc w3)"
  proof (cases "connected (w_ipc w3) ?s")
    case False
    with deliver_attempt_unknown[OF P ok False, of sid payload "Suc 0" "[]"] show ?thesis
      by (auto simp del: deliver_attempts.simps(2))
  next
    case conn: True
    show ?thesis
    proof (cases "length (pending (w_ipc w3) ?s) < capacity")
      case True
      from deliver_attempt_accepted[OF P ok conn True, of sid payload "Suc 0" "[]"] True conn
      show ?thesis by (auto simp del: deliver_attempts.simps(2))
    next
      case False
      from deliver_attempt_full[OF P ok conn False, of sid payload "Suc 0" "[]"] False conn
      show ?thesis by (auto simp: MAX_DISPATCH_ATTEMPTS_def simp del: deliver_attempts.simps(2))
    qed
  qed
  then show ?thesis
    by (intro exI[of _ w2, OF exI[of _ r, OF exI[of _ w3]]])
      (auto simp: w2 sleep split: sum.splits if_splits simp del: deliver_attempts.simps(2))
qed

end

section \<open>The loop over the assignments\<close>

definition wire ::
  "protobuf \<Rightarrow> dispatch_config \<Rightarrow> SessionId \<Rightarrow> source_file \<Rightarrow> shard_assignment \<Rightarrow> SenderId \<times> bytes" where
  "wire pb C sid sf a = (sa_sender_id a, projr (assignment_payload pb C sid sf a))"

lemma filter_fun_upd_other:
  "a \<notin> set xs \<Longrightarrow> filter (ok(a := b)) xs = filter ok xs"
  "a \<notin> set xs \<Longrightarrow> filter (\<lambda>x. \<not> (ok(a := b)) x) xs = filter (\<lambda>x. \<not> ok x) xs"
  by (induction xs) auto

text \<open>
  Which assignments were delivered is a predicate \<open>ok\<close>; when an exception ended the loop, only the
  assignments \<open>pre\<close> before it were tried.
\<close>

lemma send_loop_trace:
  assumes "send_loop P C sid sf as succ lost w = (r, w')" and "distinct as"
  shows "\<exists>new ok pre post. as = pre @ post \<and> extends w w' new
    \<and> accepted_sends new = map (wire (dp_runtime P) C sid sf) (filter ok pre)
    \<and> partial_failures new = []
    \<and> (\<forall>a\<in>set pre. \<exists>p. assignment_payload (dp_runtime P) C sid sf a = Inr p)
    \<and> (case r of
         Inr (succ', lost') \<Rightarrow> post = [] \<and> succ' = succ @ map sa_sender_id (filter ok as)
           \<and> lost' = lost @ filter (\<lambda>a. \<not> ok a) as
       | Inl _ \<Rightarrow> True)"
  using assms
proof (induction as arbitrary: succ lost w)
  case Nil
  then show ?case by (intro exI[of _ "[]"]) auto
next
  case (Cons a as)
  let ?pay = "assignment_payload (dp_runtime P) C sid sf"
  show ?case
  proof (cases "?pay a")
    case (Inl e)
    with Cons.prems show ?thesis
      by (intro exI[of _ "[]"] exI[of _ "\<lambda>_. False"] exI[of _ "a # as"]) auto
  next
    case (Inr payload)
    obtain r1 w1 where d: "deliver P sid a payload w = (r1, w1)" by fastforce
    obtain new1 where new1: "extends w w1 new1" "partial_failures new1 = []"
      and acc1: "accepted_sends new1 = (if r1 = Inr True then [(sa_sender_id a, payload)] else [])"
      using deliver_trace[OF d] by blast
    show ?thesis
    proof (cases r1)
      case (Inl e)
      with Cons.prems d Inr new1 acc1 show ?thesis
        by (intro exI[of _ new1] exI[of _ "\<lambda>_. False"] exI[of _ "[a]"] exI[of _ as]) auto
    next
      case r1: (Inr b)
      define w2 where "w2 = (if b then emit (Logged (SessionDispatched sid (sa_sender_id a)
        (shard_residue a) (shard_modulus a) (sa_target_port a) (length (assigned_blocks a)))) w1
        else w1)"
      define new2 where "new2 = (if b then new1 @ [Logged (SessionDispatched sid (sa_sender_id a)
        (shard_residue a) (shard_modulus a) (sa_target_port a) (length (assigned_blocks a)))]
        else new1)"
      have ext2: "extends w w2 new2"
        using extends_emit_last[OF new1(1)] new1(1) by (simp add: w2_def new2_def)
      have "send_loop P C sid sf as (if b then succ @ [sa_sender_id a] else succ)
          (if b then lost else lost @ [a]) w2 = (r, w')"
        using Cons.prems(1) d r1 Inr by (cases b) (simp_all add: w2_def)
      from Cons.IH[OF this] Cons.prems(2) obtain new ok pre post where
        IH: "as = pre @ post" "extends w2 w' new"
          "accepted_sends new = map (wire (dp_runtime P) C sid sf) (filter ok pre)"
          "partial_failures new = []" "\<forall>a\<in>set pre. \<exists>p. ?pay a = Inr p"
          "case r of Inr (succ', lost') \<Rightarrow> post = []
             \<and> succ' = (if b then succ @ [sa_sender_id a] else succ) @ map sa_sender_id (filter ok as)
             \<and> lost' = (if b then lost else lost @ [a]) @ filter (\<lambda>a. \<not> ok a) as
           | Inl _ \<Rightarrow> True"
        by auto
      define ok' where "ok' = ok(a := b)"
      have fresh: "a \<notin> set as" using Cons.prems(2) by simp
      then have "a \<notin> set pre" using IH(1) by simp
      with fresh have eq: "filter ok' pre = filter ok pre" "filter ok' as = filter ok as"
        "filter (\<lambda>x. \<not> ok' x) as = filter (\<lambda>x. \<not> ok x) as" "ok' a = b"
        unfolding ok'_def by (simp_all add: filter_fun_upd_other del: fun_upd_apply) simp
      have "accepted_sends (new2 @ new) = map (wire (dp_runtime P) C sid sf) (filter ok' (a # pre))"
        using acc1 IH(3) r1 Inr by (simp add: eq new2_def wire_def)
      moreover have "case r of
         Inr (succ', lost') \<Rightarrow> post = [] \<and> succ' = succ @ map sa_sender_id (filter ok' (a # as))
           \<and> lost' = lost @ filter (\<lambda>a. \<not> ok' a) (a # as)
       | Inl _ \<Rightarrow> True"
        using IH(6) by (auto simp: eq split: sum.splits)
      ultimately show ?thesis
        using extends_trans[OF ext2 IH(2)] IH(1,4,5) new1(2) Inr
        by (intro exI[of _ "new2 @ new"] exI[of _ ok'] exI[of _ "a # pre"] exI[of _ post])
          (simp add: new2_def)
    qed
  qed
qed

section \<open>One dispatch\<close>

definition partial_failure_record :: "SessionId \<Rightarrow> shard_assignment list \<Rightarrow> log_record" where
  "partial_failure_record sid lost =
     DispatchPartiallyFailed sid (map sa_sender_id lost)
       (sum_list (map (\<lambda>a. length (assigned_blocks a)) lost))
       (map (\<lambda>a. (sa_sender_id a, shard_residue a, shard_modulus a, length (assigned_blocks a)))
          lost)"

lemma log_partial_failure_eq:
  "log_partial_failure sid lost w = emit (Logged (partial_failure_record sid lost)) w"
  by (simp add: log_partial_failure_def partial_failure_record_def)

lemma partial_failures_record [simp]:
  "partial_failures [Logged (partial_failure_record sid lost)] = [partial_failure_record sid lost]"
  by (simp add: partial_failure_record_def)

text \<open>The file a dispatch reads and the senders it takes from the registry.\<close>

definition dispatch_inputs ::
  "'i dispatch_ports \<Rightarrow> dispatch_config \<Rightarrow> path \<Rightarrow> 'i world
    \<Rightarrow> (source_file \<times> SenderId list \<times> SessionId \<times> int \<times> 'i world) result" where
  "dispatch_inputs P C path w =
     bindE (dp_stat P path) (\<lambda>sz.
       case hasher_compute_hash P path w of (r, w1) \<Rightarrow>
         bindE r (\<lambda>hash.
           let (active, reg) = active_senders (dp_now P (w_trace w1)) (w_registry w1);
               w2 = w1\<lparr>w_registry := reg\<rparr>
           in bindE (if active = [] then Inr 0 else calculate_block_count sz (dc_fec_params C))
             (\<lambda>total_blocks. Inr (\<lparr>sf_path = path, size_bytes = sz, file_hash = hash\<rparr>, active,
                generate_session_id (dp_token_bytes P (w_trace w2)), total_blocks, w2))))"

lemma dispatch_inputs_cases:
  obtains (stat) e where "dp_stat P path = Inl e"
      "dispatch_inputs P C path w = Inl e" "dispatch P C path w = (Inl e, w)"
    | (hash) sz e w1 where "dp_stat P path = Inr sz" "hasher_compute_hash P path w = (Inl e, w1)"
      "dispatch_inputs P C path w = Inl e" "dispatch P C path w = (Inl e, w1)"
    | (ready) sz hash w1 active reg where "dp_stat P path = Inr sz"
      "hasher_compute_hash P path w = (Inr hash, w1)"
      "active_senders (dp_now P (w_trace w1)) (w_registry w1) = (active, reg)"
proof (cases "dp_stat P path")
  case (Inl e)
  then show ?thesis by (intro stat) (simp_all add: dispatch_inputs_def dispatch_def)
next
  case (Inr sz)
  obtain r w1 where h: "hasher_compute_hash P path w = (r, w1)" by fastforce
  show ?thesis
  proof (cases r)
    case (Inl e)
    with Inr h show ?thesis by (intro hash) (simp_all add: dispatch_inputs_def dispatch_def)
  next
    case (Inr hash)
    obtain active reg where "active_senders (dp_now P (w_trace w1)) (w_registry w1) = (active, reg)"
      by fastforce
    with \<open>dp_stat P path = Inr sz\<close> h Inr show ?thesis by (intro ready) simp_all
  qed
qed

lemma dispatch_inputs_extends:
  "dispatch_inputs P C path w = Inr (sf, active, sid, tb, w2) \<Longrightarrow> extends w w2 []"
  by (cases rule: dispatch_inputs_cases[of P path C w])
    (auto simp: dispatch_inputs_def res_simps dest: extends_hash)

lemma dispatch_no_inputs:
  "dispatch_inputs P C path w = Inl e \<Longrightarrow>
    \<exists>w'. dispatch P C path w = (Inl e, w') \<and> extends w w' []"
  by (cases rule: dispatch_inputs_cases[of P path C w])
    (auto simp: dispatch_inputs_def dispatch_def res_simps dest: extends_hash split: if_splits)

lemma dispatch_skips:
  "dispatch_inputs P C path w = Inr (sf, [], sid, tb, w2) \<Longrightarrow>
    dispatch P C path w = (Inr None, emit (Logged (DispatchSkippedNoActiveSenders path)) w2)"
  by (cases rule: dispatch_inputs_cases[of P path C w])
    (auto simp: dispatch_inputs_def dispatch_def res_simps)

lemma dispatch_sends:
  "dispatch_inputs P C path w = Inr (sf, active, sid, tb, w2) \<Longrightarrow> active \<noteq> [] \<Longrightarrow>
    dispatch P C path w =
      (case send_to_senders P C sid sf tb active w2 of
         (Inl e, w3) \<Rightarrow> (Inl e, w3)
       | (Inr None, w3) \<Rightarrow> (Inr None, w3)
       | (Inr (Some succeeded), w3) \<Rightarrow>
           (Inr (Some sid),
            w3\<lparr>dispatched_sessions := dict_set sid succeeded (dispatched_sessions w3)\<rparr>))"
  by (cases rule: dispatch_inputs_cases[of P path C w])
    (auto simp: dispatch_inputs_def dispatch_def res_simps)

lemma distinct_assignments:
  assumes "derive_shard_assignments tb active base = Inr as"
  shows "distinct (map sa_sender_id as)" "distinct as" "map sa_sender_id as = active"
proof -
  show ids: "map sa_sender_id as = active"
    using assms by (auto simp: derive_shard_assignments_Inr_iff sender_ids_enumerate)
  show d: "distinct (map sa_sender_id as)"
    using assms ids by (simp add: derive_shard_assignments_Inr_iff valid_shard_request_def)
  then show "distinct as" by (simp add: distinct_map)
qed

lemma send_to_senders_trace:
  assumes run: "send_to_senders P C sid sf tb active w = (r, w')"
    and as: "derive_shard_assignments tb active (dc_base_port C) = Inr as"
  shows "\<exists>new ok pre post. as = pre @ post \<and> extends w w' new
    \<and> accepted_sends new = map (wire (dp_runtime P) C sid sf) (filter ok pre)
    \<and> (\<forall>a\<in>set pre. \<exists>p. assignment_payload (dp_runtime P) C sid sf a = Inr p)
    \<and> (case r of
         Inr q \<Rightarrow> post = []
           \<and> q = (if filter ok as = [] then None else Some (map sa_sender_id (filter ok as)))
           \<and> partial_failures new = (if filter (\<lambda>a. \<not> ok a) as = [] then []
               else [partial_failure_record sid (filter (\<lambda>a. \<not> ok a) as)])
       | Inl _ \<Rightarrow> partial_failures new = [])"
proof -
  obtain r1 w1 where loop: "send_loop P C sid sf as [] [] w = (r1, w1)" by fastforce
  from send_loop_trace[OF loop distinct_assignments(2)[OF as]] obtain new ok pre post where
    L: "as = pre @ post" "extends w w1 new"
      "accepted_sends new = map (wire (dp_runtime P) C sid sf) (filter ok pre)"
      "partial_failures new = []"
      "\<forall>a\<in>set pre. \<exists>p. assignment_payload (dp_runtime P) C sid sf a = Inr p"
      "case r1 of Inr (s, l) \<Rightarrow> post = [] \<and> s = [] @ map sa_sender_id (filter ok as)
         \<and> l = [] @ filter (\<lambda>a. \<not> ok a) as | Inl _ \<Rightarrow> True"
    by blast
  show ?thesis
  proof (cases r1)
    case (Inl e)
    with run as loop L show ?thesis
      by (intro exI[of _ new] exI[of _ ok] exI[of _ pre] exI[of _ post])
        (auto simp: send_to_senders_def)
  next
    case (Inr sl)
    obtain s l where sl: "sl = (s, l)" by (cases sl)
    let ?new = "new @ (if l = [] then [] else [Logged (partial_failure_record sid l)])"
    have "extends w w' ?new"
      using run as loop Inr sl L(2) extends_emit_last[OF L(2)]
      by (auto simp: send_to_senders_def log_partial_failure_eq split: if_splits)
    moreover have "r = Inr (if s = [] then None else Some s)"
      using run as loop Inr sl by (simp add: send_to_senders_def)
    ultimately show ?thesis
      using L Inr sl
      by (intro exI[of _ ?new] exI[of _ ok] exI[of _ pre] exI[of _ post])
        (auto simp: partial_failure_record_def)
  qed
qed

lemma dispatch_run:
  assumes run: "dispatch P C path w = (r, w')"
    and inp: "dispatch_inputs P C path w = Inr (sf, active, sid, tb, w2)"
    and as: "derive_shard_assignments tb active (dc_base_port C) = Inr as"
  shows "\<exists>new ok pre post. as = pre @ post \<and> w_trace w' = w_trace w @ new
    \<and> accepted_sends new = map (wire (dp_runtime P) C sid sf) (filter ok pre)
    \<and> (\<forall>a\<in>set pre. \<exists>p. assignment_payload (dp_runtime P) C sid sf a = Inr p)
    \<and> (case r of
         Inr q \<Rightarrow> post = []
           \<and> q = (if filter ok as = [] then None else Some sid)
           \<and> (filter ok as \<noteq> [] \<longrightarrow>
               dict_get (dispatched_sessions w') sid = Some (map sa_sender_id (filter ok as)))
           \<and> partial_failures new = (if filter (\<lambda>a. \<not> ok a) as = [] then []
               else [partial_failure_record sid (filter (\<lambda>a. \<not> ok a) as)])
       | Inl _ \<Rightarrow> partial_failures new = [])"
proof -
  have ne: "active \<noteq> []"
    using as by (simp add: derive_shard_assignments_Inr_iff valid_shard_request_def)
  obtain r3 w3 where send: "send_to_senders P C sid sf tb active w2 = (r3, w3)" by fastforce
  from send_to_senders_trace[OF this as] obtain new ok pre post where
    T: "as = pre @ post" "extends w2 w3 new"
      "accepted_sends new = map (wire (dp_runtime P) C sid sf) (filter ok pre)"
      "\<forall>a\<in>set pre. \<exists>p. assignment_payload (dp_runtime P) C sid sf a = Inr p"
      "case r3 of
         Inr q \<Rightarrow> post = []
           \<and> q = (if filter ok as = [] then None else Some (map sa_sender_id (filter ok as)))
           \<and> partial_failures new = (if filter (\<lambda>a. \<not> ok a) as = [] then []
               else [partial_failure_record sid (filter (\<lambda>a. \<not> ok a) as)])
       | Inl _ \<Rightarrow> partial_failures new = []"
    by blast
  have ext: "extends w w3 new" using extends_trans[OF dispatch_inputs_extends[OF inp] T(2)] by simp
  have "w_trace w3 = w_trace w @ new" using ext by (simp add: extends_def)
  then show ?thesis
    using T run dispatch_sends[OF inp ne] send
    by (intro exI[of _ new] exI[of _ ok] exI[of _ pre] exI[of _ post])
      (auto split: sum.splits if_splits)
qed

text \<open>Every other run accepts nothing and records nothing.\<close>

lemma dispatch_without_assignments:
  assumes run: "dispatch P C path w = (r, w')"
    and none: "\<And>sf active sid tb w2 as. dispatch_inputs P C path w = Inr (sf, active, sid, tb, w2) \<Longrightarrow>
      derive_shard_assignments tb active (dc_base_port C) \<noteq> Inr as"
  shows "\<exists>new. w_trace w' = w_trace w @ new \<and> accepted_sends new = [] \<and> partial_failures new = []
    \<and> (r = Inr None \<or> (\<exists>e. r = Inl e))"
proof (cases "dispatch_inputs P C path w")
  case (Inl e)
  from dispatch_no_inputs[OF this] run show ?thesis
    by (intro exI[of _ "[]"]) (auto simp: extends_def)
next
  case (Inr q)
  obtain sf active sid tb w2 where "q = (sf, active, sid, tb, w2)" by (cases q) auto
  with Inr have inp: "dispatch_inputs P C path w = Inr (sf, active, sid, tb, w2)" by simp
  note ext = dispatch_inputs_extends[OF inp]
  show ?thesis
  proof (cases "active = []")
    case True
    have "dispatch P C path w = (Inr None, emit (Logged (DispatchSkippedNoActiveSenders path)) w2)"
      using inp True by (intro dispatch_skips) simp
    with run ext extends_emit_last[OF ext] show ?thesis
      by (intro exI[of _ "[Logged (DispatchSkippedNoActiveSenders path)]"]) (auto simp: extends_def)
  next
    case False
    obtain e where "derive_shard_assignments tb active (dc_base_port C) = Inl e"
      using none[OF inp] by (metis sum.exhaust)
    then have "send_to_senders P C sid sf tb active w2 = (Inl e, w2)"
      by (simp add: send_to_senders_def)
    with run dispatch_sends[OF inp False] ext show ?thesis
      by (intro exI[of _ "[]"]) (auto simp: extends_def)
  qed
qed

lemma dispatch_cases:
  assumes "dispatch P C path w = (r, w')"
  obtains (sent) sf active sid tb w2 as where
      "dispatch_inputs P C path w = Inr (sf, active, sid, tb, w2)"
      "derive_shard_assignments tb active (dc_base_port C) = Inr as"
    | (unsent) new where "w_trace w' = w_trace w @ new" "accepted_sends new = []"
      "partial_failures new = []"
      "r = Inr None \<or> (\<exists>e. r = Inl e)"
proof (cases "\<exists>sf active sid tb w2 as. dispatch_inputs P C path w = Inr (sf, active, sid, tb, w2)
    \<and> derive_shard_assignments tb active (dc_base_port C) = Inr as")
  case True
  then show ?thesis using sent by blast
next
  case False
  from dispatch_without_assignments[OF assms] False show ?thesis using unsent by blast
qed

section \<open>What the senders receive\<close>

text \<open>The blocks a sender transmits for the bytes it was sent.\<close>

definition received_blocks :: "protobuf \<Rightarrow> bytes \<Rightarrow> BlockId list" where
  "received_blocks pb raw =
     (case decode pb raw of
        Inr (_, AssignSession a) \<Rightarrow> (case derive_blocks a of Inr bs \<Rightarrow> bs | Inl _ \<Rightarrow> [])
      | _ \<Rightarrow> [])"

lemma assignment_payload_Inr_iff:
  "assignment_payload pb C sid sf a = Inr raw \<longleftrightarrow>
     (\<exists>m msg. build_manifest pb sf (dc_fec_params C) sid (shard_residue a) (shard_modulus a)
          (dc_watch_root C) UNSET_SENDER_BPS_LIMIT = Inr m
        \<and> build_assign_session pb m (shard_modulus a) (dc_target_host C) (sa_target_port a)
          (path_str (sf_path sf)) = Inr msg
        \<and> raw = pb_serialize pb (Some (ASSIGN_SESSION_FIELD_NAME, AssignSession msg)))"
  by (auto simp: assignment_payload_def res_simps encode_def)

lemma received_blocks_wire:
  assumes "parses_back pb" "calculate_block_count (size_bytes sf) (dc_fec_params C) = Inr tb"
    and "derive_shard_assignments tb active base = Inr as" "a \<in> set as"
    and "assignment_payload pb C sid sf a = Inr raw"
  shows "received_blocks pb (snd (wire pb C sid sf a)) = assigned_blocks a"
proof -
  obtain m msg where msg: "build_manifest pb sf (dc_fec_params C) sid (shard_residue a)
        (shard_modulus a) (dc_watch_root C) UNSET_SENDER_BPS_LIMIT = Inr m"
      "build_assign_session pb m (shard_modulus a) (dc_target_host C) (sa_target_port a)
        (path_str (sf_path sf)) = Inr msg"
      "raw = pb_serialize pb (Some (ASSIGN_SESSION_FIELD_NAME, AssignSession msg))"
    using assms(5) by (auto simp: assignment_payload_Inr_iff)
  have "snd (wire pb C sid sf a) = raw" using assms(5) by (simp add: wire_def)
  then show ?thesis
    using derive_blocks_assigned[OF assms(2,3,4) msg(1,2)]
    by (simp add: received_blocks_def msg(3) decode_serialize[OF assms(1)])
qed

section \<open>When nothing is raised\<close>

text \<open>
  Ports that raise nothing but the two send errors, and whose hasher keeps the registry a
  registry: what the server, the clock and the hasher do while the process is not shutting down.
\<close>

definition ports_regular :: "'i dispatch_ports \<Rightarrow> bool" where
  "ports_regular P \<longleftrightarrow>
     (\<forall>s p i e. fst (dp_send P s p i) = Inl e \<longrightarrow> \<not> other_error e)
     \<and> (\<forall>d tr x e. fst (dp_sleep P d tr x) \<noteq> Inl e)"

definition file_acceptable :: "dispatch_config \<Rightarrow> source_file \<Rightarrow> bool" where
  "file_acceptable C sf \<longleftrightarrow>
     0 \<le> size_bytes sf \<and> size_bytes sf < 2 ^ 53
     \<and> (\<exists>digest. file_hash sf = bytes_hex digest \<and> length digest = 32)
     \<and> (\<exists>rel. relative_path sf (dc_watch_root C) = Inr rel)"

text \<open>What keeps the messages of a dispatch within the ranges of their fields.\<close>

definition dispatch_fits :: "nat \<Rightarrow> dispatch_config \<Rightarrow> path \<Rightarrow> int \<Rightarrow> nat \<Rightarrow> bool" where
  "dispatch_fits width C path sz senders \<longleftrightarrow> ascii_text (path_str path) \<and> ascii_text (dc_target_host C)
     \<and> 0 < dc_base_port C \<and> dc_base_port C \<le> 65535 \<and> sz < 2 ^ width \<and> senders < 2 ^ 31"

lemma deliver_attempts_returns:
  assumes "ports_regular P"
  shows "\<exists>b w'. deliver_attempts P sid a payload attempts w = (Inr b, w')"
proof (induction attempts arbitrary: w)
  case Nil
  show ?case by (intro exI[of _ False]) simp
next
  case (Cons attempt attempts)
  obtain r1 w1 where send: "ipc_send P (sa_sender_id a) payload w = (r1, w1)" by fastforce
  show ?case
  proof (cases r1)
    case (Inr u)
    with send show ?thesis by (intro exI[of _ True]) simp
  next
    case (Inl e)
    have "fst (dp_send P (sa_sender_id a) payload (w_ipc w)) = Inl e"
      using send Inl by (auto simp: ipc_send_def split: prod.splits)
    then have "\<not> other_error e" using assms unfolding ports_regular_def by blast
    moreover have "clock_sleep P d w2 \<noteq> (Inl e', w3)" for d w2 e' w3
    proof -
      have "fst (dp_sleep P d (w_trace w2) (shared_part w2)) \<noteq> Inl e'"
        using assms unfolding ports_regular_def by blast
      then show ?thesis
        by (cases "dp_sleep P d (w_trace w2) (shared_part w2)")
          (auto simp: clock_sleep_def)
    qed
    ultimately show ?thesis
      using send Inl Cons.IH
      by (cases e rule: send_error_cases) (auto simp: Let_def split: prod.splits sum.splits)
  qed
qed

lemma fits_upto: "fits k x \<Longrightarrow> k \<le> width \<Longrightarrow> fits width x"
  by (auto simp: fits_def intro: less_le_trans power_increasing)

lemma ceil_div_le:
  assumes "0 \<le> sz" "0 < B"
  shows "ceil_div sz B \<le> sz"
proof (cases "ceil_div sz B \<le> 0")
  case False
  then have "(ceil_div sz B - 1) * 1 \<le> (ceil_div sz B - 1) * B" using assms(2) by (intro mult_left_mono) simp_all
  then have "ceil_div sz B - 1 \<le> (ceil_div sz B - 1) * B" by (simp only: mult_1_right)
  then show ?thesis using ceil_div_spec(1)[OF assms(2), of sz] by linarith
qed (use assms in linarith)

lemma ascii_text_hex: "ascii_text (bytes_hex bs)"
  by (rule ascii_text_subset[OF set_bytes_hex]) (simp add: ascii_text_def)

lemma assignment_manifest_fits:
  assumes "fec_valid fec" "0 \<le> sz" "sz < 2 ^ width" "31 \<le> width" "0 \<le> i" "i < 2 ^ 31"
    and "ascii_text sid" "ascii_text name"
  shows "manifest_fits width \<lparr>m_session_id = sid, m_filepath = name, m_file_size = sz, m_file_hash = hash,
    m_k = fec_k fec, m_n = fec_n fec, m_block_bytes = symbol_bytes fec,
    m_total_blocks = ceil_div sz (block_size fec), m_sender_id = i, m_sender_bps_limit = UNSET_SENDER_BPS_LIMIT\<rparr>"
proof -
  have "ceil_div sz (block_size fec) \<le> sz" "0 \<le> ceil_div sz (block_size fec)"
    using assms(1,2) block_size_pos ceil_div_le ceil_div_nonneg by blast+
  moreover have "fits width x" if "fits 31 x" for x using fits_upto[OF that assms(4)] .
  moreover have "fits 31 (fec_k fec)" "fits 31 (fec_n fec)" "fits 31 (symbol_bytes fec)" "fits 31 i"
    "fits 31 UNSET_SENDER_BPS_LIMIT"
    using assms(1,5,6)
    by (auto simp: fits_def fec_valid_def GF256_MAX_SHARES_def MAX_SYMBOL_BYTES_def UNSET_SENDER_BPS_LIMIT_def)
  ultimately show ?thesis using assms by (auto simp: manifest_fits_def fits_def[of width sz] fits_def[of width "ceil_div _ _"])
qed

lemma assignment_bounds:
  assumes "derive_shard_assignments tb active base = Inr as" "a \<in> set as"
  shows "0 \<le> shard_residue a" "shard_residue a < shard_modulus a" "shard_modulus a = int (length active)"
    and "sa_target_port a = base + shard_residue a"
  using assms by (auto simp: derive_shard_assignments_Inr_iff assignment_at_def in_set_enumerate_eq)

lemma assignment_payload_returns:
  assumes "file_acceptable C sf" "accepts_fitting width pb" "fec_valid (dc_fec_params C)"
    and "derive_shard_assignments tb active (dc_base_port C) = Inr as" "a \<in> set as"
    and "dispatch_fits width C (sf_path sf) (size_bytes sf) (length active)" "ascii_text sid"
  shows "\<exists>p. assignment_payload pb C sid sf a = Inr p"
proof -
  note b = assignment_bounds[OF assms(4,5)]
  have fits: "ascii_text (path_str (sf_path sf))" "ascii_text (dc_target_host C)" "0 < dc_base_port C"
    "dc_base_port C \<le> 65535" "size_bytes sf < 2 ^ width" "length active < 2 ^ 31" "31 \<le> width"
    using assms(2,6) by (auto simp: dispatch_fits_def accepts_fitting_def)
  have m31: "shard_modulus a < 2 ^ 31" using fits(6) b(3) by (simp add: nat_less_real_le)
  obtain rel hash where rel: "relative_to (sf_path sf) (dc_watch_root C) = Inr rel" "''..'' \<notin> set (path_parts rel)"
    and hash: "fromhex (file_hash sf) = Inr hash" "length (file_hash sf) = 64" and sz: "0 \<le> size_bytes sf"
    using assms(1) by (auto simp: file_acceptable_def relative_path_Inr_iff)
  have cnt: "calculate_block_count (size_bytes sf) (dc_fec_params C) = Inr (ceil_div (size_bytes sf) (block_size (dc_fec_params C)))"
    using assms(1,3) calculate_block_count_eq by (auto simp: file_acceptable_def)
  have ok: "manifest_fits width \<lparr>m_session_id = sid, m_filepath = path_str rel, m_file_size = size_bytes sf,
      m_file_hash = hash, m_k = fec_k (dc_fec_params C), m_n = fec_n (dc_fec_params C),
      m_block_bytes = symbol_bytes (dc_fec_params C),
      m_total_blocks = ceil_div (size_bytes sf) (block_size (dc_fec_params C)), m_sender_id = i,
      m_sender_bps_limit = UNSET_SENDER_BPS_LIMIT\<rparr>" if "0 \<le> i" "i \<le> shard_residue a" for i
    using that b(2) m31 by (intro assignment_manifest_fits[OF assms(3) sz fits(5,7)]
        ascii_text_relative[OF rel(1) fits(1)] assms(7)) simp_all
  have acc: "\<And>m. manifest_fits width m \<Longrightarrow> pb_accepts_manifest pb m"
    "\<And>x. assign_session_fits width x \<Longrightarrow> pb_accepts_assign_session pb x"
    using assms(2) by (auto simp: accepts_fitting_def)
  have "fits 32 (shard_modulus a)" "fits 32 (sa_target_port a)"
    using b fits(3,4) m31 by (simp_all add: fits_def)
  then have "assign_session_fits width \<lparr>as_manifest = m, as_total_senders = shard_modulus a,
      as_target_host = dc_target_host C, as_target_port = sa_target_port a,
      as_source_path = path_str (sf_path sf)\<rparr>" if "manifest_fits width m" for m
    using that fits(1,2) by (simp add: assign_session_fits_def)
  then show ?thesis
    using acc ok[OF b(1) order_refl] ok[OF order_refl b(1)] rel hash sz cnt b(1,2)
    by (auto simp: assignment_payload_Inr_iff build_assign_session_Inr_iff build_manifest_Inr_iff)
qed

lemma send_loop_returns:
  assumes "ports_regular P" "\<forall>a\<in>set as. \<exists>p. assignment_payload (dp_runtime P) C sid sf a = Inr p"
  shows "\<exists>q w'. send_loop P C sid sf as succ lost w = (Inr q, w')"
  using assms(2)
proof (induction as arbitrary: succ lost w)
  case Nil
  then show ?case by simp
next
  case (Cons a as)
  then obtain p where p: "assignment_payload (dp_runtime P) C sid sf a = Inr p" by auto
  obtain b w1 where "deliver P sid a p w = (Inr b, w1)"
    using deliver_attempts_returns[OF assms(1)] unfolding deliver_def by blast
  with p Cons show ?case by (cases b) auto
qed

lemma dispatch_returns_aux:
  assumes "ports_regular P" "accepts_fitting width (dp_runtime P)" "fec_valid (dc_fec_params C)"
    and fits: "dispatch_fits width C path sz (length (last_seen (w_registry w1)))" and "dp_stat P path = Inr sz"
    and hash: "hasher_compute_hash P path w = (Inr hash, w1)" and "registry_wf (w_registry w1)"
    and acc: "file_acceptable C \<lparr>sf_path = path, size_bytes = sz, file_hash = hash\<rparr>"
  shows "\<exists>q w'. dispatch P C path w = (Inr q, w')"
proof -
  obtain active reg where act: "active_senders (dp_now P (w_trace w1)) (w_registry w1) = (active, reg)"
    by fastforce
  let ?sf = "\<lparr>sf_path = path, size_bytes = sz, file_hash = hash\<rparr>"
  let ?w2 = "w1\<lparr>w_registry := reg\<rparr>"
  let ?sid = "generate_session_id (dp_token_bytes P (w_trace ?w2))"
  obtain tb where tb: "calculate_block_count sz (dc_fec_params C) = Inr tb" "0 \<le> tb"
    using acc assms(3) calculate_block_count_eq[of "dc_fec_params C" sz] block_size_pos
    by (auto simp: file_acceptable_def intro: ceil_div_nonneg)
  have inp: "dispatch_inputs P C path w
      = Inr (?sf, active, ?sid, if active = [] then 0 else tb, ?w2)"
    using assms(5) hash act tb by (simp add: dispatch_inputs_def)
  show ?thesis
  proof (cases "active = []")
    case True
    with inp show ?thesis using dispatch_skips[of P C path w ?sf] by simp
  next
    case False
    have "distinct active"
      using senders.live_distinct[OF assms(7)] act by (metis fst_conv)
    then obtain as where as: "derive_shard_assignments tb active (dc_base_port C) = Inr as"
      using False tb(2) fits derive_shard_assignments_ok[of tb active "dc_base_port C"]
      by (auto simp: valid_shard_request_def dispatch_fits_def)
    have "length active \<le> length (last_seen (w_registry w1))"
      using active_senders_length act by (metis fst_conv)
    then have "dispatch_fits width C (sf_path ?sf) (size_bytes ?sf) (length active)"
      using fits by (auto simp: dispatch_fits_def)
    from assignment_payload_returns[OF acc assms(2,3) as _ this]
    have "\<forall>a\<in>set as. \<exists>p. assignment_payload (dp_runtime P) C ?sid ?sf a = Inr p"
      by (simp add: generate_session_id_def ascii_text_hex)
    from send_loop_returns[OF assms(1) this] obtain q w' where
      "send_loop P C ?sid ?sf as [] [] ?w2 = (Inr q, w')" by blast
    then have "\<exists>q w'. send_to_senders P C ?sid ?sf tb active ?w2 = (Inr q, w')"
      by (cases q) (auto simp: send_to_senders_def as)
    then show ?thesis
      using dispatch_sends[OF inp] False by (auto split: option.splits)
  qed
qed

section \<open>A concrete run\<close>

text \<open>
  Two senders are registered, sender 0 is connected and sender 2 is not; a file of ten bytes has
  ten blocks. The runs below serve the witnesses.
\<close>

definition example_ports :: "unit dispatch_ports" where
  "example_ports = \<lparr>dp_send = (\<lambda>s p i. (if s = 0 then Inr () else Inl (IpcError (UnknownSenderError s)), i)),
     dp_stat = (\<lambda>path. Inr 10),
     dp_compute_hash = (\<lambda>path tr x. (Inr (bytes_hex (replicate 32 171)), x)),
     dp_sleep = (\<lambda>d tr x. (Inr (), x)), dp_now = (\<lambda>tr. 1),
     dp_token_bytes = (\<lambda>tr n. replicate n 7), dp_runtime = unary_protobuf\<rparr>"

definition example_config :: dispatch_config where
  "example_config = \<lparr>dc_fec_params = example_fec, dc_watch_root = Path ''/watch'',
     dc_target_host = ''127.0.0.1'', dc_base_port = 9000\<rparr>"

definition example_world :: "unit world" where
  "example_world = \<lparr>w_registry = \<lparr>timeout_seconds = 15, last_seen = [(0, 1), (2, 1)]\<rparr>, w_ipc = (),
     dispatched_sessions = [], w_trace = []\<rparr>"

abbreviation example_path :: path where
  "example_path \<equiv> Path ''/watch/sub/example.bin''"

lemma example_runtime: "dp_runtime example_ports = unary_protobuf"
  by (simp add: example_ports_def)

lemma example_regular: "ports_regular example_ports" "accepts_fitting 64 (dp_runtime example_ports)"
  "parses_back (dp_runtime example_ports)"
  by (auto simp: ports_regular_def example_ports_def other_error_def)
    (simp_all add: accepts_fitting_def unary_protobuf_def
      unary_parses_back[unfolded unary_protobuf_def] del: replicate_Suc replicate.simps)

lemma example_path_ascii: "ascii_text (path_str example_path)"
  by code_simp

lemma example_config_valid: "fec_valid (dc_fec_params example_config)"
    "dispatch_fits 64 example_config example_path 10 (length (last_seen (w_registry example_world)))"
  by (simp add: example_config_def example_fec_def fec_valid_def GF256_MAX_SHARES_def MAX_SYMBOL_BYTES_def)
    (simp add: dispatch_fits_def example_path_ascii example_world_def, simp add: example_config_def ascii_text_def)

lemma example_hash:
  "hasher_compute_hash example_ports example_path example_world
    = (Inr (bytes_hex (replicate 32 171)), example_world)"
  by (simp add: hasher_compute_hash_def shared_part_def set_shared_def example_ports_def)

lemma example_acceptable:
  "file_acceptable example_config \<lparr>sf_path = example_path, size_bytes = 10,
     file_hash = bytes_hex (replicate 32 171)\<rparr>"
proof -
  have "relative_path \<lparr>sf_path = example_path, size_bytes = 10, file_hash = h\<rparr> (Path ''/watch'')
      = Inr \<lparr>path_root = [], path_tail = [''sub'', ''example.bin'']\<rparr>" for h
    using example_relative
    by (simp add: relative_path_Inr_iff example_source_def path_parts_def)
  then show ?thesis
    unfolding file_acceptable_def example_config_def dispatch_config.simps source_file.simps
    by (intro conjI exI[of _ "replicate 32 171"]) (simp_all only: refl length_replicate, simp_all)
qed

lemma example_wf: "registry_wf (w_registry example_world)"
  by (simp add: example_world_def registry_wf_def)

lemma example_inputs:
  "\<exists>sf sid w2. dispatch_inputs example_ports example_config example_path example_world
    = Inr (sf, [0, 2], sid, 10, w2)"
proof -
  have "active_senders 1 (w_registry example_world) = ([0, 2], w_registry example_world)"
    by (simp add: example_world_def active_senders_def purge_expired_def expired_at_def)
  moreover have "calculate_block_count 10 example_fec = Inr 10"
    using calculate_block_count_eq[of example_fec 10] example_config_valid(1)
    by (simp add: example_config_def example_fec_def block_size_def ceil_div_def)
  ultimately show ?thesis
    using example_hash
    by (simp add: dispatch_inputs_def example_ports_def example_config_def example_world_def)
qed

lemma example_dispatch:
  "\<exists>q w'. dispatch example_ports example_config example_path example_world = (Inr q, w')"
  by (rule dispatch_returns_aux[OF example_regular(1,2) example_config_valid _ example_hash example_wf
      example_acceptable])
    (simp add: example_ports_def)

section \<open>Properties\<close>

lemma dispatch_inputs_blocks:
  "dispatch_inputs P C path w = Inr (sf, active, sid, tb, w2) \<Longrightarrow> active \<noteq> [] \<Longrightarrow>
    calculate_block_count (size_bytes sf) (dc_fec_params C) = Inr tb"
  by (cases rule: dispatch_inputs_cases[of P path C w])
    (auto simp: dispatch_inputs_def res_simps)

lemma dispatch_Inr_derives:
  assumes "dispatch P C path w = (Inr q, w')"
    and "dispatch_inputs P C path w = Inr (sf, active, sid, tb, w2)" "active \<noteq> []"
  shows "\<exists>as. derive_shard_assignments tb active (dc_base_port C) = Inr as"
proof (cases "derive_shard_assignments tb active (dc_base_port C)")
  case (Inl e)
  then have "send_to_senders P C sid sf tb active w2 = (Inl e, w2)"
    by (simp add: send_to_senders_def)
  with assms(1) dispatch_sends[OF assms(2,3)] show ?thesis by simp
qed simp

lemma map_fst_wire: "map fst (map (wire pb C sid sf) as) = map sa_sender_id as"
  by (simp add: wire_def comp_def)

lemma dispatch_run_blocks:
  assumes "parses_back (dp_runtime P)" "dispatch P C path w = (Inr q, w')"
    and "dispatch_inputs P C path w = Inr (sf, active, sid, total_blocks, w2)" "active \<noteq> []"
    and as: "derive_shard_assignments total_blocks active (dc_base_port C) = Inr as"
  shows "\<exists>new ok. w_trace w' = w_trace w @ new
    \<and> map fst (accepted_sends new) = map sa_sender_id (filter ok as)
    \<and> partial_failures new = (if filter (\<lambda>a. \<not> ok a) as = [] then []
         else [partial_failure_record sid (filter (\<lambda>a. \<not> ok a) as)])
    \<and> map (\<lambda>(s, raw). received_blocks (dp_runtime P) raw) (accepted_sends new) = map assigned_blocks (filter ok as)"
proof -
  note tb = dispatch_inputs_blocks[OF assms(3,4)]
  from dispatch_run[OF assms(2,3) as] obtain new ok where
    R: "w_trace w' = w_trace w @ new"
      "accepted_sends new = map (wire (dp_runtime P) C sid sf) (filter ok as)"
      "\<forall>a\<in>set as. \<exists>p. assignment_payload (dp_runtime P) C sid sf a = Inr p"
      "partial_failures new = (if filter (\<lambda>a. \<not> ok a) as = [] then []
         else [partial_failure_record sid (filter (\<lambda>a. \<not> ok a) as)])"
    by auto
  have "(\<lambda>(s, raw). received_blocks (dp_runtime P) raw) (wire (dp_runtime P) C sid sf a)
      = assigned_blocks a" if "a \<in> set (filter ok as)" for a
    using that R(3) received_blocks_wire[OF assms(1) tb as]
    by (auto simp: case_prod_unfold)
  then have "map (\<lambda>(s, raw). received_blocks (dp_runtime P) raw) (accepted_sends new)
      = map assigned_blocks (filter ok as)"
    by (simp add: R(2))
  moreover have "map fst (accepted_sends new) = map sa_sender_id (filter ok as)"
    by (simp add: R(2) map_fst_wire del: map_map)
  ultimately show ?thesis using R(1,4) by blast
qed

lemma dispatch_blocks:
  assumes "parses_back (dp_runtime P)" "dispatch P C path w = (Inr q, w')"
    and "dispatch_inputs P C path w = Inr (sf, active, sid, total_blocks, w2)" "active \<noteq> []"
  shows "\<exists>new lost. w_trace w' = w_trace w @ new
    \<and> partial_failures new = (if lost = [] then [] else [partial_failure_record sid lost])
    \<and> mset (concat (map (\<lambda>(s, raw). received_blocks (dp_runtime P) raw) (accepted_sends new)))
        + mset (concat (map assigned_blocks lost)) = mset [0..total_blocks - 1]"
proof -
  obtain as where as: "derive_shard_assignments total_blocks active (dc_base_port C) = Inr as"
    using dispatch_Inr_derives[OF assms(2-4)] by blast
  from dispatch_run_blocks[OF assms as] obtain new ok where
    "w_trace w' = w_trace w @ new"
    "partial_failures new = (if filter (\<lambda>a. \<not> ok a) as = [] then []
       else [partial_failure_record sid (filter (\<lambda>a. \<not> ok a) as)])"
    "map (\<lambda>(s, raw). received_blocks (dp_runtime P) raw) (accepted_sends new) = map assigned_blocks (filter ok as)"
    by blast
  then show ?thesis
    using mset_concat_map_split[of assigned_blocks ok as] assignments_partition[OF as]
    by (intro exI[of _ new] exI[of _ "filter (\<lambda>a. \<not> ok a) as"]) simp
qed

text \<open>
  What a partial-failure record on the trace says, read from its own fields: a lost shard is named
  by its residue and modulus, the blocks it stands for are the block ids of that residue class.
  The record is consistent if it is of the session dispatched, lists the senders of its shards in
  their order, and its counts are the numbers of blocks so named.
\<close>

definition blocks_named :: "int \<Rightarrow> int \<Rightarrow> int \<Rightarrow> BlockId list" where
  "blocks_named total_blocks residue modulus = filter (\<lambda>b. b mod modulus = residue) [0..total_blocks - 1]"

fun recorded_shards :: "log_record \<Rightarrow> (SenderId \<times> int \<times> int \<times> nat) list" where
  "recorded_shards (DispatchPartiallyFailed sid ids n shards) = shards"
| "recorded_shards _ = []"

definition recorded_lost :: "int \<Rightarrow> event list \<Rightarrow> BlockId list" where
  "recorded_lost total_blocks es = concat (map (\<lambda>(s, residue, modulus, count). blocks_named total_blocks residue modulus)
     (concat (map recorded_shards (partial_failures es))))"

definition recorded_losers :: "event list \<Rightarrow> SenderId list" where
  "recorded_losers es = map fst (concat (map recorded_shards (partial_failures es)))"

fun record_consistent :: "SessionId \<Rightarrow> int \<Rightarrow> log_record \<Rightarrow> bool" where
  "record_consistent sid total_blocks (DispatchPartiallyFailed sid' ids n shards) \<longleftrightarrow>
     sid' = sid \<and> shards \<noteq> [] \<and> ids = map fst shards
     \<and> (\<forall>(s, residue, modulus, count)\<in>set shards. count = length (blocks_named total_blocks residue modulus))
     \<and> n = sum_list (map (\<lambda>(s, residue, modulus, count). count) shards)"
| "record_consistent sid total_blocks _ \<longleftrightarrow> False"

lemma assigned_blocks_named:
  assumes "derive_shard_assignments tb active base = Inr as" "a \<in> set as"
  shows "assigned_blocks a = blocks_named tb (shard_residue a) (shard_modulus a)"
  using assms by (auto simp: derive_shard_assignments_Inr_iff assignment_at_def shard_blocks_def blocks_named_def)

lemma recorded_of_lost:
  assumes "set lost \<subseteq> set as" "derive_shard_assignments tb active base = Inr as"
    and "partial_failures new = (if lost = [] then [] else [partial_failure_record sid lost])"
  shows "recorded_lost tb new = concat (map assigned_blocks lost)" "recorded_losers new = map sa_sender_id lost"
    and "\<forall>r\<in>set (partial_failures new). record_consistent sid tb r"
proof -
  have named: "\<forall>a\<in>set lost. blocks_named tb (shard_residue a) (shard_modulus a) = assigned_blocks a"
    using assms(1) assigned_blocks_named[OF assms(2)] by auto
  then show "recorded_lost tb new = concat (map assigned_blocks lost)"
    by (auto simp: recorded_lost_def assms(3) partial_failure_record_def comp_def intro!: arg_cong[of _ _ concat])
  show "recorded_losers new = map sa_sender_id lost"
    by (simp add: recorded_losers_def assms(3) partial_failure_record_def comp_def)
  show "\<forall>r\<in>set (partial_failures new). record_consistent sid tb r"
    using named by (simp add: assms(3) partial_failure_record_def comp_def)
qed

text \<open>C1: A dispatch that returns accounts for every block of the file and every active sender. It logs
  at most one partial-failure record, of its own session, whose counts and sender ids fit the shards it
  names. The blocks that the senders compute from the messages the server accepted, together with
  the blocks of the residue classes the record names, are \<open>0 .. total_blocks - 1\<close>, each once; and
  every active sender either accepted a message or is in the record, once. Accepted means that
  \<open>send\<close> returned; what becomes of an accepted message is the server's and not on this record.\<close>

theorem dispatch_accounts_for_every_block:
  assumes "parses_back (dp_runtime P)" "dispatch P C path w = (Inr q, w')"
    and "dispatch_inputs P C path w = Inr (sf, active, sid, total_blocks, w2)" "active \<noteq> []"
  shows "\<exists>new. w_trace w' = w_trace w @ new \<and> length (partial_failures new) \<le> 1
    \<and> (\<forall>r\<in>set (partial_failures new). record_consistent sid total_blocks r)
    \<and> mset (concat (map (\<lambda>(s, raw). received_blocks (dp_runtime P) raw) (accepted_sends new)))
        + mset (recorded_lost total_blocks new) = mset [0..total_blocks - 1]
    \<and> mset (map fst (accepted_sends new) @ recorded_losers new) = mset active"
proof -
  obtain as where as: "derive_shard_assignments total_blocks active (dc_base_port C) = Inr as"
    using dispatch_Inr_derives[OF assms(2-4)] by blast
  from dispatch_run_blocks[OF assms as] obtain new ok where
    R: "w_trace w' = w_trace w @ new" "map fst (accepted_sends new) = map sa_sender_id (filter ok as)"
      "partial_failures new = (if filter (\<lambda>a. \<not> ok a) as = [] then []
         else [partial_failure_record sid (filter (\<lambda>a. \<not> ok a) as)])"
      "map (\<lambda>(s, raw). received_blocks (dp_runtime P) raw) (accepted_sends new) = map assigned_blocks (filter ok as)"
    by blast
  note rec = recorded_of_lost[OF filter_is_subset as R(3)]
  have "mset (map sa_sender_id (filter ok as)) + mset (map sa_sender_id (filter (\<lambda>a. \<not> ok a) as)) = mset active"
    using mset_concat_map_split[of "\<lambda>a. [sa_sender_id a]" ok as] distinct_assignments(3)[OF as] by simp
  then show ?thesis
    using R rec mset_concat_map_split[of assigned_blocks ok as] assignments_partition[OF as]
    by (intro exI[of _ new] conjI) simp_all
qed

theorem dispatch_accounts_for_every_block_witness:
  "\<exists>q w' new. dispatch example_ports example_config example_path example_world = (Inr q, w')
    \<and> w_trace w' = w_trace example_world @ new
    \<and> mset (concat (map (\<lambda>(s, raw). received_blocks unary_protobuf raw) (accepted_sends new)))
        + mset (recorded_lost 10 new) = mset [0..9]
    \<and> mset (map fst (accepted_sends new) @ recorded_losers new) = {#0, 2#}"
proof -
  obtain q w' where run: "dispatch example_ports example_config example_path example_world
      = (Inr q, w')"
    using example_dispatch by blast
  obtain sf sid w2 where inp: "dispatch_inputs example_ports example_config example_path example_world
      = Inr (sf, [0, 2], sid, 10, w2)"
    using example_inputs by blast
  from dispatch_accounts_for_every_block[OF example_regular(3) run inp, OF list.distinct(2)] run
  show ?thesis unfolding example_runtime by fastforce
qed

text \<open>C17: No dispatch sends a session to a sender twice: among the sends the server accepted during
  one dispatch, whatever it returns or raises, no sender occurs twice.\<close>

theorem dispatch_accepted_once_per_sender:
  assumes "dispatch P C path w = (r, w')"
  shows "\<exists>new. w_trace w' = w_trace w @ new \<and> distinct (map fst (accepted_sends new))"
  using assms
proof (cases rule: dispatch_cases)
  case (sent sf active sid tb w2 as)
  from dispatch_run[OF assms sent] obtain new ok pre post where
    R: "as = pre @ post" "w_trace w' = w_trace w @ new"
      "accepted_sends new = map (wire (dp_runtime P) C sid sf) (filter ok pre)"
    by blast
  have "distinct (map sa_sender_id (filter ok pre))"
    using distinct_assignments(1)[OF sent(2)] R(1) by (auto simp: distinct_map_filter)
  then show ?thesis using R(2) by (auto simp: R(3) map_fst_wire simp del: map_map)
next
  case (unsent new)
  then show ?thesis by auto
qed

theorem dispatch_accepted_once_per_sender_witness:
  "\<exists>r w' new. dispatch example_ports example_config example_path example_world = (r, w')
    \<and> w_trace w' = w_trace example_world @ new \<and> distinct (map fst (accepted_sends new))"
proof -
  obtain r w' where run: "dispatch example_ports example_config example_path example_world = (r, w')"
    by fastforce
  from dispatch_accepted_once_per_sender[OF run] run show ?thesis by blast
qed

text \<open>A dispatch of an acceptable file returns: with valid FEC parameters and base port, a hash of
  32 bytes, a file under the watch root with an ASCII path, a size the manifest's fields can hold, and
  ports that raise nothing but the two send errors, no
  exception leaves \<open>dispatch\<close>; in particular the senders it takes from the registry never make the
  planner raise, and no field of a message is given a value it cannot hold.\<close>

theorem dispatch_returns:
  assumes "ports_regular P" "accepts_fitting width (dp_runtime P)" "fec_valid (dc_fec_params C)"
    and "dispatch_fits width C path sz (length (last_seen (w_registry w1)))" "dp_stat P path = Inr sz"
    and "hasher_compute_hash P path w = (Inr hash, w1)" "registry_wf (w_registry w1)"
    and "file_acceptable C \<lparr>sf_path = path, size_bytes = sz, file_hash = hash\<rparr>"
  shows "\<exists>q w'. dispatch P C path w = (Inr q, w')"
  by (rule dispatch_returns_aux[OF assms])

theorem dispatch_returns_witness:
  "\<exists>q w'. dispatch example_ports example_config example_path example_world = (Inr q, w')"
  by (rule dispatch_returns[OF example_regular(1,2) example_config_valid _ example_hash example_wf
      example_acceptable])
    (simp add: example_ports_def)

end
