(* ===== verification/Transition.thy ===== *)
theory Transition imports Prelude begin

text \<open>
  Transition systems. A component that runs as tasks on the event loop is a set of initial states
  and a step relation whose steps are the stretches of code between two suspensions; a stretch
  runs alone, and stretches of different tasks interleave in any order. The locale
  \<open>invariant_system\<close> carries an invariant from the initial states over every step to the reachable
  states; each component interprets it with its own relation and invariant.
\<close>

inductive reachable :: "('s \<Rightarrow> bool) \<Rightarrow> ('s \<Rightarrow> 's \<Rightarrow> bool) \<Rightarrow> 's \<Rightarrow> bool" for init step where
  reachable_init: "init s \<Longrightarrow> reachable init step s"
| reachable_step: "reachable init step s \<Longrightarrow> step s t \<Longrightarrow> reachable init step t"

text \<open>Executions with their labels, for statements about a whole run.\<close>

inductive execution :: "('s \<Rightarrow> 'l \<Rightarrow> 's \<Rightarrow> bool) \<Rightarrow> 's \<Rightarrow> 'l list \<Rightarrow> 's \<Rightarrow> bool" for lstep where
  execution_nil: "execution lstep s [] s"
| execution_snoc: "execution lstep s ls t \<Longrightarrow> lstep t l u \<Longrightarrow> execution lstep s (ls @ [l]) u"

inductive_cases execution_snocE: "execution lstep s (ls @ [l]) u"

lemma execution_reachable:
  "execution lstep s ls t \<Longrightarrow> reachable init (\<lambda>s t. \<exists>l. lstep s l t) s \<Longrightarrow>
    reachable init (\<lambda>s t. \<exists>l. lstep s l t) t"
  by (induction rule: execution.induct) (blast intro: reachable_step)+

lemma execution_append:
  assumes "execution lstep t ms u" "execution lstep s ls t"
  shows "execution lstep s (ls @ ms) u"
  using assms
proof (induction rule: execution.induct)
  case (execution_snoc t ms u m v)
  from execution.execution_snoc[OF execution_snoc.IH[OF execution_snoc.prems] execution_snoc.hyps(2)]
  show ?case by simp
qed simp

lemma execution_Cons:
  assumes "lstep s l t" "execution lstep t ms u"
  shows "execution lstep s (l # ms) u"
  using execution_append[OF assms(2) execution_snoc[of lstep s "[]", OF execution_nil assms(1)]] by simp

locale invariant_system =
  fixes init :: "'s \<Rightarrow> bool" and step :: "'s \<Rightarrow> 's \<Rightarrow> bool" and inv :: "'s \<Rightarrow> bool"
  assumes inv_init: "init s \<Longrightarrow> inv s"
    and inv_step: "inv s \<Longrightarrow> step s t \<Longrightarrow> inv t"
begin

lemma inv_reachable: "reachable init step s \<Longrightarrow> inv s"
  by (induction rule: reachable.induct) (auto intro: inv_init inv_step)

end

text \<open>
  Refinement. Each concrete step shows at most one event of the specification, which depends on the
  state it starts in; a step that shows none leaves the abstract state alone. Then every run of the
  concrete system, with the events it shows, is a run of the specification.
\<close>

definition observed :: "('s \<Rightarrow> 'l \<Rightarrow> 's \<Rightarrow> bool) \<Rightarrow> ('s \<Rightarrow> 'l \<Rightarrow> 'e option) \<Rightarrow> 's \<Rightarrow> 'l \<times> 'e option \<Rightarrow> 's \<Rightarrow> bool" where
  "observed lstep observe s le t \<longleftrightarrow> lstep s (fst le) t \<and> snd le = observe s (fst le)"

definition shown :: "('l \<times> 'e option) list \<Rightarrow> 'e list" where
  "shown run = concat (map (\<lambda>le. case snd le of None \<Rightarrow> [] | Some e \<Rightarrow> [e]) run)"

lemma shown_simps [simp]:
  "shown [] = []" "shown (xs @ ys) = shown xs @ shown ys"
  "shown ((l, None) # xs) = shown xs" "shown ((l, Some e) # xs) = e # shown xs"
  by (simp_all add: shown_def)

lemma observed_snoc:
  "execution (observed lstep observe) s run t \<Longrightarrow> lstep t l u \<Longrightarrow> ev = observe t l \<Longrightarrow>
    execution (observed lstep observe) s (run @ [(l, ev)]) u"
  by (rule execution_snoc) (simp_all add: observed_def)

lemma execution_observed:
  "execution lstep s ls t \<Longrightarrow> \<exists>run. map fst run = ls \<and> execution (observed lstep observe) s run t"
proof (induction rule: execution.induct)
  case (execution_nil s)
  then show ?case by (intro exI[of _ "[]"]) (simp add: execution.execution_nil)
next
  case (execution_snoc s ls t l u)
  then obtain run where run: "map fst run = ls" "execution (observed lstep observe) s run t" by blast
  have "observed lstep observe t (l, observe t l) u"
    using execution_snoc.hyps(2) by (simp add: observed_def)
  from execution.execution_snoc[OF run(2) this] run(1)
  show ?case by (intro exI[of _ "run @ [(l, observe t l)]"]) simp
qed

lemma observed_execution:
  "execution (observed lstep observe) s run t \<Longrightarrow> execution lstep s (map fst run) t"
  by (induction rule: execution.induct)
    (auto simp: observed_def intro: execution.execution_nil execution.execution_snoc)

locale simulation =
  fixes lstep :: "'s \<Rightarrow> 'l \<Rightarrow> 's \<Rightarrow> bool" and inv :: "'s \<Rightarrow> bool" and abstr :: "'s \<Rightarrow> 'a"
    and astep :: "'a \<Rightarrow> 'e \<Rightarrow> 'a \<Rightarrow> bool" and observe :: "'s \<Rightarrow> 'l \<Rightarrow> 'e option"
  assumes keeps_inv: "inv s \<Longrightarrow> lstep s l t \<Longrightarrow> inv t"
    and silent_step: "inv s \<Longrightarrow> lstep s l t \<Longrightarrow> observe s l = None \<Longrightarrow> abstr t = abstr s"
    and visible_step: "inv s \<Longrightarrow> lstep s l t \<Longrightarrow> observe s l = Some e \<Longrightarrow> astep (abstr s) e (abstr t)"
begin

lemma simulates:
  assumes "execution (observed lstep observe) s run t" "inv s"
  shows "inv t \<and> execution astep (abstr s) (shown run) (abstr t)"
  using assms
proof (induction rule: execution.induct)
  case (execution_nil s)
  then show ?case by (simp add: execution.execution_nil)
next
  case (execution_snoc s run t le u)
  obtain l where le: "le = (l, observe t l)" and step: "lstep t l u"
    using execution_snoc.hyps(2) by (cases le) (simp add: observed_def)
  from execution_snoc have t: "inv t" "execution astep (abstr s) (shown run) (abstr t)" by auto
  show ?case
    using keeps_inv[OF t(1) step] silent_step[OF t(1) step] visible_step[OF t(1) step] t(2)
    by (cases "observe t l") (auto simp: le intro: execution.execution_snoc)
qed

end

end
