(* ===== verification/Uds.thy ===== *)
theory Uds imports Transition Dispatcher begin

text \<open>
  \<open>ipc/uds.py\<close>: the server the senders connect to. A connection is identified by its position in
  the order of acceptance, and so is its send queue: \<open>peers\<close> maps a sender to the connection
  whose queue it stores, and the source's test \<open>self._peers.get(sender_id) is send_queue\<close> is
  equality of positions. The steps are the stretches of \<open>_handle_peer\<close> and \<open>_write_loop\<close> between
  two suspensions, the send of another task, the consumer's \<open>get\<close> and the shutdown of \<open>serve\<close>.
  What the peers and the socket do (which packets arrive, when a write fails) is left open by the
  relation; a packet longer than the receive buffer is cut to it.
  Ghost fields record the payloads accepted for a connection, those written to it and the hello
  messages accepted; log records are not part of the state.
\<close>

section \<open>State\<close>

definition SEND_QUEUE_MAXSIZE :: nat where
  "SEND_QUEUE_MAXSIZE = 64"

definition INCOMING_QUEUE_MAXSIZE :: nat where
  "INCOMING_QUEUE_MAXSIZE = 256"

text \<open>A packet of a \<open>SOCK_SEQPACKET\<close> socket longer than the buffer is cut, without an error.\<close>

definition RECV_BUFFER_BYTES :: nat where
  "RECV_BUFFER_BYTES = 65536"

definition sock_recv :: "bytes \<Rightarrow> bytes" where
  "sock_recv packet = take RECV_BUFFER_BYTES packet"

datatype phase = Created | Reading | Putting SenderId bytes | Finished

datatype writer = NoWriter | WriterIdle | WriterSending bytes | WriterStopped

record connection =
  c_sender :: "SenderId option"
  c_queue :: "bytes list"
  c_phase :: phase
  c_writer :: writer
  c_open :: bool
  c_shut_rd :: bool
  c_error :: "exn option"
  c_accepted :: "bytes list"
  c_wire :: "bytes list"

record uds =
  expected_proto_hash :: bytes
  peers :: "(SenderId, nat) dict"
  conns :: "connection list"
  incoming :: "(SenderId \<times> bytes) list"
  listening :: bool
  hellos :: "sender_hello list"

definition UdsIpcServer :: "bytes \<Rightarrow> uds" where
  "UdsIpcServer expected =
     \<lparr>expected_proto_hash = expected, peers = [], conns = [], incoming = [], listening = True,
      hellos = []\<rparr>"

definition new_connection :: connection where
  "new_connection =
     \<lparr>c_sender = None, c_queue = [], c_phase = Created, c_writer = NoWriter, c_open = True,
      c_shut_rd = False, c_error = None, c_accepted = [], c_wire = []\<rparr>"

definition upd_conn :: "nat \<Rightarrow> (connection \<Rightarrow> connection) \<Rightarrow> uds \<Rightarrow> uds" where
  "upd_conn c f u = u\<lparr>conns := (conns u)[c := f (conns u ! c)]\<rparr>"

section \<open>Operations\<close>

text \<open>\<open>if self._peers.get(sender_id) is queue: self._peers.pop(sender_id, None)\<close>\<close>

definition pop_if_current :: "nat \<Rightarrow> SenderId \<Rightarrow> uds \<Rightarrow> uds" where
  "pop_if_current c s u =
     (if dict_get (peers u) s = Some c then u\<lparr>peers := dict_pop s (peers u)\<rparr> else u)"

text \<open>The \<open>finally\<close> block of \<open>_handle_peer\<close>.\<close>

definition cleanup :: "nat \<Rightarrow> uds \<Rightarrow> uds" where
  "cleanup c u =
     upd_conn c (\<lambda>k. k\<lparr>c_phase := Finished,
         c_writer := (if c_writer k = NoWriter then NoWriter else WriterStopped),
         c_open := False\<rparr>)
       (case c_sender (conns u ! c) of None \<Rightarrow> u | Some s \<Rightarrow> pop_if_current c s u)"

definition complete_handshake :: "protobuf \<Rightarrow> nat \<Rightarrow> bytes \<Rightarrow> uds \<Rightarrow> SenderId result \<times> uds" where
  "complete_handshake pb c raw u =
     (case decode pb raw of
        Inl e \<Rightarrow> (Inl e, u)
      | Inr (field_name, message) \<Rightarrow>
          if field_name \<noteq> SENDER_HELLO_FIELD_NAME
          then (Inl (IpcError (HandshakeError field_name)), u)
          else case message of
            SenderHello hello \<Rightarrow>
              (case verify_proto_hash (hello_sender_id hello) (hello_proto_hash hello)
                      (expected_proto_hash u) of
                 Inl e \<Rightarrow> (Inl e, u)
               | Inr _ \<Rightarrow>
                   (Inr (hello_sender_id hello),
                    u\<lparr>peers := dict_set (hello_sender_id hello) c (peers u),
                      hellos := hellos u @ [hello]\<rparr>))
          | _ \<Rightarrow> (Inl AttributeError, u))"

text \<open>\<open>await self._incoming.put(...)\<close>: at once when there is room, else the task waits.\<close>

definition put_incoming :: "nat \<Rightarrow> SenderId \<Rightarrow> bytes \<Rightarrow> uds \<Rightarrow> uds" where
  "put_incoming c s raw u =
     (if length (incoming u) < INCOMING_QUEUE_MAXSIZE
      then upd_conn c (\<lambda>k. k\<lparr>c_phase := Reading\<rparr>) (u\<lparr>incoming := incoming u @ [(s, raw)]\<rparr>)
      else upd_conn c (\<lambda>k. k\<lparr>c_phase := Putting s raw\<rparr>) u)"

fun handled :: "exn \<Rightarrow> bool" where
  "handled (IpcError (HandshakeError _)) = True"
| "handled (IpcError (ProtoHashMismatchError _ _ _)) = True"
| "handled _ = False"

text \<open>An exception that \<open>_handle_peer\<close> does not catch ends the task with it.\<close>

definition fail_peer :: "nat \<Rightarrow> exn \<Rightarrow> uds \<Rightarrow> uds" where
  "fail_peer c e u =
     cleanup c (if handled e then u else upd_conn c (\<lambda>k. k\<lparr>c_error := Some e\<rparr>) u)"

definition handle_recv :: "protobuf \<Rightarrow> nat \<Rightarrow> bytes \<Rightarrow> uds \<Rightarrow> uds" where
  "handle_recv pb c raw u =
     (if raw = [] then cleanup c u
      else case c_sender (conns u ! c) of
        Some s \<Rightarrow> put_incoming c s raw u
      | None \<Rightarrow>
          (case complete_handshake pb c raw u of
             (Inr s, u1) \<Rightarrow>
               put_incoming c s raw
                 (upd_conn c (\<lambda>k. k\<lparr>c_sender := Some s, c_writer := WriterIdle\<rparr>) u1)
           | (Inl e, u1) \<Rightarrow> fail_peer c e u1))"

text \<open>A cancelled peer task: one that never started has no \<open>finally\<close> to run.\<close>

definition cancel_peer :: "nat \<Rightarrow> uds \<Rightarrow> uds" where
  "cancel_peer c u =
     (case c_phase (conns u ! c) of
        Created \<Rightarrow> upd_conn c (\<lambda>k. k\<lparr>c_phase := Finished\<rparr>) u
      | Finished \<Rightarrow> u
      | _ \<Rightarrow> cleanup c u)"

definition accept_peer :: "uds \<Rightarrow> uds" where
  "accept_peer u = u\<lparr>conns := conns u @ [new_connection]\<rparr>"

text \<open>The \<open>finally\<close> block of \<open>serve\<close>.\<close>

definition serve_shutdown :: "uds \<Rightarrow> uds" where
  "serve_shutdown u = fold cancel_peer [0..<length (conns u)] (u\<lparr>listening := False\<rparr>)"

text \<open>The stretches of \<open>_write_loop\<close>: \<open>get\<close> returned, \<open>sock_sendall\<close> returned, it raised.\<close>

definition writer_take :: "nat \<Rightarrow> uds \<Rightarrow> uds" where
  "writer_take c u =
     upd_conn c (\<lambda>k. k\<lparr>c_writer := WriterSending (hd (c_queue k)), c_queue := tl (c_queue k)\<rparr>) u"

definition writer_sent :: "nat \<Rightarrow> bytes \<Rightarrow> uds \<Rightarrow> uds" where
  "writer_sent c payload u =
     upd_conn c (\<lambda>k. k\<lparr>c_writer := WriterIdle, c_wire := c_wire k @ [payload]\<rparr>) u"

definition writer_fails :: "nat \<Rightarrow> uds \<Rightarrow> uds" where
  "writer_fails c u =
     upd_conn c (\<lambda>k. k\<lparr>c_writer := WriterStopped, c_shut_rd := True\<rparr>)
       (case c_sender (conns u ! c) of None \<Rightarrow> u | Some s \<Rightarrow> pop_if_current c s u)"

definition uds_send :: "SenderId \<Rightarrow> bytes \<Rightarrow> uds \<Rightarrow> unit result \<times> uds" where
  "uds_send s payload u =
     (case dict_get (peers u) s of
        None \<Rightarrow> (Inl (IpcError (UnknownSenderError s)), u)
      | Some c \<Rightarrow>
          if length (c_queue (conns u ! c)) < SEND_QUEUE_MAXSIZE
          then (Inr (), upd_conn c (\<lambda>k. k\<lparr>c_queue := c_queue k @ [payload],
                  c_accepted := c_accepted k @ [payload]\<rparr>) u)
          else (Inl (IpcError (SendQueueFullError s)), u))"

section \<open>Steps\<close>

datatype uds_label =
    AcceptPeer
  | StartPeer nat
  | Recv nat bytes
  | RecvFails nat exn
  | PutDone nat
  | CancelPeer nat
  | WriterTakes nat
  | WriterSent nat
  | WriterFails nat
  | Send SenderId bytes
  | GetIncoming
  | Shutdown

inductive uds_step :: "protobuf \<Rightarrow> uds \<Rightarrow> uds_label \<Rightarrow> uds \<Rightarrow> bool" for pb where
  accept: "listening u \<Longrightarrow> uds_step pb u AcceptPeer (accept_peer u)"
| start: "c < length (conns u) \<Longrightarrow> c_phase (conns u ! c) = Created \<Longrightarrow>
    uds_step pb u (StartPeer c) (upd_conn c (\<lambda>k. k\<lparr>c_phase := Reading\<rparr>) u)"
| recv: "c < length (conns u) \<Longrightarrow> c_phase (conns u ! c) = Reading \<Longrightarrow>
    uds_step pb u (Recv c packet) (handle_recv pb c (sock_recv packet) u)"
| recv_fails: "c < length (conns u) \<Longrightarrow> c_phase (conns u ! c) = Reading \<Longrightarrow> \<not> handled e \<Longrightarrow>
    uds_step pb u (RecvFails c e) (fail_peer c e u)"
| put_done: "c < length (conns u) \<Longrightarrow> c_phase (conns u ! c) = Putting s raw \<Longrightarrow>
    length (incoming u) < INCOMING_QUEUE_MAXSIZE \<Longrightarrow>
    uds_step pb u (PutDone c) (put_incoming c s raw u)"
| cancel: "c < length (conns u) \<Longrightarrow> uds_step pb u (CancelPeer c) (cancel_peer c u)"
| take: "c < length (conns u) \<Longrightarrow> c_writer (conns u ! c) = WriterIdle \<Longrightarrow>
    c_queue (conns u ! c) \<noteq> [] \<Longrightarrow> uds_step pb u (WriterTakes c) (writer_take c u)"
| sent: "c < length (conns u) \<Longrightarrow> c_writer (conns u ! c) = WriterSending payload \<Longrightarrow>
    uds_step pb u (WriterSent c) (writer_sent c payload u)"
| fails: "c < length (conns u) \<Longrightarrow> c_writer (conns u ! c) = WriterSending payload \<Longrightarrow>
    uds_step pb u (WriterFails c) (writer_fails c u)"
| send: "uds_step pb u (Send s payload) (snd (uds_send s payload u))"
| get: "incoming u = m # ms \<Longrightarrow> uds_step pb u GetIncoming (u\<lparr>incoming := ms\<rparr>)"
| shutdown: "listening u \<Longrightarrow> uds_step pb u Shutdown (serve_shutdown u)"

section \<open>The invariant\<close>

definition live :: "connection \<Rightarrow> bool" where
  "live k \<longleftrightarrow> (c_phase k = Reading \<or> (\<exists>s raw. c_phase k = Putting s raw)) \<and> c_open k"

definition serves :: "SenderId \<Rightarrow> connection \<Rightarrow> bool" where
  "serves s k \<longleftrightarrow> c_sender k = Some s \<and> live k
     \<and> (c_writer k = WriterIdle \<or> (\<exists>p. c_writer k = WriterSending p))"

text \<open>A message as it comes out of \<open>sock_recv\<close>.\<close>

definition received :: "bytes \<Rightarrow> bool" where
  "received raw \<longleftrightarrow> raw \<noteq> [] \<and> length raw \<le> RECV_BUFFER_BYTES"

lemma received_sock_recv: "sock_recv packet \<noteq> [] \<Longrightarrow> received (sock_recv packet)"
  by (simp add: received_def sock_recv_def)

text \<open>Every accepted payload is on the wire, in flight or queued, in that order.\<close>

fun queue_ok :: "writer \<Rightarrow> bytes list \<Rightarrow> bytes list \<Rightarrow> bytes list \<Rightarrow> bool" where
  "queue_ok NoWriter acc sent queued \<longleftrightarrow> acc = [] \<and> sent = [] \<and> queued = []"
| "queue_ok WriterIdle acc sent queued \<longleftrightarrow> acc = sent @ queued"
| "queue_ok (WriterSending p) acc sent queued \<longleftrightarrow> acc = sent @ p # queued"
| "queue_ok WriterStopped acc sent queued \<longleftrightarrow>
     (\<exists>lost. acc = sent @ lost @ queued \<and> length lost \<le> 1)"

definition connection_ok :: "connection \<Rightarrow> bool" where
  "connection_ok k \<longleftrightarrow>
     length (c_queue k) \<le> SEND_QUEUE_MAXSIZE
     \<and> queue_ok (c_writer k) (c_accepted k) (c_wire k) (c_queue k)
     \<and> (c_sender k = None \<longleftrightarrow> c_writer k = NoWriter)
     \<and> (\<forall>s raw. c_phase k = Putting s raw \<longrightarrow> c_sender k = Some s \<and> received raw)
     \<and> (c_phase k = Created \<longrightarrow> c_sender k = None)
     \<and> (c_phase k \<noteq> Finished \<longrightarrow> c_open k)
     \<and> (c_phase k = Finished \<longrightarrow> c_writer k = NoWriter \<or> c_writer k = WriterStopped)
     \<and> (c_phase k = Finished \<longrightarrow> c_open k \<longrightarrow> c_sender k = None)"

definition known_senders :: "uds \<Rightarrow> SenderId set" where
  "known_senders u = hello_sender_id ` set (hellos u)"

definition uds_inv :: "uds \<Rightarrow> bool" where
  "uds_inv u \<longleftrightarrow> dict_wf (peers u)
     \<and> (\<forall>s c. dict_get (peers u) s = Some c \<longrightarrow> c < length (conns u) \<and> serves s (conns u ! c))
     \<and> (\<forall>c < length (conns u). connection_ok (conns u ! c)
          \<and> (\<forall>s. c_sender (conns u ! c) = Some s \<longrightarrow> s \<in> known_senders u))
     \<and> length (incoming u) \<le> INCOMING_QUEUE_MAXSIZE
     \<and> (\<forall>(s, raw) \<in> set (incoming u). s \<in> known_senders u \<and> received raw)
     \<and> (\<forall>h \<in> set (hellos u). hello_proto_hash h = expected_proto_hash u)"

lemma upd_conn_fields [simp]:
  "peers (upd_conn c f u) = peers u" "incoming (upd_conn c f u) = incoming u"
  "hellos (upd_conn c f u) = hellos u" "expected_proto_hash (upd_conn c f u) = expected_proto_hash u"
  "listening (upd_conn c f u) = listening u" "length (conns (upd_conn c f u)) = length (conns u)"
  "known_senders (upd_conn c f u) = known_senders u"
  by (simp_all add: upd_conn_def known_senders_def)

lemma conns_upd_conn:
  "conns (upd_conn c f u) ! d
    = (if d = c \<and> c < length (conns u) then f (conns u ! c) else conns u ! d)"
  by (auto simp: upd_conn_def nth_list_update list_update_beyond not_less)

lemma pop_if_current_fields [simp]:
  "conns (pop_if_current c s u) = conns u" "incoming (pop_if_current c s u) = incoming u"
  "hellos (pop_if_current c s u) = hellos u" "listening (pop_if_current c s u) = listening u"
  "expected_proto_hash (pop_if_current c s u) = expected_proto_hash u"
  "known_senders (pop_if_current c s u) = known_senders u"
  by (simp_all add: pop_if_current_def known_senders_def)

lemma get_pop_if_current:
  "dict_get (peers (pop_if_current c s u)) s'
    = (if s' = s \<and> dict_get (peers u) s = Some c then None else dict_get (peers u) s')"
  by (simp add: pop_if_current_def)

lemma wf_pop_if_current: "dict_wf (peers u) \<Longrightarrow> dict_wf (peers (pop_if_current c s u))"
  by (simp add: pop_if_current_def dict.wf_pop)

text \<open>Changing one connection keeps the invariant when it stays well-formed and serving.\<close>

lemma inv_upd_conn:
  assumes "uds_inv u" "c < length (conns u)"
    and "connection_ok (f (conns u ! c))"
    and "\<And>s. c_sender (f (conns u ! c)) = Some s \<Longrightarrow> s \<in> known_senders u"
    and "\<And>s. dict_get (peers u) s = Some c \<Longrightarrow> serves s (f (conns u ! c))"
  shows "uds_inv (upd_conn c f u)"
  using assms unfolding uds_inv_def by (simp add: conns_upd_conn)

lemma inv_pop_if_current: "uds_inv u \<Longrightarrow> uds_inv (pop_if_current c s u)"
  unfolding uds_inv_def by (simp add: get_pop_if_current wf_pop_if_current)

lemma inv_connection: "uds_inv u \<Longrightarrow> c < length (conns u) \<Longrightarrow> connection_ok (conns u ! c)"
  by (simp add: uds_inv_def)

lemma inv_known:
  "uds_inv u \<Longrightarrow> c < length (conns u) \<Longrightarrow> c_sender (conns u ! c) = Some s \<Longrightarrow> s \<in> known_senders u"
  by (simp add: uds_inv_def)

lemma inv_serves: "uds_inv u \<Longrightarrow> dict_get (peers u) s = Some c \<Longrightarrow> serves s (conns u ! c)"
  by (simp add: uds_inv_def)

lemma inv_peer_index: "uds_inv u \<Longrightarrow> dict_get (peers u) s = Some c \<Longrightarrow> c < length (conns u)"
  by (simp add: uds_inv_def)

text \<open>A connection that no peer maps to may change as long as it stays well-formed.\<close>

lemma inv_unmapped:
  assumes "uds_inv u" "c < length (conns u)"
    and "c_sender (f (conns u ! c)) = c_sender (conns u ! c)" "connection_ok (f (conns u ! c))"
    and "\<And>s. dict_get (peers u) s \<noteq> Some c"
  shows "uds_inv (upd_conn c f u)"
  using assms inv_known[OF assms(1,2)] by (intro inv_upd_conn) auto

text \<open>Dropping the entry of a connection, as both tasks do: afterwards no peer maps to it.\<close>

definition drop_peer :: "nat \<Rightarrow> uds \<Rightarrow> uds" where
  "drop_peer c u = (case c_sender (conns u ! c) of None \<Rightarrow> u | Some s \<Rightarrow> pop_if_current c s u)"

lemma drop_peer_fields [simp]:
  "conns (drop_peer c u) = conns u" "incoming (drop_peer c u) = incoming u"
  "hellos (drop_peer c u) = hellos u" "listening (drop_peer c u) = listening u"
  "expected_proto_hash (drop_peer c u) = expected_proto_hash u"
  by (simp_all add: drop_peer_def split: option.splits)

lemma inv_drop_peer: "uds_inv u \<Longrightarrow> uds_inv (drop_peer c u)"
  by (simp add: drop_peer_def inv_pop_if_current split: option.splits)

lemma get_drop_peer:
  assumes "uds_inv u"
  shows "dict_get (peers (drop_peer c u)) s
    = (if dict_get (peers u) s = Some c then None else dict_get (peers u) s)"
  using inv_serves[OF assms, of s c]
  by (auto simp: drop_peer_def get_pop_if_current serves_def split: option.splits)

lemma cleanup_eq:
  "cleanup c u = upd_conn c (\<lambda>k. k\<lparr>c_phase := Finished,
     c_writer := (if c_writer k = NoWriter then NoWriter else WriterStopped),
     c_open := False\<rparr>) (drop_peer c u)"
  by (simp add: cleanup_def drop_peer_def)

lemma writer_fails_eq:
  "writer_fails c u
    = upd_conn c (\<lambda>k. k\<lparr>c_writer := WriterStopped, c_shut_rd := True\<rparr>) (drop_peer c u)"
  by (simp add: writer_fails_def drop_peer_def)

lemma queue_ok_stopped:
  "queue_ok w acc sent queued \<Longrightarrow> w \<noteq> NoWriter \<Longrightarrow>
    \<exists>lost. acc = sent @ lost @ queued \<and> length lost \<le> Suc 0"
proof (cases w)
  case (WriterSending p)
  then show "queue_ok w acc sent queued \<Longrightarrow> ?thesis" by (intro exI[of _ "[p]"]) simp
qed auto

lemma inv_cleanup:
  assumes "uds_inv u" "c < length (conns u)"
  shows "uds_inv (cleanup c u)"
  unfolding cleanup_eq using inv_connection[OF assms]
  by (intro inv_unmapped)
    (auto simp: assms inv_drop_peer get_drop_peer connection_ok_def intro: queue_ok_stopped)

lemma inv_writer_fails:
  assumes "uds_inv u" "c < length (conns u)" "c_writer (conns u ! c) \<noteq> NoWriter"
  shows "uds_inv (writer_fails c u)"
  unfolding writer_fails_eq using inv_connection[OF assms(1,2)] assms(3)
  by (intro inv_unmapped)
    (auto simp: assms inv_drop_peer get_drop_peer connection_ok_def intro: queue_ok_stopped)

lemma inv_phase:
  assumes inv: "uds_inv u" "c < length (conns u)" and "c_phase (conns u ! c) \<noteq> Finished"
    and "ph = Reading \<or> (\<exists>s raw. ph = Putting s raw \<and> c_sender (conns u ! c) = Some s \<and> received raw)"
  shows "uds_inv (upd_conn c (\<lambda>k. k\<lparr>c_phase := ph\<rparr>) u)"
proof (rule inv_upd_conn[OF inv])
  show "connection_ok ((conns u ! c)\<lparr>c_phase := ph\<rparr>)"
    using inv_connection[OF inv] assms(3,4) by (auto simp: connection_ok_def)
  show "s \<in> known_senders u" if "c_sender ((conns u ! c)\<lparr>c_phase := ph\<rparr>) = Some s" for s
    using inv_known[OF inv] that by simp
  show "serves s ((conns u ! c)\<lparr>c_phase := ph\<rparr>)" if "dict_get (peers u) s = Some c" for s
    using inv_serves[OF inv(1) that] assms(4) by (auto simp: serves_def live_def)
qed

lemma inv_put_incoming:
  assumes "uds_inv u" "c < length (conns u)" "c_sender (conns u ! c) = Some s"
    and "c_phase (conns u ! c) \<noteq> Finished" "received raw"
  shows "uds_inv (put_incoming c s raw u)"
proof (cases "length (incoming u) < INCOMING_QUEUE_MAXSIZE")
  case True
  let ?u = "u\<lparr>incoming := incoming u @ [(s, raw)]\<rparr>"
  have "uds_inv ?u"
    using assms(1,5) inv_known[OF assms(1-3)] True by (auto simp: uds_inv_def known_senders_def)
  then have "uds_inv (upd_conn c (\<lambda>k. k\<lparr>c_phase := Reading\<rparr>) ?u)"
    by (rule inv_phase) (use assms in auto)
  with True show ?thesis by (simp add: put_incoming_def)
next
  case False
  then show ?thesis using inv_phase[OF assms(1,2,4)] assms(3,5) by (simp add: put_incoming_def)
qed

lemma inv_fail_peer:
  assumes "uds_inv u" "c < length (conns u)"
  shows "uds_inv (fail_peer c e u)"
proof (cases "handled e")
  case True
  then show ?thesis by (simp add: fail_peer_def inv_cleanup assms)
next
  case False
  have "uds_inv (upd_conn c (\<lambda>k. k\<lparr>c_error := Some e\<rparr>) u)"
    using assms inv_connection[OF assms] inv_known[OF assms] inv_serves[OF assms(1)]
    by (intro inv_upd_conn) (auto simp: connection_ok_def serves_def live_def)
  with False show ?thesis by (simp add: fail_peer_def inv_cleanup assms)
qed

lemma complete_handshake_Inr_iff:
  "complete_handshake pb c raw u = (Inr s, u1) \<longleftrightarrow>
     (\<exists>hello. decode pb raw = Inr (SENDER_HELLO_FIELD_NAME, SenderHello hello)
        \<and> hello_proto_hash hello = expected_proto_hash u \<and> s = hello_sender_id hello
        \<and> u1 = u\<lparr>peers := dict_set s c (peers u), hellos := hellos u @ [hello]\<rparr>)"
  by (auto simp: complete_handshake_def verify_proto_hash_def split: sum.splits message.splits)

lemma complete_handshake_Inl: "complete_handshake pb c raw u = (Inl e, u1) \<Longrightarrow> u1 = u"
  by (auto simp: complete_handshake_def split: sum.splits message.splits prod.splits if_splits)

text \<open>The connection after a successful handshake serves the sender that said hello.\<close>

definition register_peer :: "nat \<Rightarrow> sender_hello \<Rightarrow> uds \<Rightarrow> uds" where
  "register_peer c hello u =
     upd_conn c (\<lambda>k. k\<lparr>c_sender := Some (hello_sender_id hello), c_writer := WriterIdle\<rparr>)
       (u\<lparr>peers := dict_set (hello_sender_id hello) c (peers u), hellos := hellos u @ [hello]\<rparr>)"

lemma register_peer_fields [simp]:
  "peers (register_peer c hello u) = dict_set (hello_sender_id hello) c (peers u)"
  "incoming (register_peer c hello u) = incoming u"
  "hellos (register_peer c hello u) = hellos u @ [hello]"
  "expected_proto_hash (register_peer c hello u) = expected_proto_hash u"
  "listening (register_peer c hello u) = listening u"
  "length (conns (register_peer c hello u)) = length (conns u)"
  by (simp_all add: register_peer_def)

lemma inv_register_peer:
  assumes "uds_inv u" "c < length (conns u)" "c_phase (conns u ! c) = Reading"
    and "c_sender (conns u ! c) = None" "hello_proto_hash hello = expected_proto_hash u"
  shows "uds_inv (register_peer c hello u)"
proof -
  have none: "dict_get (peers u) s \<noteq> Some c" for s
    using inv_serves[OF assms(1), of s c] assms(4) by (auto simp: serves_def)
  have ok: "connection_ok (conns u ! c)" by (rule inv_connection[OF assms(1,2)])
  let ?f = "\<lambda>k. k\<lparr>c_sender := Some (hello_sender_id hello), c_writer := WriterIdle\<rparr>"
  have f: "connection_ok (?f (conns u ! c))" "serves (hello_sender_id hello) (?f (conns u ! c))"
    using ok assms(3,4) by (auto simp: connection_ok_def serves_def live_def)
  have known: "known_senders (register_peer c hello u)
      = insert (hello_sender_id hello) (known_senders u)"
    by (auto simp: register_peer_def known_senders_def)
  have conns: "conns (register_peer c hello u) ! d
      = (if d = c then ?f (conns u ! c) else conns u ! d)" for d
    using assms(2) by (simp add: register_peer_def conns_upd_conn)
  show ?thesis
    unfolding uds_inv_def
  proof (intro conjI allI impI ballI)
    fix s d
    assume "dict_get (peers (register_peer c hello u)) s = Some d"
    then show "d < length (conns (register_peer c hello u))"
      "serves s (conns (register_peer c hello u) ! d)"
      using assms(1,2) f(2) none[of s] inv_serves inv_peer_index
      by (auto simp: conns split: if_splits)
  next
    fix d
    assume "d < length (conns (register_peer c hello u))"
    then show "connection_ok (conns (register_peer c hello u) ! d)"
      using f(1) inv_connection[OF assms(1)] by (simp add: conns)
  next
    fix d s
    assume "d < length (conns (register_peer c hello u))"
      "c_sender (conns (register_peer c hello u) ! d) = Some s"
    then show "s \<in> known_senders (register_peer c hello u)"
      using inv_known[OF assms(1)] by (auto simp: conns known split: if_splits)
  qed (use assms(1,5) in \<open>auto simp: uds_inv_def known\<close>)
qed

lemma handle_recv_cases:
  assumes "raw \<noteq> []"
  obtains (again) s where "c_sender (conns u ! c) = Some s"
      "handle_recv pb c raw u = put_incoming c s raw u"
    | (hello) hello where "c_sender (conns u ! c) = None"
      "decode pb raw = Inr (SENDER_HELLO_FIELD_NAME, SenderHello hello)"
      "hello_proto_hash hello = expected_proto_hash u"
      "handle_recv pb c raw u
        = put_incoming c (hello_sender_id hello) raw (register_peer c hello u)"
    | (refused) e where "c_sender (conns u ! c) = None"
      "fst (complete_handshake pb c raw u) = Inl e" "handle_recv pb c raw u = fail_peer c e u"
proof (cases "c_sender (conns u ! c)")
  case (Some s)
  with assms show ?thesis by (intro again) (simp_all add: handle_recv_def)
next
  case None
  obtain r u1 where h: "complete_handshake pb c raw u = (r, u1)" by fastforce
  show ?thesis
  proof (cases r)
    case (Inl e)
    with h None assms complete_handshake_Inl[of pb c raw u e u1] show ?thesis
      by (intro refused) (simp_all add: handle_recv_def)
  next
    case (Inr s)
    with h obtain hl where "decode pb raw = Inr (SENDER_HELLO_FIELD_NAME, SenderHello hl)"
      "hello_proto_hash hl = expected_proto_hash u" "s = hello_sender_id hl"
      "u1 = u\<lparr>peers := dict_set s c (peers u), hellos := hellos u @ [hl]\<rparr>"
      by (auto simp: complete_handshake_Inr_iff)
    with h Inr None assms show ?thesis
      by (intro hello) (simp_all add: handle_recv_def register_peer_def)
  qed
qed

lemma inv_handle_recv:
  assumes "uds_inv u" "c < length (conns u)" "c_phase (conns u ! c) = Reading"
    and "raw \<noteq> [] \<Longrightarrow> received raw"
  shows "uds_inv (handle_recv pb c raw u)"
proof (cases "raw = []")
  case True
  then show ?thesis by (simp add: handle_recv_def inv_cleanup assms)
next
  case False
  then show ?thesis
  proof (cases rule: handle_recv_cases[of raw u c pb])
    case (again s)
    then show ?thesis using inv_put_incoming[OF assms(1,2)] assms(3,4) False by simp
  next
    case (hello hello)
    note inv = inv_register_peer[OF assms(1-3) hello(1,3)]
    show ?thesis unfolding hello(4)
      by (rule inv_put_incoming[OF inv])
        (use assms False in \<open>auto simp: register_peer_def conns_upd_conn\<close>)
  next
    case (refused e)
    then show ?thesis by (simp add: inv_fail_peer assms)
  qed
qed

lemma inv_cancel_peer:
  assumes "uds_inv u" "c < length (conns u)"
  shows "uds_inv (cancel_peer c u)"
proof (cases "c_phase (conns u ! c)")
  case Created
  have "uds_inv (upd_conn c (\<lambda>k. k\<lparr>c_phase := Finished\<rparr>) u)"
  proof (rule inv_unmapped[OF assms])
    show "connection_ok ((conns u ! c)\<lparr>c_phase := Finished\<rparr>)"
      using inv_connection[OF assms] Created by (auto simp: connection_ok_def)
    show "dict_get (peers u) s \<noteq> Some c" for s
      using inv_serves[OF assms(1), of s c] Created by (auto simp: serves_def live_def)
  qed simp
  with Created show ?thesis by (simp add: cancel_peer_def)
qed (auto simp: cancel_peer_def inv_cleanup assms)

lemma length_conns [simp]:
  "length (conns (cleanup c u)) = length (conns u)"
  "length (conns (cancel_peer c u)) = length (conns u)"
  by (auto simp: cleanup_eq cancel_peer_def split: phase.splits)

lemma inv_cancel_all:
  "uds_inv u \<Longrightarrow> \<forall>c\<in>set cs. c < length (conns u) \<Longrightarrow> uds_inv (fold cancel_peer cs u)"
  by (induction cs arbitrary: u) (auto simp: inv_cancel_peer)

lemma inv_listening: "uds_inv (u\<lparr>listening := b\<rparr>) = uds_inv u"
  by (simp add: uds_inv_def known_senders_def)

lemma inv_serve_shutdown: "uds_inv u \<Longrightarrow> uds_inv (serve_shutdown u)"
  by (simp add: serve_shutdown_def inv_cancel_all inv_listening)

lemma inv_accept:
  assumes "uds_inv u"
  shows "uds_inv (accept_peer u)"
proof -
  have new: "connection_ok new_connection" "c_sender new_connection = None"
    by (simp_all add: connection_ok_def new_connection_def)
  have conns: "conns (accept_peer u) ! c
      = (if c = length (conns u) then new_connection else conns u ! c)"
    if "c < length (conns (accept_peer u))" for c
    using that by (auto simp: accept_peer_def nth_append)
  show ?thesis
    unfolding uds_inv_def
  proof (intro conjI allI impI ballI)
    fix s c
    assume "dict_get (peers (accept_peer u)) s = Some c"
    then have s: "dict_get (peers u) s = Some c" by (simp add: accept_peer_def)
    from inv_peer_index[OF assms s] show "c < length (conns (accept_peer u))"
      by (simp add: accept_peer_def)
    with conns inv_serves[OF assms s] inv_peer_index[OF assms s]
    show "serves s (conns (accept_peer u) ! c)" by simp
  next
    fix c
    assume c: "c < length (conns (accept_peer u))"
    then have "c = length (conns u) \<or> c < length (conns u)" by (auto simp: accept_peer_def)
    with conns[OF c] new(1) inv_connection[OF assms, of c]
    show "connection_ok (conns (accept_peer u) ! c)" by auto
  next
    fix c s
    assume c: "c < length (conns (accept_peer u))" "c_sender (conns (accept_peer u) ! c) = Some s"
    then have "c < length (conns u)" "c_sender (conns u ! c) = Some s"
      using conns[OF c(1)] new(2) by (auto simp: accept_peer_def split: if_splits)
    from inv_known[OF assms this] show "s \<in> known_senders (accept_peer u)"
      by (simp add: accept_peer_def known_senders_def)
  qed (use assms in \<open>auto simp: uds_inv_def accept_peer_def known_senders_def\<close>)
qed

text \<open>The writer's stretches move a payload along.\<close>

lemma inv_writer:
  assumes inv: "uds_inv u" "c < length (conns u)"
    and f: "connection_ok (f (conns u ! c))" "c_sender (f (conns u ! c)) = c_sender (conns u ! c)"
      "c_phase (f (conns u ! c)) = c_phase (conns u ! c)"
      "c_open (f (conns u ! c)) = c_open (conns u ! c)"
      "c_writer (f (conns u ! c)) = WriterIdle \<or> (\<exists>p. c_writer (f (conns u ! c)) = WriterSending p)"
  shows "uds_inv (upd_conn c f u)"
proof (rule inv_upd_conn[of u c f, OF inv f(1)])
  show "s \<in> known_senders u" if "c_sender (f (conns u ! c)) = Some s" for s
    using inv_known[OF inv] that f(2) by simp
  show "serves s (f (conns u ! c))" if "dict_get (peers u) s = Some c" for s
    using inv_serves[OF inv(1) that] f by (auto simp: serves_def live_def)
qed

lemma inv_writer_take:
  assumes "uds_inv u" "c < length (conns u)" "c_writer (conns u ! c) = WriterIdle"
    and "c_queue (conns u ! c) \<noteq> []"
  shows "uds_inv (writer_take c u)"
  unfolding writer_take_def
  by (rule inv_writer[OF assms(1,2)])
    (use inv_connection[OF assms(1,2)] assms(3,4) in \<open>auto simp: connection_ok_def\<close>)

lemma inv_writer_sent:
  assumes "uds_inv u" "c < length (conns u)" "c_writer (conns u ! c) = WriterSending p"
  shows "uds_inv (writer_sent c p u)"
  unfolding writer_sent_def
  by (rule inv_writer[OF assms(1,2)])
    (use inv_connection[OF assms(1,2)] assms(3) in \<open>auto simp: connection_ok_def\<close>)

lemma inv_send:
  assumes "uds_inv u"
  shows "uds_inv (snd (uds_send s p u))"
proof (cases "dict_get (peers u) s")
  case None
  with assms show ?thesis by (simp add: uds_send_def)
next
  case (Some c)
  let ?k = "conns u ! c" and ?f = "\<lambda>k. k\<lparr>c_queue := c_queue k @ [p], c_accepted := c_accepted k @ [p]\<rparr>"
  have serv: "serves s ?k" and c: "c < length (conns u)"
    using inv_serves[OF assms Some] inv_peer_index[OF assms Some] .
  have "uds_inv (upd_conn c ?f u)" if "length (c_queue ?k) < SEND_QUEUE_MAXSIZE"
    by (rule inv_writer[OF assms c])
      (use inv_connection[OF assms c] serv that in \<open>auto simp: connection_ok_def serves_def\<close>)
  with Some assms show ?thesis by (simp add: uds_send_def)
qed

lemma inv_get: "uds_inv u \<Longrightarrow> incoming u = m # ms \<Longrightarrow> uds_inv (u\<lparr>incoming := ms\<rparr>)"
  by (simp add: uds_inv_def known_senders_def)

lemma inv_uds_step: "uds_step pb u l u' \<Longrightarrow> uds_inv u \<Longrightarrow> uds_inv u'"
proof (induction rule: uds_step.induct)
  case (put_done c u s raw)
  then have "c_sender (conns u ! c) = Some s" "received raw"
    using inv_connection[of u c] by (auto simp: connection_ok_def)
  with put_done show ?case by (intro inv_put_incoming) auto
qed (auto intro: inv_accept inv_phase inv_handle_recv received_sock_recv inv_fail_peer inv_cancel_peer inv_writer_take
    inv_writer_sent inv_writer_fails inv_send inv_get inv_serve_shutdown)

text \<open>What the operations leave alone.\<close>

lemma expected_unchanged [simp]:
  "expected_proto_hash (cleanup c u) = expected_proto_hash u"
  "expected_proto_hash (fail_peer c e u) = expected_proto_hash u"
  "expected_proto_hash (put_incoming c s raw u) = expected_proto_hash u"
  "expected_proto_hash (cancel_peer c u) = expected_proto_hash u"
  "expected_proto_hash (fold cancel_peer cs u) = expected_proto_hash u"
  "expected_proto_hash (snd (uds_send s raw u)) = expected_proto_hash u"
proof -
  show cleanup: "expected_proto_hash (cleanup c u) = expected_proto_hash u" for c u
    by (simp add: cleanup_eq)
  show "expected_proto_hash (fail_peer c e u) = expected_proto_hash u"
    by (simp add: fail_peer_def cleanup)
  show "expected_proto_hash (put_incoming c s raw u) = expected_proto_hash u"
    by (simp add: put_incoming_def)
  show cancel: "expected_proto_hash (cancel_peer c u) = expected_proto_hash u" for c u
    by (simp add: cancel_peer_def cleanup split: phase.splits)
  show "expected_proto_hash (fold cancel_peer cs u) = expected_proto_hash u"
    by (induction cs arbitrary: u) (simp_all add: cancel)
  show "expected_proto_hash (snd (uds_send s raw u)) = expected_proto_hash u"
    by (simp add: uds_send_def split: option.splits)
qed

lemma expected_handle_recv [simp]:
  "expected_proto_hash (handle_recv pb c raw u) = expected_proto_hash u"
proof (cases "raw = []")
  case True
  then show ?thesis by (simp add: handle_recv_def)
next
  case False
  then show ?thesis by (cases rule: handle_recv_cases[of raw u c pb]) simp_all
qed

lemma expected_step: "uds_step pb u l u' \<Longrightarrow> expected_proto_hash u' = expected_proto_hash u"
  by (induction rule: uds_step.induct)
    (auto simp: accept_peer_def writer_take_def writer_sent_def writer_fails_eq serve_shutdown_def)

definition uds_init :: "bytes \<Rightarrow> uds \<Rightarrow> bool" where
  "uds_init expected u \<longleftrightarrow> u = UdsIpcServer expected"

abbreviation uds_reachable :: "protobuf \<Rightarrow> bytes \<Rightarrow> uds \<Rightarrow> bool" where
  "uds_reachable pb expected \<equiv> reachable (uds_init expected) (\<lambda>u u'. \<exists>l. uds_step pb u l u')"

lemma inv_uds_init: "uds_inv (UdsIpcServer expected)"
  by (simp add: UdsIpcServer_def uds_inv_def known_senders_def)

lemma expected_init: "expected_proto_hash (UdsIpcServer expected) = expected"
  by (simp add: UdsIpcServer_def)

interpretation uds_system: invariant_system "uds_init expected" "\<lambda>u u'. \<exists>l. uds_step pb u l u'"
    "\<lambda>u. uds_inv u \<and> expected_proto_hash u = expected"
  for expected pb
  by unfold_locales
    (auto simp: uds_init_def inv_uds_init expected_init dest: expected_step intro: inv_uds_step)

lemma reachable_inv: "uds_reachable pb expected u \<Longrightarrow> uds_inv u"
  using uds_system.inv_reachable by blast

section \<open>Routing\<close>

fun label_connection :: "uds_label \<Rightarrow> nat option" where
  "label_connection (StartPeer c) = Some c"
| "label_connection (Recv c _) = Some c"
| "label_connection (RecvFails c _) = Some c"
| "label_connection (PutDone c) = Some c"
| "label_connection (CancelPeer c) = Some c"
| "label_connection (WriterTakes c) = Some c"
| "label_connection (WriterSent c) = Some c"
| "label_connection (WriterFails c) = Some c"
| "label_connection _ = None"

lemma peers_put_incoming [simp]: "peers (put_incoming c s raw u) = peers u"
  by (simp add: put_incoming_def)

lemma peers_cleanup:
  "uds_inv u \<Longrightarrow> dict_get (peers (cleanup c u)) s
    = (if dict_get (peers u) s = Some c then None else dict_get (peers u) s)"
  by (simp add: cleanup_eq get_drop_peer)

lemma peers_fail_peer:
  assumes "uds_inv u" "c < length (conns u)"
  shows "dict_get (peers (fail_peer c e u)) s
    = (if dict_get (peers u) s = Some c then None else dict_get (peers u) s)"
proof -
  have "uds_inv (upd_conn c (\<lambda>k. k\<lparr>c_error := Some e\<rparr>) u)"
    using assms inv_connection[OF assms] inv_known[OF assms] inv_serves[OF assms(1)]
    by (intro inv_upd_conn) (auto simp: connection_ok_def serves_def live_def)
  then show ?thesis by (simp add: fail_peer_def peers_cleanup assms(1))
qed

lemma peers_cancel_peer:
  "uds_inv u \<Longrightarrow> dict_get (peers u) s \<noteq> Some c \<Longrightarrow>
    dict_get (peers (cancel_peer c u)) s = dict_get (peers u) s"
  by (simp add: cancel_peer_def peers_cleanup split: phase.splits)

lemma peers_send [simp]: "peers (snd (uds_send s raw u)) = peers u"
  by (simp add: uds_send_def split: option.splits)

lemma peers_handle_recv:
  assumes "uds_inv u" "c < length (conns u)" "dict_get (peers u) s \<noteq> Some c"
  shows "dict_get (peers (handle_recv pb c raw u)) s = dict_get (peers u) s
    \<or> dict_get (peers (handle_recv pb c raw u)) s = Some c"
proof (cases "raw = []")
  case True
  then show ?thesis by (simp add: handle_recv_def peers_cleanup assms)
next
  case False
  then show ?thesis
    by (cases rule: handle_recv_cases[of raw u c pb]) (simp_all add: peers_fail_peer assms)
qed

lemma peers_step:
  assumes "uds_step pb u l u'" "uds_inv u" "dict_get (peers u) s = Some c"
    and "label_connection l \<noteq> Some c" "l \<noteq> Shutdown"
  shows "dict_get (peers u') s = Some c
    \<or> (\<exists>d raw. l = Recv d raw \<and> d \<noteq> c \<and> dict_get (peers u') s = Some d)"
  using assms
proof (induction rule: uds_step.induct)
  case (recv d u packet)
  then show ?case using peers_handle_recv[of u d s pb "sock_recv packet"] by auto
qed (auto simp: accept_peer_def peers_fail_peer peers_cancel_peer writer_take_def writer_sent_def
    writer_fails_eq get_drop_peer)

section \<open>The server is an IPC port\<close>

definition is_connected :: "uds \<Rightarrow> SenderId \<Rightarrow> bool" where
  "is_connected u s \<longleftrightarrow> dict_get (peers u) s \<noteq> None"

definition pending_for :: "uds \<Rightarrow> SenderId \<Rightarrow> bytes list" where
  "pending_for u s = (case dict_get (peers u) s of None \<Rightarrow> [] | Some c \<Rightarrow> c_queue (conns u ! c))"

text \<open>Two senders never share a connection, so a send reaches one sender's queue only.\<close>

lemma peers_injective:
  "uds_inv u \<Longrightarrow> dict_get (peers u) s = Some c \<Longrightarrow> dict_get (peers u) s' = Some c \<Longrightarrow> s = s'"
  using inv_serves[of u s c] inv_serves[of u s' c] by (simp add: serves_def)

lemma pending_for_send:
  assumes "uds_inv u" "dict_get (peers u) s = Some c" "length (c_queue (conns u ! c)) < SEND_QUEUE_MAXSIZE"
  shows "pending_for (snd (uds_send s p u)) = (pending_for u)(s := pending_for u s @ [p])"
proof
  fix s'
  have c: "c < length (conns u)" by (rule inv_peer_index[OF assms(1,2)])
  have snd: "snd (uds_send s p u) = upd_conn c (\<lambda>k. k\<lparr>c_queue := c_queue k @ [p],
      c_accepted := c_accepted k @ [p]\<rparr>) u"
    using assms(2,3) by (simp add: uds_send_def)
  show "pending_for (snd (uds_send s p u)) s' = ((pending_for u)(s := pending_for u s @ [p])) s'"
  proof (cases "dict_get (peers u) s'")
    case None
    then show ?thesis using assms(2) by (cases "s' = s") (simp_all add: pending_for_def)
  next
    case (Some d)
    have "d = c \<longleftrightarrow> s' = s"
      using Some assms(2) peers_injective[OF assms(1) Some, of s] by auto
    then show ?thesis
      using Some assms(2) c by (simp add: pending_for_def snd conns_upd_conn)
  qed
qed

lemma send_connected:
  assumes "uds_inv u" "is_connected u s" "length (pending_for u s) < SEND_QUEUE_MAXSIZE"
  shows "\<exists>u'. uds_send s p u = (Inr (), u')
    \<and> pending_for u' = (pending_for u)(s := pending_for u s @ [p])
    \<and> is_connected u' = is_connected u \<and> uds_inv u'"
proof -
  obtain c where c: "dict_get (peers u) s = Some c"
    using assms(2) by (auto simp: is_connected_def)
  then have room: "length (c_queue (conns u ! c)) < SEND_QUEUE_MAXSIZE"
    using assms(3) by (simp add: pending_for_def)
  let ?u' = "snd (uds_send s p u)"
  have "uds_send s p u = (Inr (), ?u')" using c room by (simp add: uds_send_def)
  moreover have "is_connected ?u' = is_connected u"
    by (simp add: is_connected_def fun_eq_iff)
  ultimately show ?thesis
    using pending_for_send[OF assms(1) c room] inv_send[OF assms(1)] by blast
qed

interpretation server: ipc_port uds_send is_connected pending_for SEND_QUEUE_MAXSIZE uds_inv
proof (unfold_locales, goal_cases)
  case (1 u s p)
  then show ?case by (rule send_connected)
next
  case (2 u s p)
  then show ?case by (auto simp: is_connected_def pending_for_def uds_send_def)
next
  case (3 u s p)
  then show ?case by (simp add: is_connected_def uds_send_def)
qed

section \<open>Shutdown\<close>

lemma cancel_finishes:
  "c < length (conns u) \<Longrightarrow> c_phase (conns (cancel_peer c u) ! c) = Finished"
  by (auto simp: cancel_peer_def cleanup_eq conns_upd_conn split: phase.splits)

lemma cancel_keeps:
  "d \<noteq> c \<Longrightarrow> conns (cancel_peer c u) ! d = conns u ! d"
  by (auto simp: cancel_peer_def cleanup_eq conns_upd_conn split: phase.splits)

lemma cancel_all_finishes:
  assumes "\<forall>c\<in>set cs. c < length (conns u)" "d \<in> set cs \<or> c_phase (conns u ! d) = Finished"
    and "d < length (conns u)"
  shows "c_phase (conns (fold cancel_peer cs u) ! d) = Finished"
  using assms
proof (induction cs arbitrary: u)
  case (Cons c cs)
  have "d \<in> set cs \<or> c_phase (conns (cancel_peer c u) ! d) = Finished"
    using Cons.prems cancel_finishes[of c u] cancel_keeps[of d c u] by (cases "d = c") auto
  with Cons show ?case by simp
qed simp

lemma shutdown_finished:
  assumes "c < length (conns u)"
  shows "c_phase (conns (serve_shutdown u) ! c) = Finished"
  unfolding serve_shutdown_def by (rule cancel_all_finishes) (use assms in auto)

lemma length_shutdown [simp]: "length (conns (serve_shutdown u)) = length (conns u)"
proof -
  have "length (conns (fold cancel_peer cs v)) = length (conns v)" for cs v
    by (induction cs arbitrary: v) simp_all
  then show ?thesis by (simp add: serve_shutdown_def)
qed

lemma shutdown_no_peers:
  assumes "uds_inv u"
  shows "dict_get (peers (serve_shutdown u)) s = None"
proof (rule ccontr)
  assume "dict_get (peers (serve_shutdown u)) s \<noteq> None"
  then obtain c where c: "dict_get (peers (serve_shutdown u)) s = Some c" by blast
  note inv = inv_serve_shutdown[OF assms]
  have "c < length (conns u)" using inv_peer_index[OF inv c] by simp
  from shutdown_finished[OF this] inv_serves[OF inv c] show False
    by (simp add: serves_def live_def)
qed

section \<open>A concrete run\<close>

text \<open>
  Sender 7 connects and says hello with the expected hash, then connects again and says hello on
  the second connection while the first is still open.
\<close>

definition hello_bytes :: bytes where
  "hello_bytes = pb_serialize unary_protobuf hello_envelope"

definition connected_once :: uds where
  "connected_once = handle_recv unary_protobuf 0 hello_bytes
     (upd_conn 0 (\<lambda>k. k\<lparr>c_phase := Reading\<rparr>) (accept_peer (UdsIpcServer [1])))"

definition connected_twice :: uds where
  "connected_twice = handle_recv unary_protobuf 1 hello_bytes
     (upd_conn 1 (\<lambda>k. k\<lparr>c_phase := Reading\<rparr>) (accept_peer connected_once))"

lemma decode_hello_bytes:
  "decode unary_protobuf hello_bytes = Inr (SENDER_HELLO_FIELD_NAME, SenderHello example_hello)"
  unfolding hello_bytes_def by (rule decode_serialize[OF unary_parses_back])

lemma hello_bytes_nonempty: "hello_bytes \<noteq> []"
  by (simp add: hello_bytes_def)

lemma sock_recv_hello: "sock_recv hello_bytes = hello_bytes"
  by (simp add: sock_recv_def hello_bytes_def RECV_BUFFER_BYTES_def)

lemma handshake_hello:
  "expected_proto_hash u = [1] \<Longrightarrow> complete_handshake unary_protobuf c hello_bytes u
    = (Inr 7, u\<lparr>peers := dict_set 7 c (peers u), hellos := hellos u @ [example_hello]\<rparr>)"
  by (simp add: complete_handshake_def decode_hello_bytes example_hello_def verify_proto_hash_def)

lemma connected_once_eq:
  "connected_once = \<lparr>expected_proto_hash = [1], peers = [(7, 0)],
     conns = [new_connection\<lparr>c_phase := Reading, c_sender := Some 7, c_writer := WriterIdle\<rparr>],
     incoming = [(7, hello_bytes)], listening = True, hellos = [example_hello]\<rparr>"
  by (simp add: connected_once_def handle_recv_def hello_bytes_nonempty handshake_hello
      accept_peer_def UdsIpcServer_def upd_conn_def new_connection_def put_incoming_def
      INCOMING_QUEUE_MAXSIZE_def)

lemma connected_twice_eq:
  "connected_twice = \<lparr>expected_proto_hash = [1], peers = [(7, 1)],
     conns = [new_connection\<lparr>c_phase := Reading, c_sender := Some 7, c_writer := WriterIdle\<rparr>,
       new_connection\<lparr>c_phase := Reading, c_sender := Some 7, c_writer := WriterIdle\<rparr>],
     incoming = [(7, hello_bytes), (7, hello_bytes)], listening = True,
     hellos = [example_hello, example_hello]\<rparr>"
  by (simp add: connected_twice_def connected_once_eq handle_recv_def hello_bytes_nonempty
      handshake_hello accept_peer_def upd_conn_def new_connection_def put_incoming_def
      INCOMING_QUEUE_MAXSIZE_def)

lemma connect_reachable:
  assumes "uds_reachable pb expected u" "listening u" "c = length (conns u)"
    and "sock_recv raw = raw"
  shows "uds_reachable pb expected
    (handle_recv pb c raw (upd_conn c (\<lambda>k. k\<lparr>c_phase := Reading\<rparr>) (accept_peer u)))"
proof -
  let ?u1 = "accept_peer u"
  let ?u2 = "upd_conn c (\<lambda>k. k\<lparr>c_phase := Reading\<rparr>) ?u1"
  have new: "c < length (conns ?u1)" "c_phase (conns ?u1 ! c) = Created"
    using assms(3) by (simp_all add: accept_peer_def new_connection_def)
  then have read: "c < length (conns ?u2)" "c_phase (conns ?u2 ! c) = Reading"
    by (simp_all add: conns_upd_conn)
  have "uds_reachable pb expected ?u1"
    by (rule reachable_step[OF assms(1)]) (blast intro: uds_step.accept[OF assms(2)])
  then have "uds_reachable pb expected ?u2"
    by (rule reachable_step) (blast intro: uds_step.start[OF new])
  then show ?thesis
    by (rule reachable_step) (metis uds_step.recv[OF read] assms(4))
qed

lemma connected_once_reachable: "uds_reachable unary_protobuf [1] connected_once"
  unfolding connected_once_def
  by (rule connect_reachable) (auto simp: sock_recv_hello uds_init_def UdsIpcServer_def intro: reachable_init)

lemma connected_twice_reachable: "uds_reachable unary_protobuf [1] connected_twice"
  unfolding connected_twice_def
  by (rule connect_reachable[OF connected_once_reachable]) (simp_all add: sock_recv_hello connected_once_eq)

section \<open>Properties\<close>

text \<open>C14: In every state the server can reach, a sender is routed only to an open connection whose task
  is running, that said hello as that sender with the expected contract hash; every message waiting
  to be handled is attributed to such a sender and neither empty nor longer than the receive buffer;
  and both queues respect their bounds.\<close>

theorem routed_only_to_verified_connections:
  assumes "uds_reachable pb expected u"
  shows "(\<forall>s c. dict_get (peers u) s = Some c \<longrightarrow>
        c < length (conns u) \<and> c_sender (conns u ! c) = Some s
        \<and> c_open (conns u ! c) \<and> c_phase (conns u ! c) \<noteq> Finished
        \<and> (\<exists>h \<in> set (hellos u). hello_sender_id h = s \<and> hello_proto_hash h = expected))
    \<and> (\<forall>(s, raw) \<in> set (incoming u). raw \<noteq> [] \<and> length raw \<le> RECV_BUFFER_BYTES
        \<and> (\<exists>h \<in> set (hellos u). hello_sender_id h = s \<and> hello_proto_hash h = expected))
    \<and> length (incoming u) \<le> INCOMING_QUEUE_MAXSIZE
    \<and> (\<forall>c < length (conns u). length (c_queue (conns u ! c)) \<le> SEND_QUEUE_MAXSIZE)"
proof -
  have inv: "uds_inv u" and hash: "expected_proto_hash u = expected"
    using uds_system.inv_reachable[OF assms] by auto
  have known: "\<exists>h \<in> set (hellos u). hello_sender_id h = s \<and> hello_proto_hash h = expected"
    if "s \<in> known_senders u" for s
    using that inv hash by (auto simp: known_senders_def uds_inv_def)
  have "c < length (conns u) \<and> c_sender (conns u ! c) = Some s
      \<and> c_open (conns u ! c) \<and> c_phase (conns u ! c) \<noteq> Finished \<and> s \<in> known_senders u"
    if "dict_get (peers u) s = Some c" for s c
    using inv_serves[OF inv that] inv_peer_index[OF inv that] inv_known[OF inv, of c s]
    by (auto simp: serves_def live_def)
  moreover have "length (c_queue (conns u ! c)) \<le> SEND_QUEUE_MAXSIZE" if "c < length (conns u)" for c
    using inv_connection[OF inv that] by (simp add: connection_ok_def)
  moreover have "length (incoming u) \<le> INCOMING_QUEUE_MAXSIZE" using inv by (simp add: uds_inv_def)
  moreover have "s \<in> known_senders u \<and> raw \<noteq> [] \<and> length raw \<le> RECV_BUFFER_BYTES"
    if "(s, raw) \<in> set (incoming u)" for s raw
    using inv that by (auto simp: uds_inv_def received_def)
  ultimately show ?thesis using known by blast
qed

theorem routed_only_to_verified_connections_witness:
  "dict_get (peers connected_once) 7 = Some 0 \<and> c_open (conns connected_once ! 0)
    \<and> (\<exists>h \<in> set (hellos connected_once). hello_sender_id h = 7 \<and> hello_proto_hash h = [1])"
proof -
  have "dict_get (peers connected_once) 7 = Some 0" by (simp add: connected_once_eq)
  with routed_only_to_verified_connections[OF connected_once_reachable] show ?thesis by blast
qed

text \<open>C19: A connection never takes another one's route away: while a sender is routed to connection
  \<open>c\<close>, no step of another connection, whether it closes, fails to write, is cancelled or receives,
  unroutes the sender; only a new hello can move the route, to the connection that said it. So the
  clean-up of a connection the sender has already replaced leaves the new one in place.\<close>

theorem other_connections_keep_route:
  assumes "uds_reachable pb expected u" "uds_step pb u l u'" "dict_get (peers u) s = Some c"
    and "label_connection l \<noteq> Some c" "l \<noteq> Shutdown"
  shows "dict_get (peers u') s = Some c
    \<or> (\<exists>d raw. l = Recv d raw \<and> d \<noteq> c \<and> dict_get (peers u') s = Some d)"
  by (rule peers_step[OF assms(2) reachable_inv[OF assms(1)] assms(3-5)])

theorem other_connections_keep_route_witness:
  "dict_get (peers (cleanup 0 connected_twice)) 7 = Some 1"
proof -
  have "uds_step unary_protobuf connected_twice (Recv 0 []) (handle_recv unary_protobuf 0 (sock_recv []) connected_twice)"
    by (rule uds_step.recv) (simp_all add: connected_twice_eq)
  then have step: "uds_step unary_protobuf connected_twice (Recv 0 []) (cleanup 0 connected_twice)"
    by (simp add: handle_recv_def sock_recv_def)
  have "dict_get (peers connected_twice) 7 = Some 1" by (simp add: connected_twice_eq)
  moreover have "dict_get (peers (cleanup 0 connected_twice)) 7 \<noteq> Some 0"
    by (simp add: peers_cleanup[OF reachable_inv[OF connected_twice_reachable]])
  ultimately show ?thesis
    using other_connections_keep_route[OF connected_twice_reachable step, of 7 1] by auto
qed

text \<open>Payloads reach a connection in the order they were accepted for it, none twice and none
  overtaken: what was written is a prefix of what was accepted, and while the connection's writer
  runs, what was written, the payload in flight and the queue are together all that was accepted.\<close>

theorem payloads_written_in_order:
  assumes "uds_reachable pb expected u" "c < length (conns u)" "k = conns u ! c"
  shows "(\<exists>rest. c_accepted k = c_wire k @ rest)
    \<and> (c_writer k = WriterIdle \<longrightarrow> c_accepted k = c_wire k @ c_queue k)
    \<and> (\<forall>p. c_writer k = WriterSending p \<longrightarrow> c_accepted k = c_wire k @ p # c_queue k)"
  using inv_connection[OF reachable_inv[OF assms(1)] assms(2)] assms(3)
  by (cases "c_writer k") (auto simp: connection_ok_def)

theorem payloads_written_in_order_witness:
  "c_accepted (conns (snd (uds_send 7 [5] connected_once)) ! 0)
    = c_wire (conns (snd (uds_send 7 [5] connected_once)) ! 0) @ [[5]]"
proof -
  let ?u = "snd (uds_send 7 [5] connected_once)"
  have "uds_step unary_protobuf connected_once (Send 7 [5]) ?u" by (rule uds_step.send)
  then have r: "uds_reachable unary_protobuf [1] ?u"
    by (intro reachable_step[OF connected_once_reachable]) blast
  have "length (conns ?u) = 1" "c_queue (conns ?u ! 0) = [[5]]" "c_writer (conns ?u ! 0) = WriterIdle"
    by (simp_all add: uds_send_def connected_once_eq new_connection_def SEND_QUEUE_MAXSIZE_def
        upd_conn_def)
  with payloads_written_in_order[OF r, of 0] show ?thesis by simp
qed

text \<open>C28: The first message of a connection decides, and does nothing else. A hello with the expected
  contract hash routes its sender to this connection, starts its writer and is passed on like every
  later message (put on the incoming queue, or waiting for room there). Anything else closes the connection,
  and only an error other than the two handshake errors is left on its task. Every other connection
  with its queue, every other route and the rest of the server are as before.\<close>

theorem first_message_decides:
  assumes "uds_reachable pb expected u" "c < length (conns u)" "c_phase (conns u ! c) = Reading"
    and "c_sender (conns u ! c) = None" "raw \<noteq> []" "u' = handle_recv pb c raw u"
  shows "expected_proto_hash u' = expected \<and> listening u' = listening u
    \<and> (case complete_handshake pb c raw u of
      (Inr s, _) \<Rightarrow>
        (\<exists>hello. decode pb raw = Inr (SENDER_HELLO_FIELD_NAME, SenderHello hello)
          \<and> hello_sender_id hello = s \<and> hello_proto_hash hello = expected \<and> hellos u' = hellos u @ [hello])
        \<and> dict_get (peers u') = (dict_get (peers u))(s \<mapsto> c)
        \<and> incoming u' = (if length (incoming u) < INCOMING_QUEUE_MAXSIZE then incoming u @ [(s, raw)] else incoming u)
        \<and> conns u' = (conns u)[c := (conns u ! c)\<lparr>c_sender := Some s, c_writer := WriterIdle,
            c_phase := (if length (incoming u) < INCOMING_QUEUE_MAXSIZE then Reading else Putting s raw)\<rparr>]
    | (Inl e, _) \<Rightarrow>
        dict_get (peers u') = dict_get (peers u) \<and> hellos u' = hellos u \<and> incoming u' = incoming u
        \<and> conns u' = (conns u)[c := (conns u ! c)\<lparr>c_phase := Finished, c_writer := NoWriter, c_open := False,
            c_error := (if handled e then c_error (conns u ! c) else Some e)\<rparr>])"
proof -
  have inv: "uds_inv u" and hash: "expected_proto_hash u = expected"
    using uds_system.inv_reachable[OF assms(1)] by auto
  have none: "dict_get (peers u) s \<noteq> Some c" for s
    using inv_serves[OF inv, of s c] assms(4) by (auto simp: serves_def)
  have writer: "c_writer (conns u ! c) = NoWriter"
    using inv_connection[OF inv assms(2)] assms(4) by (simp add: connection_ok_def)
  show ?thesis
    using assms(5)
  proof (cases rule: handle_recv_cases[of raw u c pb])
    case (again s)
    with assms(4) show ?thesis by simp
  next
    case (hello hello)
    have "complete_handshake pb c raw u = (Inr (hello_sender_id hello),
        u\<lparr>peers := dict_set (hello_sender_id hello) c (peers u), hellos := hellos u @ [hello]\<rparr>)"
      using hello(2,3) by (simp add: complete_handshake_Inr_iff)
    then show ?thesis
      using hello hash assms(2,3,6)
      by (auto simp: put_incoming_def upd_conn_def register_peer_def)
  next
    case (refused e)
    obtain u1 where "complete_handshake pb c raw u = (Inl e, u1)"
      using refused(2) by (cases "complete_handshake pb c raw u") simp
    moreover have "dict_get (peers (fail_peer c e u)) = dict_get (peers u)"
      by (rule ext) (use none in \<open>simp add: peers_fail_peer[OF inv assms(2)]\<close>)
    moreover have "incoming (fail_peer c e u) = incoming u" "hellos (fail_peer c e u) = hellos u"
      "listening (fail_peer c e u) = listening u" "expected_proto_hash (fail_peer c e u) = expected_proto_hash u"
      by (simp_all add: fail_peer_def cleanup_eq)
    moreover have "conns (fail_peer c e u) = (conns u)[c := (conns u ! c)\<lparr>c_phase := Finished, c_writer := NoWriter, c_open := False,
        c_error := (if handled e then c_error (conns u ! c) else Some e)\<rparr>]"
      using assms(2) writer by (auto simp: fail_peer_def cleanup_eq upd_conn_def intro!: arg_cong[of _ _ "list_update (conns u) c"] connection.equality)
    ultimately show ?thesis using hash by (simp add: refused(3) assms(6))
  qed
qed

theorem first_message_decides_witness:
  "dict_get (peers (handle_recv unary_protobuf 0 hello_bytes
      (upd_conn 0 (\<lambda>k. k\<lparr>c_phase := Reading\<rparr>) (accept_peer (UdsIpcServer [1]))))) 7 = Some 0"
proof -
  let ?u0 = "UdsIpcServer [1]"
  let ?u1 = "accept_peer ?u0"
  let ?u2 = "upd_conn 0 (\<lambda>k. k\<lparr>c_phase := Reading\<rparr>) ?u1"
  have "uds_reachable unary_protobuf [1] ?u0" by (rule reachable_init) (simp add: uds_init_def)
  then have "uds_reachable unary_protobuf [1] ?u1"
    by (rule reachable_step)
      (auto intro!: exI[of _ AcceptPeer] uds_step.accept simp: UdsIpcServer_def)
  then have r: "uds_reachable unary_protobuf [1] ?u2"
    by (rule reachable_step)
      (auto intro!: exI[of _ "StartPeer 0"] uds_step.start
        simp: accept_peer_def UdsIpcServer_def new_connection_def)
  have c: "0 < length (conns ?u2)" "c_phase (conns ?u2 ! 0) = Reading" "c_sender (conns ?u2 ! 0) = None"
    by (simp_all add: accept_peer_def UdsIpcServer_def upd_conn_def new_connection_def)
  have "complete_handshake unary_protobuf 0 hello_bytes ?u2
      = (Inr 7, ?u2\<lparr>peers := dict_set 7 0 (peers ?u2), hellos := hellos ?u2 @ [example_hello]\<rparr>)"
    by (rule handshake_hello) (simp add: accept_peer_def UdsIpcServer_def)
  with first_message_decides[OF r c hello_bytes_nonempty] show ?thesis by simp
qed

text \<open>After the shutdown of \<open>serve\<close> nobody is routed: every peer task has ended, every connection
  whose task had started is closed, and a send is refused for every sender as unknown.\<close>

theorem shutdown_disconnects_everyone:
  assumes "uds_reachable pb expected u"
  shows "uds_send s payload (serve_shutdown u)
      = (Inl (IpcError (UnknownSenderError s)), serve_shutdown u)
    \<and> \<not> listening (serve_shutdown u)
    \<and> (\<forall>c < length (conns u). c_phase (conns (serve_shutdown u) ! c) = Finished
        \<and> (c_sender (conns (serve_shutdown u) ! c) \<noteq> None
            \<longrightarrow> \<not> c_open (conns (serve_shutdown u) ! c)))"
proof -
  note inv = reachable_inv[OF assms]
  have "listening (cancel_peer c v) = listening v" for c v
    by (simp add: cancel_peer_def cleanup_eq split: phase.splits)
  then have "listening (fold cancel_peer cs v) = listening v" for cs v
    by (induction cs arbitrary: v) simp_all
  then have "\<not> listening (serve_shutdown u)" by (simp add: serve_shutdown_def)
  moreover have "c_sender (conns (serve_shutdown u) ! c) \<noteq> None
      \<longrightarrow> \<not> c_open (conns (serve_shutdown u) ! c)" if "c < length (conns u)" for c
    using inv_connection[OF inv_serve_shutdown[OF inv], of c] shutdown_finished[OF that] that
    by (auto simp: connection_ok_def)
  ultimately show ?thesis
    using shutdown_no_peers[OF inv] shutdown_finished by (simp add: uds_send_def)
qed

theorem shutdown_disconnects_everyone_witness:
  "uds_send 7 [5] (serve_shutdown connected_twice)
    = (Inl (IpcError (UnknownSenderError 7)), serve_shutdown connected_twice)"
  using shutdown_disconnects_everyone[OF connected_twice_reachable] by blast

text \<open>C22: One delivery over this server is decided by what it finds. A connected sender with room gets
  the payload at the end of its queue at the first attempt, every other queue and the registry
  untouched; an unknown sender is dropped from the registry and nothing is queued; a full queue is
  retried once after the sleep, and a sender whose queue is still full stays registered.\<close>

theorem deliver_over_server:
  assumes "dp_send P = uds_send" "uds_reachable pb expected (w_ipc w)" "s = sa_sender_id a"
  shows "if \<not> is_connected (w_ipc w) s
    then \<exists>w'. deliver P sid a payload w = (Inr False, w')
      \<and> w_registry w' = remove s (w_registry w) \<and> w_ipc w' = w_ipc w
    else if length (pending_for (w_ipc w) s) < SEND_QUEUE_MAXSIZE
    then \<exists>w'. deliver P sid a payload w = (Inr True, w') \<and> w_registry w' = w_registry w
      \<and> pending_for (w_ipc w') = (pending_for (w_ipc w))(s := pending_for (w_ipc w) s @ [payload])
    else \<exists>w2 r w3. w_registry w2 = w_registry w \<and> w_ipc w2 = w_ipc w
      \<and> clock_sleep P DISPATCH_RETRY_DELAY_SECONDS w2 = (r, w3)
      \<and> (case r of
           Inl e \<Rightarrow> deliver P sid a payload w = (Inl e, w3)
         | Inr _ \<Rightarrow> uds_inv (w_ipc w3) \<longrightarrow> (\<exists>w'.
             if \<not> is_connected (w_ipc w3) s
             then deliver P sid a payload w = (Inr False, w')
               \<and> w_registry w' = remove s (w_registry w3)
             else w_registry w' = w_registry w3 \<and> deliver P sid a payload w
               = (Inr (length (pending_for (w_ipc w3) s) < SEND_QUEUE_MAXSIZE), w')))"
proof -
  note inv = reachable_inv[OF assms(2)]
  show ?thesis
    using server.deliver_first_unknown[OF assms(1) inv, of a sid payload]
      server.deliver_first_accepted[OF assms(1) inv, of a sid payload]
      server.deliver_retry[OF assms(1) inv, of a sid payload]
    unfolding assms(3) by (cases "is_connected (w_ipc w) (sa_sender_id a)") auto
qed

definition example_uds_ports :: "uds dispatch_ports" where
  "example_uds_ports = \<lparr>dp_send = uds_send, dp_stat = (\<lambda>path. Inr 10),
     dp_compute_hash = (\<lambda>path tr x. (Inr (bytes_hex (replicate 32 171)), x)),
     dp_sleep = (\<lambda>d tr x. (Inr (), x)), dp_now = (\<lambda>tr. 1),
     dp_token_bytes = (\<lambda>tr n. replicate n 7), dp_runtime = unary_protobuf\<rparr>"

theorem deliver_over_server_witness:
  "\<exists>w'. deliver example_uds_ports [] (assignment_at 10 1 9000 (0, 7)) [5]
      \<lparr>w_registry = SenderRegistry 5, w_ipc = connected_twice, dispatched_sessions = [], w_trace = []\<rparr>
    = (Inr True, w') \<and> pending_for (w_ipc w') 7 = [[5]]"
proof -
  let ?w = "\<lparr>w_registry = SenderRegistry 5, w_ipc = connected_twice, dispatched_sessions = [],
    w_trace = []\<rparr>"
  have P: "dp_send example_uds_ports = uds_send" by (simp add: example_uds_ports_def)
  have r: "uds_reachable unary_protobuf [1] (w_ipc ?w)" using connected_twice_reachable by simp
  have a: "7 = sa_sender_id (assignment_at 10 1 9000 (0, 7))" by (simp add: assignment_at_def)
  have "is_connected (w_ipc ?w) 7" "pending_for (w_ipc ?w) 7 = []"
    by (simp_all add: is_connected_def pending_for_def connected_twice_eq new_connection_def)
  then obtain w' where "deliver example_uds_ports [] (assignment_at 10 1 9000 (0, 7)) [5] ?w
      = (Inr True, w')" "pending_for (w_ipc w') = (pending_for (w_ipc ?w))(7 := [] @ [[5]])"
    using deliver_over_server[OF P r a, of "[]" "[5]"]
    unfolding SEND_QUEUE_MAXSIZE_def by auto
  then show ?thesis by (intro exI[of _ w']) simp
qed

end
