(* ===== verification/Loops.thy ===== *)
theory Loops imports Dispatcher Uds begin

text \<open>
  The two loops \<open>main.py\<close> runs over the components: \<open>_run_incoming_dispatch_loop\<close>, which hands
  every message of a sender to its handler, and \<open>_run_detection_pipeline\<close>, which dispatches every
  stable path. A loop is a function of the items it has received so far. While it waits for an
  item the other tasks run: each item carries the change they made to the world before it came.
\<close>

section \<open>Handlers\<close>

type_synonym 'i handler = "pyfloat \<Rightarrow> SenderId \<Rightarrow> message \<Rightarrow> 'i world \<Rightarrow> unit result \<times> 'i world"

definition handle_sender_hello :: "pyfloat \<Rightarrow> SenderId \<Rightarrow> message \<Rightarrow> 'i world \<Rightarrow> unit result \<times> 'i world" where
  "handle_sender_hello now s msg w = (Inr (), w\<lparr>w_registry := register now s (w_registry w)\<rparr>)"

definition handle_heartbeat :: "pyfloat \<Rightarrow> SenderId \<Rightarrow> message \<Rightarrow> 'i world \<Rightarrow> unit result \<times> 'i world" where
  "handle_heartbeat now s msg w = (Inr (), w\<lparr>w_registry := refresh now s (w_registry w)\<rparr>)"

text \<open>\<open>message.session_id\<close>: the cast changes nothing, a message without the field raises.\<close>

fun session_id_of :: "message \<Rightarrow> SessionId result" where
  "session_id_of (SenderProgress sid a b c) = Inr sid"
| "session_id_of (SessionComplete sid p) = Inr sid"
| "session_id_of (LocalCongestion sid a b c) = Inr sid"
| "session_id_of (UpdateRate sid r) = Inr sid"
| "session_id_of msg = Inl AttributeError"

definition handle_session_complete ::
  "pyfloat \<Rightarrow> SenderId \<Rightarrow> message \<Rightarrow> 'i world \<Rightarrow> unit result \<times> 'i world" where
  "handle_session_complete now s msg w =
     (case session_id_of msg of
        Inl e \<Rightarrow> (Inl e, w)
      | Inr sid \<Rightarrow> (Inr (), emit (Logged (SessionCompleteReceived s sid)) (complete_session sid w)))"

definition log_and_ignore_handler ::
  "string \<Rightarrow> pyfloat \<Rightarrow> SenderId \<Rightarrow> message \<Rightarrow> 'i world \<Rightarrow> unit result \<times> 'i world" where
  "log_and_ignore_handler event_name now s msg w = (Inr (), emit (Logged (MessageIgnored event_name s)) w)"

definition INCOMING_MESSAGE_HANDLERS :: "(string, 'i handler) dict" where
  "INCOMING_MESSAGE_HANDLERS =
     [(SENDER_HELLO_FIELD_NAME, handle_sender_hello),
      (HEARTBEAT_FIELD_NAME, handle_heartbeat),
      (SENDER_PROGRESS_FIELD_NAME, log_and_ignore_handler SENDER_PROGRESS_FIELD_NAME),
      (SESSION_COMPLETE_FIELD_NAME, handle_session_complete),
      (LOCAL_CONGESTION_FIELD_NAME, log_and_ignore_handler LOCAL_CONGESTION_FIELD_NAME)]"

section \<open>The incoming loop\<close>

record 'i arrival =
  ar_before :: "'i world \<Rightarrow> 'i world"
  ar_now :: pyfloat
  ar_sender :: SenderId
  ar_raw :: bytes

definition handle_incoming :: "protobuf \<Rightarrow> pyfloat \<Rightarrow> SenderId \<Rightarrow> bytes \<Rightarrow> 'i world \<Rightarrow> unit result \<times> 'i world" where
  "handle_incoming pb now s raw w =
     (case decode pb raw of
        Inl e \<Rightarrow> (Inl e, w)
      | Inr (field_name, msg) \<Rightarrow>
          (case dict_get INCOMING_MESSAGE_HANDLERS field_name of
             None \<Rightarrow> (Inr (), emit (Logged (UnknownIncomingMessageType field_name s)) w)
           | Some handler \<Rightarrow> handler now s msg w))"

fun run_incoming_dispatch_loop :: "protobuf \<Rightarrow> 'i arrival list \<Rightarrow> 'i world \<Rightarrow> unit result \<times> 'i world" where
  "run_incoming_dispatch_loop pb [] w = (Inr (), w)"
| "run_incoming_dispatch_loop pb (a # arrivals) w =
     (case handle_incoming pb (ar_now a) (ar_sender a) (ar_raw a) (ar_before a w) of
        (Inl e, w1) \<Rightarrow> (Inl e, w1)
      | (Inr _, w1) \<Rightarrow> run_incoming_dispatch_loop pb arrivals w1)"

section \<open>The detection pipeline\<close>

text \<open>\<open>fin\<close> says how the iteration over the watcher's paths ended, if it did.\<close>

fun run_detection_pipeline ::
  "'i dispatch_ports \<Rightarrow> dispatch_config \<Rightarrow> (('i world \<Rightarrow> 'i world) \<times> path) list \<Rightarrow> unit result
    \<Rightarrow> 'i world \<Rightarrow> unit result \<times> 'i world" where
  "run_detection_pipeline P C [] fin w = (fin, w)"
| "run_detection_pipeline P C ((before, path) # items) fin w =
     (case dispatch P C path (before w) of
        (Inr _, w1) \<Rightarrow> run_detection_pipeline P C items fin w1
      | (Inl CancelledError, w1) \<Rightarrow> (Inl CancelledError, w1)
      | (Inl e, w1) \<Rightarrow>
          run_detection_pipeline P C items fin (emit (Logged (DispatchFailedForPath path e)) w1))"

section \<open>Following one part of the world through the loop\<close>

text \<open>
  A part of the world (the registry, the table of sessions) that messages and other tasks change
  through operations only: after the loop it is the fold of all operations, in order.
\<close>

definition changes_by ::
  "('i world \<Rightarrow> 's) \<Rightarrow> ('op \<Rightarrow> 's \<Rightarrow> 's) \<Rightarrow> 'i arrival \<Rightarrow> 'op list \<Rightarrow> bool" where
  "changes_by part apply_op a ops \<longleftrightarrow> (\<forall>w. part (ar_before a w) = fold apply_op ops (part w))"

fun loop_history :: "('i arrival \<Rightarrow> 'op list) \<Rightarrow> 'i arrival list \<Rightarrow> 'op list list \<Rightarrow> 'op list" where
  "loop_history ops_of (a # arrivals) (ops # opss) = ops @ ops_of a @ loop_history ops_of arrivals opss"
| "loop_history ops_of _ _ = []"

locale followed_part =
  fixes part :: "'i world \<Rightarrow> 's" and apply_op :: "'op \<Rightarrow> 's \<Rightarrow> 's"
    and ops_of :: "protobuf \<Rightarrow> 'i arrival \<Rightarrow> 'op list"
  assumes handled: "handle_incoming pb (ar_now a) (ar_sender a) (ar_raw a) w = (r, w') \<Longrightarrow>
    part w' = fold apply_op (ops_of pb a) (part w)"
begin

lemma after_loop:
  assumes "run_incoming_dispatch_loop pb arrivals w = (Inr (), w')"
    and "list_all2 (changes_by part apply_op) arrivals opss"
  shows "part w' = fold apply_op (loop_history (ops_of pb) arrivals opss) (part w)"
  using assms(2,1)
proof (induction arrivals opss arbitrary: w rule: list_all2_induct)
  case (Cons a arrivals ops opss)
  obtain r w1 where h: "handle_incoming pb (ar_now a) (ar_sender a) (ar_raw a) (ar_before a w) = (r, w1)"
    by fastforce
  with Cons.prems have "run_incoming_dispatch_loop pb arrivals w1 = (Inr (), w')"
    by (auto split: sum.splits)
  from Cons.IH[OF this] handled[OF h] Cons.hyps(1) show ?case by (simp add: changes_by_def)
qed simp

end

section \<open>Which handler a message reaches\<close>

lemma handlers_get:
  "dict_get INCOMING_MESSAGE_HANDLERS SENDER_HELLO_FIELD_NAME = Some handle_sender_hello"
  "dict_get INCOMING_MESSAGE_HANDLERS HEARTBEAT_FIELD_NAME = Some handle_heartbeat"
  "dict_get INCOMING_MESSAGE_HANDLERS SESSION_COMPLETE_FIELD_NAME = Some handle_session_complete"
  "dict_get INCOMING_MESSAGE_HANDLERS SENDER_PROGRESS_FIELD_NAME
    = Some (log_and_ignore_handler SENDER_PROGRESS_FIELD_NAME)"
  "dict_get INCOMING_MESSAGE_HANDLERS LOCAL_CONGESTION_FIELD_NAME
    = Some (log_and_ignore_handler LOCAL_CONGESTION_FIELD_NAME)"
  by (simp_all add: INCOMING_MESSAGE_HANDLERS_def field_name_defs)

lemma handlers_unknown:
  "f \<notin> {SENDER_HELLO_FIELD_NAME, HEARTBEAT_FIELD_NAME, SESSION_COMPLETE_FIELD_NAME,
      SENDER_PROGRESS_FIELD_NAME, LOCAL_CONGESTION_FIELD_NAME} \<Longrightarrow>
    dict_get INCOMING_MESSAGE_HANDLERS f = None"
  by (simp add: INCOMING_MESSAGE_HANDLERS_def)

lemma field_cases:
  obtains (hello) "f = SENDER_HELLO_FIELD_NAME" | (heartbeat) "f = HEARTBEAT_FIELD_NAME"
    | (complete) "f = SESSION_COMPLETE_FIELD_NAME" | (progress) "f = SENDER_PROGRESS_FIELD_NAME"
    | (congestion) "f = LOCAL_CONGESTION_FIELD_NAME"
    | (unknown) "f \<notin> {SENDER_HELLO_FIELD_NAME, HEARTBEAT_FIELD_NAME, SESSION_COMPLETE_FIELD_NAME,
        SENDER_PROGRESS_FIELD_NAME, LOCAL_CONGESTION_FIELD_NAME}"
  by blast

lemma field_names_differ:
  "HEARTBEAT_FIELD_NAME \<noteq> SENDER_HELLO_FIELD_NAME" "SESSION_COMPLETE_FIELD_NAME \<noteq> SENDER_HELLO_FIELD_NAME"
  "SESSION_COMPLETE_FIELD_NAME \<noteq> HEARTBEAT_FIELD_NAME" "SENDER_PROGRESS_FIELD_NAME \<noteq> SENDER_HELLO_FIELD_NAME"
  "SENDER_PROGRESS_FIELD_NAME \<noteq> HEARTBEAT_FIELD_NAME" "LOCAL_CONGESTION_FIELD_NAME \<noteq> SENDER_HELLO_FIELD_NAME"
  "LOCAL_CONGESTION_FIELD_NAME \<noteq> HEARTBEAT_FIELD_NAME"
  "SENDER_PROGRESS_FIELD_NAME \<noteq> SESSION_COMPLETE_FIELD_NAME"
  "LOCAL_CONGESTION_FIELD_NAME \<noteq> SESSION_COMPLETE_FIELD_NAME"
  by (simp_all add: field_name_defs)

lemmas handler_defs = handle_sender_hello_def handle_heartbeat_def handle_session_complete_def
  log_and_ignore_handler_def complete_session_def emit_def

section \<open>What the messages do to the registry\<close>

definition message_ops :: "protobuf \<Rightarrow> 'i arrival \<Rightarrow> (pyfloat \<times> registry_op) list" where
  "message_ops pb a =
     (case decode pb (ar_raw a) of
        Inl e \<Rightarrow> []
      | Inr (f, msg) \<Rightarrow>
          if f = SENDER_HELLO_FIELD_NAME then [(ar_now a, Register (ar_sender a))]
          else if f = HEARTBEAT_FIELD_NAME then [(ar_now a, Refresh (ar_sender a))]
          else [])"

lemma handle_incoming_registry:
  assumes "handle_incoming pb (ar_now a) (ar_sender a) (ar_raw a) w = (r, w')"
  shows "w_registry w' = fold apply_registry_op (message_ops pb a) (w_registry w)"
proof (cases "decode pb (ar_raw a)")
  case (Inl e)
  with assms show ?thesis by (simp add: handle_incoming_def message_ops_def)
next
  case (Inr fm)
  obtain f m where fm: "fm = (f, m)" by (cases fm)
  show ?thesis
    by (cases f rule: field_cases; use assms Inr fm in
        \<open>auto simp: handle_incoming_def message_ops_def handler_defs handlers_get handlers_unknown
          field_names_differ split: sum.splits\<close>)
qed

interpretation registry_part: followed_part w_registry apply_registry_op message_ops
  by unfold_locales (rule handle_incoming_registry)

section \<open>What the incoming messages do to the dispatched sessions\<close>

datatype session_op = SessionOpened SessionId "SenderId list" | SessionClosed SessionId

fun apply_session_op ::
  "session_op \<Rightarrow> (SessionId, SenderId list) dict \<Rightarrow> (SessionId, SenderId list) dict" where
  "apply_session_op (SessionOpened sid ss) d = dict_set sid ss d"
| "apply_session_op (SessionClosed sid) d = dict_pop sid d"

fun concerns :: "SessionId \<Rightarrow> session_op \<Rightarrow> bool" where
  "concerns sid (SessionOpened sid' ss) = (sid' = sid)"
| "concerns sid (SessionClosed sid') = (sid' = sid)"

definition message_session_ops :: "protobuf \<Rightarrow> 'i arrival \<Rightarrow> session_op list" where
  "message_session_ops pb a =
     (case decode pb (ar_raw a) of
        Inl e \<Rightarrow> []
      | Inr (f, msg) \<Rightarrow>
          if f = SESSION_COMPLETE_FIELD_NAME
          then (case session_id_of msg of Inl e \<Rightarrow> [] | Inr sid \<Rightarrow> [SessionClosed sid])
          else [])"

lemma fold_unconcerned:
  "\<forall>x\<in>set ops. \<not> concerns sid x \<Longrightarrow> dict_get (fold apply_session_op ops d) sid = dict_get d sid"
proof (induction ops arbitrary: d)
  case (Cons x ops)
  then show ?case by (cases x) auto
qed simp

lemma fold_session_ops_iff:
  "dict_get (fold apply_session_op ops []) sid = Some ss \<longleftrightarrow>
    (\<exists>pre post. ops = pre @ SessionOpened sid ss # post \<and> (\<forall>x\<in>set post. \<not> concerns sid x))"
proof (induction ops rule: rev_induct)
  case (snoc x ops)
  show ?case
  proof (cases "concerns sid x")
    case True
    show ?thesis
    proof
      assume "dict_get (fold apply_session_op (ops @ [x]) []) sid = Some ss"
      with True have "x = SessionOpened sid ss" by (cases x) auto
      then show "\<exists>pre post. ops @ [x] = pre @ SessionOpened sid ss # post \<and> (\<forall>y\<in>set post. \<not> concerns sid y)"
        by (intro exI[of _ ops] exI[of _ "[]::session_op list"]) simp
    next
      assume "\<exists>pre post. ops @ [x] = pre @ SessionOpened sid ss # post \<and> (\<forall>y\<in>set post. \<not> concerns sid y)"
      then obtain pre post where eq: "ops @ [x] = pre @ SessionOpened sid ss # post"
        "\<forall>y\<in>set post. \<not> concerns sid y" by blast
      with True have "post = []" by (cases post rule: rev_cases) auto
      with eq show "dict_get (fold apply_session_op (ops @ [x]) []) sid = Some ss" by auto
    qed
  next
    case False
    then have same: "dict_get (fold apply_session_op (ops @ [x]) []) sid
        = dict_get (fold apply_session_op ops []) sid"
      by (cases x) auto
    have "(\<exists>pre post. ops @ [x] = pre @ SessionOpened sid ss # post \<and> (\<forall>y\<in>set post. \<not> concerns sid y))
      \<longleftrightarrow> (\<exists>pre post. ops = pre @ SessionOpened sid ss # post \<and> (\<forall>y\<in>set post. \<not> concerns sid y))"
      (is "?L \<longleftrightarrow> ?R")
    proof
      assume ?L
      then obtain pre post where eq: "ops @ [x] = pre @ SessionOpened sid ss # post"
        "\<forall>y\<in>set post. \<not> concerns sid y" by blast
      with False show ?R by (cases post rule: rev_cases) auto
    next
      assume ?R
      then obtain pre post where "ops = pre @ SessionOpened sid ss # post"
        "\<forall>y\<in>set post. \<not> concerns sid y" by blast
      with False show ?L by (intro exI[of _ pre, OF exI[of _ "post @ [x]"]]) auto
    qed
    with snoc same show ?thesis by simp
  qed
qed simp

lemma handle_incoming_sessions:
  assumes "handle_incoming pb (ar_now a) (ar_sender a) (ar_raw a) w = (r, w')"
  shows "dispatched_sessions w' = fold apply_session_op (message_session_ops pb a) (dispatched_sessions w)"
proof (cases "decode pb (ar_raw a)")
  case (Inl e)
  with assms show ?thesis by (simp add: handle_incoming_def message_session_ops_def)
next
  case (Inr fm)
  obtain f m where fm: "fm = (f, m)" by (cases fm)
  show ?thesis
    by (cases f rule: field_cases; use assms Inr fm in
        \<open>auto simp: handle_incoming_def message_session_ops_def handler_defs handlers_get handlers_unknown
          field_names_differ field_names_differ[symmetric] split: sum.splits\<close>)
qed

interpretation session_part: followed_part dispatched_sessions apply_session_op message_session_ops
  by unfold_locales (rule handle_incoming_sessions)

section \<open>Whole runs\<close>

lemma incoming_loop_append:
  "run_incoming_dispatch_loop pb (xs @ ys) w =
     (case run_incoming_dispatch_loop pb xs w of
        (Inl e, w1) \<Rightarrow> (Inl e, w1)
      | (Inr _, w1) \<Rightarrow> run_incoming_dispatch_loop pb ys w1)"
  by (induction xs arbitrary: w) (auto split: prod.splits sum.splits)

text \<open>The messages waiting in the server's queue, read at one time with no other task in between.\<close>

definition arrivals_of :: "pyfloat \<Rightarrow> (SenderId \<times> bytes) list \<Rightarrow> 'i arrival list" where
  "arrivals_of t ms = map (\<lambda>(s, raw). \<lparr>ar_before = id, ar_now = t, ar_sender = s, ar_raw = raw\<rparr>) ms"

lemma arrivals_of_append: "arrivals_of t (ms @ ns) = arrivals_of t ms @ arrivals_of t ns"
  by (simp add: arrivals_of_def)

lemma arrivals_of_alone: "list_all2 (changes_by part apply_op) (arrivals_of t ms) (map (\<lambda>_. []) ms)"
  by (induction ms) (auto simp: arrivals_of_def changes_by_def)

lemma recv_known_sender:
  assumes "c_sender (conns u ! c) = Some s" "raw \<noteq> []" "length (incoming u) < INCOMING_QUEUE_MAXSIZE"
  shows "incoming (handle_recv pb c raw u) = incoming u @ [(s, raw)]"
  using assms by (simp add: handle_recv_def put_incoming_def)

text \<open>One item of the pipeline: how the loop goes on after the dispatch.\<close>

definition after_dispatch :: "path \<Rightarrow> SessionId option result \<Rightarrow> 'i world \<Rightarrow> 'i world" where
  "after_dispatch path r w =
     (case r of Inr _ \<Rightarrow> w | Inl e \<Rightarrow> emit (Logged (DispatchFailedForPath path e)) w)"

lemma pipeline_Cons:
  assumes "dispatch P C path (before w) = (q, w1)"
  shows "run_detection_pipeline P C ((before, path) # items) fin w =
    (if q = Inl CancelledError then (Inl CancelledError, w1)
     else run_detection_pipeline P C items fin (after_dispatch path q w1))"
  using assms by (auto simp: after_dispatch_def split: sum.splits exn.splits)

lemma pipeline_worlds:
  assumes "run_detection_pipeline P C items fin w = (r, w')" "r \<noteq> Inl CancelledError"
  shows "r = fin \<and> (\<exists>ws. length ws = Suc (length items) \<and> ws ! 0 = w \<and> ws ! length items = w'
    \<and> (\<forall>i < length items. \<exists>q w1. dispatch P C (snd (items ! i)) (fst (items ! i) (ws ! i)) = (q, w1)
        \<and> q \<noteq> Inl CancelledError \<and> ws ! Suc i = after_dispatch (snd (items ! i)) q w1))"
  using assms(1)
proof (induction items arbitrary: w)
  case Nil
  then show ?case by (auto intro: exI[of _ "[w]"])
next
  case (Cons item items)
  obtain before path where item: "item = (before, path)" by (cases item)
  obtain q w1 where d: "dispatch P C path (before w) = (q, w1)" by fastforce
  from Cons.prems[unfolded item pipeline_Cons[of P C path before w, OF d]] assms(2)
  have q: "q \<noteq> Inl CancelledError"
    and rest: "run_detection_pipeline P C items fin (after_dispatch path q w1) = (r, w')"
    by (auto split: if_splits)
  from Cons.IH[OF rest] obtain ws where fin: "r = fin"
    and ws: "length ws = Suc (length items)" "ws ! 0 = after_dispatch path q w1" "ws ! length items = w'"
      "\<forall>i < length items. \<exists>q w1. dispatch P C (snd (items ! i)) (fst (items ! i) (ws ! i)) = (q, w1)
        \<and> q \<noteq> Inl CancelledError \<and> ws ! Suc i = after_dispatch (snd (items ! i)) q w1"
    by blast
  have "\<exists>q w1. dispatch P C (snd ((item # items) ! i)) (fst ((item # items) ! i) ((w # ws) ! i)) = (q, w1)
      \<and> q \<noteq> Inl CancelledError
      \<and> (w # ws) ! Suc i = after_dispatch (snd ((item # items) ! i)) q w1"
    if "i < length (item # items)" for i
    using that ws d q by (cases i) (simp_all add: item)
  with fin ws show ?case by (intro conjI exI[of _ "w # ws"]) simp_all
qed

section \<open>A completion that comes too early\<close>

text \<open>
  The dispatcher records a session after the last sender was tried. A sender that was served first
  may report the session complete while the dispatcher waits to try another again: the message is
  handled, finds nothing to take off the table, and the session is recorded afterwards and stays.
\<close>

definition completing_ports :: "bytes \<Rightarrow> unit dispatch_ports" where
  "completing_ports raw = example_ports\<lparr>
     dp_send := (\<lambda>s p i. (if s = 0 then Inr () else Inl (IpcError (SendQueueFullError s)), i)),
     dp_sleep := (\<lambda>d tr x. case handle_incoming unary_protobuf 1 0 raw (set_shared x example_world) of
       (r, w) \<Rightarrow> (r, shared_part w))\<rparr>"

lemma completion_during_dispatch_is_lost:
  "\<exists>sid raw w'. decode unary_protobuf raw = Inr (SESSION_COMPLETE_FIELD_NAME, SessionComplete sid 0)
    \<and> dispatch (completing_ports raw) example_config example_path example_world = (Inr (Some sid), w')
    \<and> Slept DISPATCH_RETRY_DELAY_SECONDS \<in> set (w_trace w')
    \<and> dict_get (dispatched_sessions w') sid = Some [0]"
proof -
  let ?sf = "\<lparr>sf_path = example_path, size_bytes = 10, file_hash = bytes_hex (replicate 32 171)\<rparr>"
  let ?C = example_config and ?w = example_world
  let ?a0 = "assignment_at 10 2 9000 (0, 0)" and ?a1 = "assignment_at 10 2 9000 (Suc 0, 2)"
  define sid where "sid = generate_session_id (\<lambda>n. replicate n 7)"
  define raw where "raw = pb_serialize unary_protobuf (Some (SESSION_COMPLETE_FIELD_NAME, SessionComplete sid 0))"
  let ?P = "completing_ports raw"
  have dec: "decode unary_protobuf raw = Inr (SESSION_COMPLETE_FIELD_NAME, SessionComplete sid 0)"
    unfolding raw_def by (rule decode_serialize[OF unary_parses_back])
  have as: "derive_shard_assignments 10 [0, 2] 9000 = Inr [?a0, ?a1]"
    by (subst derive_shard_assignments_ok) (simp_all add: valid_shard_request_def)
  have as': "derive_shard_assignments 10 [0, 2] (dc_base_port ?C) = Inr [?a0, ?a1]"
    using as by (simp add: example_config_def)
  have fits: "dispatch_fits 64 ?C (sf_path ?sf) (size_bytes ?sf) (length [0 :: SenderId, 2])" "ascii_text sid"
    using example_config_valid(2) by (simp_all add: dispatch_fits_def sid_def generate_session_id_def ascii_text_hex)
  note payload = assignment_payload_returns[OF example_acceptable example_regular(2)[unfolded example_runtime]
      example_config_valid(1) as' _ fits]
  obtain p0 where p0: "assignment_payload unary_protobuf ?C sid ?sf ?a0 = Inr p0"
    using payload[of ?a0] by auto
  obtain p1 where p1: "assignment_payload unary_protobuf ?C sid ?sf ?a1 = Inr p1"
    using payload[of ?a1] by auto
  note p = p0 p1
  have rt: "dp_runtime ?P = unary_protobuf" by (simp add: completing_ports_def example_ports_def)
  have ids: "sa_sender_id ?a0 = 0" "sa_sender_id ?a1 = 2" by (simp_all add: assignment_at_def)
  have active: "active_senders 1 (w_registry ?w) = ([0, 2], w_registry ?w)"
    by (simp add: example_world_def active_senders_def purge_expired_def expired_at_def)
  have count: "calculate_block_count 10 (dc_fec_params ?C) = Inr 10"
    using calculate_block_count_eq[of example_fec 10] example_config_valid(1)
    by (simp add: example_config_def example_fec_def block_size_def ceil_div_def)
  have d0: "deliver ?P sid ?a0 p0 w = (Inr True, emit (Sent 0 p0 (Inr ())) w)" for w
    by (simp add: deliver_def MAX_DISPATCH_ATTEMPTS_def ids ipc_send_def completing_ports_def
        upt_conv_Cons emit_def)
  have d1: "\<exists>w1. deliver ?P sid ?a1 p1 w = (Inr False, w1)
      \<and> Slept DISPATCH_RETRY_DELAY_SECONDS \<in> set (w_trace w1)" for w
    by (simp add: deliver_def MAX_DISPATCH_ATTEMPTS_def ids ipc_send_def completing_ports_def clock_sleep_def
        handle_incoming_def dec handlers_get handle_session_complete_def upt_conv_Cons emit_def Let_def
        split: prod.splits)
  have stays: "\<exists>w1. send_to_senders ?P ?C sid ?sf 10 [0, 2] w = (Inr (Some [0]), w1)
      \<and> Slept DISPATCH_RETRY_DELAY_SECONDS \<in> set (w_trace w1)" for w
  proof -
    have base: "dc_base_port ?C = 9000" by (simp add: example_config_def)
    obtain w1 where "deliver ?P sid ?a1 p1 (emit (Logged (SessionDispatched sid 0 (shard_residue ?a0) (shard_modulus ?a0)
        (sa_target_port ?a0) (length (assigned_blocks ?a0)))) (emit (Sent 0 p0 (Inr ())) w)) = (Inr False, w1)"
      "Slept DISPATCH_RETRY_DELAY_SECONDS \<in> set (w_trace w1)"
      using d1 by blast
    then show ?thesis
      by (simp add: send_to_senders_def base as rt p d0 ids log_partial_failure_def emit_def)
  qed
  have hash: "hasher_compute_hash ?P example_path ?w = (Inr (bytes_hex (replicate 32 171)), ?w)"
    using example_hash by (simp add: hasher_compute_hash_def completing_ports_def)
  have stat: "dp_stat ?P example_path = Inr 10" "dp_now ?P tr = 1" "dp_token_bytes ?P tr = (\<lambda>n. replicate n 7)" for tr
    by (simp_all add: completing_ports_def example_ports_def)
  have "generate_session_id (dp_token_bytes ?P tr) = sid" for tr
    unfolding sid_def stat by simp
  then obtain w1 where "dispatch ?P ?C example_path ?w
      = (Inr (Some sid), w1\<lparr>dispatched_sessions := dict_set sid [0] (dispatched_sessions w1)\<rparr>)"
    "Slept DISPATCH_RETRY_DELAY_SECONDS \<in> set (w_trace w1)"
    using stays[of ?w] by (auto simp: dispatch_def stat hash active count)
  with dec show ?thesis
    by (intro exI[of _ sid] exI[of _ raw]) auto
qed

section \<open>Properties\<close>

text \<open>C8: A sender stays in the list the dispatcher takes its targets from exactly as long as its hello or
  heartbeat messages keep coming: whatever messages the loop handles and whatever registry operations
  the other tasks run in between, the active senders afterwards are those whose last hello or heartbeat
  since their last removal is less than the timeout ago.\<close>

theorem incoming_messages_keep_senders_active:
  assumes "run_incoming_dispatch_loop pb arrivals w = (Inr (), w')"
    and "list_all2 (changes_by w_registry apply_registry_op) arrivals opss"
    and "w_registry w = SenderRegistry interval"
    and "sorted (map fst (loop_history (message_ops pb) arrivals opss) @ [t])"
  shows "fst (active_senders t (w_registry w')) = sorted_list_of_set
    {s. \<exists>u. last_contact (loop_history (message_ops pb) arrivals opss) s = Some u
        \<and> py_fsub t u < timeout_seconds (SenderRegistry interval)}"
  unfolding registry_part.after_loop[OF assms(1,2)] assms(3) by (rule active_after_history[OF assms(4)])

theorem incoming_messages_keep_senders_active_witness:
  "\<exists>w'. run_incoming_dispatch_loop unary_protobuf (arrivals_of 3 [(7, hello_bytes)])
      (\<lparr>w_registry = SenderRegistry 5, w_ipc = (), dispatched_sessions = [], w_trace = []\<rparr>) = (Inr (), w')
    \<and> fst (active_senders 4 (w_registry w')) = sorted_list_of_set
      {s. \<exists>u. last_contact [(3, Register 7)] s = Some u
        \<and> py_fsub 4 u < timeout_seconds (SenderRegistry 5)}"
proof -
  let ?w = "\<lparr>w_registry = SenderRegistry 5, w_ipc = (), dispatched_sessions = [], w_trace = []\<rparr>"
  let ?as = "arrivals_of 3 [(7, hello_bytes)] :: unit arrival list"
  have run: "run_incoming_dispatch_loop unary_protobuf ?as ?w
      = (Inr (), ?w\<lparr>w_registry := register 3 7 (SenderRegistry 5)\<rparr>)"
    by (simp add: arrivals_of_def handle_incoming_def decode_hello_bytes handlers_get handle_sender_hello_def)
  have hist: "loop_history (message_ops unary_protobuf) ?as [[]] = [(3, Register 7)]"
    by (simp add: arrivals_of_def message_ops_def decode_hello_bytes)
  have "fst (active_senders 4 (w_registry (?w\<lparr>w_registry := register 3 7 (SenderRegistry 5)\<rparr>)))
      = sorted_list_of_set {s. \<exists>u. last_contact (loop_history (message_ops unary_protobuf) ?as [[]]) s = Some u
        \<and> py_fsub 4 u < timeout_seconds (SenderRegistry 5)}"
    by (rule incoming_messages_keep_senders_active[OF run])
      (simp_all add: hist, simp_all add: arrivals_of_def changes_by_def)
  with run show ?thesis unfolding hist by blast
qed

text \<open>A session stays in the dispatcher's table, with the senders it was dispatched to, until a message
  of any sender reports it complete; no other message touches the table.\<close>

theorem sessions_recorded_until_completed:
  assumes "run_incoming_dispatch_loop pb arrivals w = (Inr (), w')"
    and "list_all2 (changes_by dispatched_sessions apply_session_op) arrivals opss"
    and "dispatched_sessions w = []"
  shows "dict_get (dispatched_sessions w') sid = Some ss \<longleftrightarrow>
    (\<exists>pre post. loop_history (message_session_ops pb) arrivals opss = pre @ SessionOpened sid ss # post
      \<and> (\<forall>x\<in>set post. \<not> concerns sid x))"
  unfolding session_part.after_loop[OF assms(1,2)] assms(3) by (rule fold_session_ops_iff)

definition complete_bytes :: bytes where
  "complete_bytes = pb_serialize unary_protobuf
     (Some (SESSION_COMPLETE_FIELD_NAME, SessionComplete ''aa'' 0))"

theorem sessions_recorded_until_completed_witness:
  "\<exists>w' :: unit world. run_incoming_dispatch_loop unary_protobuf
      [\<lparr>ar_before = (\<lambda>w. w\<lparr>dispatched_sessions := dict_set ''bb'' [8] (dict_set ''aa'' [7] (dispatched_sessions w))\<rparr>),
        ar_now = 3, ar_sender = 7, ar_raw = complete_bytes\<rparr>]
      \<lparr>w_registry = SenderRegistry 5, w_ipc = (), dispatched_sessions = [], w_trace = []\<rparr> = (Inr (), w')
    \<and> dict_get (dispatched_sessions w') ''bb'' = Some [8]"
proof -
  let ?a = "\<lparr>ar_before = (\<lambda>w. w\<lparr>dispatched_sessions := dict_set ''bb'' [8] (dict_set ''aa'' [7] (dispatched_sessions w))\<rparr>),
    ar_now = 3, ar_sender = 7, ar_raw = complete_bytes\<rparr> :: unit arrival"
  let ?ops = "[[SessionOpened ''aa'' [7], SessionOpened ''bb'' [8]]]"
  have dec: "decode unary_protobuf complete_bytes
      = Inr (SESSION_COMPLETE_FIELD_NAME, SessionComplete ''aa'' 0)"
    unfolding complete_bytes_def by (rule decode_serialize[OF unary_parses_back])
  obtain w' where run: "run_incoming_dispatch_loop unary_protobuf [?a]
      \<lparr>w_registry = SenderRegistry 5, w_ipc = (), dispatched_sessions = [], w_trace = []\<rparr> = (Inr (), w')"
    by (simp add: handle_incoming_def dec handlers_get handle_session_complete_def)
  have "loop_history (message_session_ops unary_protobuf) [?a] ?ops
      = [SessionOpened ''aa'' [7]] @ SessionOpened ''bb'' [8] # [SessionClosed ''aa'']"
    by (simp add: message_session_ops_def dec)
  then have "dict_get (dispatched_sessions w') ''bb'' = Some [8]"
    by (subst sessions_recorded_until_completed[OF run, of ?ops])
      (simp_all add: changes_by_def, intro exI[of _ "[SessionOpened ''aa'' [7]]",
        OF exI[of _ "[SessionClosed ''aa'']"]], simp)
  with run show ?thesis by blast
qed

text \<open>A connected sender can end the service's message loop: one message that does not decode raises out
  of the loop, after the messages before it were handled, and no message after it is ever handled.\<close>

theorem undecodable_message_ends_incoming_loop:
  assumes "c < length (conns u)" "c_phase (conns u ! c) = Reading" "c_sender (conns u ! c) = Some s"
    and "length (incoming u) < INCOMING_QUEUE_MAXSIZE" "sock_recv packet \<noteq> []"
    and "decode pb (sock_recv packet) = Inl e"
    and "run_incoming_dispatch_loop pb (arrivals_of t (incoming u)) w = (Inr (), w1)"
  shows "\<exists>u'. uds_step pb u (Recv c packet) u'
    \<and> (\<forall>later. run_incoming_dispatch_loop pb (arrivals_of t (incoming u' @ later)) w = (Inl e, w1))"
proof (intro exI conjI allI)
  show "uds_step pb u (Recv c packet) (handle_recv pb c (sock_recv packet) u)" by (rule uds_step.recv[OF assms(1,2)])
next
  fix later
  show "run_incoming_dispatch_loop pb (arrivals_of t (incoming (handle_recv pb c (sock_recv packet) u) @ later)) w = (Inl e, w1)"
    using assms(6,7)
    by (simp add: recv_known_sender[OF assms(3,5,4)] arrivals_of_append incoming_loop_append)
      (simp add: arrivals_of_def handle_incoming_def)
qed

theorem undecodable_message_ends_incoming_loop_witness:
  "\<exists>u' w1. uds_step unary_protobuf connected_once (Recv 0 (pb_serialize unary_protobuf None)) u'
    \<and> run_incoming_dispatch_loop unary_protobuf (arrivals_of 3 (incoming u' @ [(7, hello_bytes)]))
        (\<lparr>w_registry = SenderRegistry 5, w_ipc = (), dispatched_sessions = [], w_trace = []\<rparr>)
      = (Inl (ValueError EnvelopeEmpty), w1)"
proof -
  let ?w = "\<lparr>w_registry = SenderRegistry 5, w_ipc = (), dispatched_sessions = [], w_trace = []\<rparr>"
  obtain w1 where run: "run_incoming_dispatch_loop unary_protobuf (arrivals_of 3 (incoming connected_once)) ?w
      = (Inr (), w1)"
    by (simp add: connected_once_eq arrivals_of_def handle_incoming_def decode_hello_bytes handlers_get
        handle_sender_hello_def)
  have dec: "decode unary_protobuf (sock_recv (pb_serialize unary_protobuf None)) = Inl (ValueError EnvelopeEmpty)"
    by (simp add: sock_recv_def RECV_BUFFER_BYTES_def decode_def unary_protobuf_def)
  have "sock_recv (pb_serialize unary_protobuf None) \<noteq> []" by (simp add: sock_recv_def RECV_BUFFER_BYTES_def)
  note raw = this dec
  have "0 < length (conns connected_once)" "c_phase (conns connected_once ! 0) = Reading"
    "c_sender (conns connected_once ! 0) = Some 7" "length (incoming connected_once) < INCOMING_QUEUE_MAXSIZE"
    by (simp_all add: connected_once_eq INCOMING_QUEUE_MAXSIZE_def)
  from undecodable_message_ends_incoming_loop[OF this raw run] show ?thesis by blast
qed

text \<open>A dispatch that raises costs the service that one path only: the pipeline records the failure with
  its path and goes on, so that every path the watcher yields is dispatched once and in order unless the
  pipeline itself is cancelled, and nothing but the end of the watcher or a cancellation ends it.\<close>

theorem pipeline_dispatches_every_path:
  assumes "run_detection_pipeline P C items fin w = (r, w')" "r \<noteq> Inl CancelledError"
  shows "r = fin \<and> (\<exists>ws. length ws = Suc (length items) \<and> ws ! 0 = w \<and> ws ! length items = w'
    \<and> (\<forall>i < length items. \<exists>q w1. dispatch P C (snd (items ! i)) (fst (items ! i) (ws ! i)) = (q, w1)
        \<and> q \<noteq> Inl CancelledError \<and> ws ! Suc i = after_dispatch (snd (items ! i)) q w1))"
  by (rule pipeline_worlds[OF assms])

theorem pipeline_dispatches_every_path_witness:
  "\<exists>w' ws. run_detection_pipeline (example_ports\<lparr>dp_stat := (\<lambda>_. Inl OSError)\<rparr>) example_config
      [(id, Path ''/watch/gone''), (id, Path ''/watch/gone2'')] (Inl RuntimeError) example_world
      = (Inl RuntimeError, w')
    \<and> length ws = 3 \<and> ws ! 0 = example_world \<and> ws ! 2 = w'"
proof -
  obtain w' where run: "run_detection_pipeline (example_ports\<lparr>dp_stat := (\<lambda>_. Inl OSError)\<rparr>) example_config
      [(id, Path ''/watch/gone''), (id, Path ''/watch/gone2'')] (Inl RuntimeError) example_world
      = (Inl RuntimeError, w')"
    by (simp add: dispatch_def)
  from pipeline_dispatches_every_path[OF this] obtain ws where
    "length ws = 3" "ws ! 0 = example_world" "ws ! 2 = w'"
    by (auto simp: numeral_2_eq_2 numeral_3_eq_3)
  with run show ?thesis by blast
qed

end
