(* ===== verification/Watcher.thy ===== *)
theory Watcher imports Transition Models begin

text \<open>
  \<open>services/watcher.py\<close>: the debouncer between the raw file events and the dispatcher. A debounce
  task is identified by its position in the order of creation, and \<open>pending\<close> maps a path to the
  task last created for it. The steps are the stretches of \<open>_consume_raw_events\<close>, of the debounce
  tasks and of \<open>_listen\<close> between two suspensions, and the passing of time. The clock is left open
  but for its documented law: a sleep of \<open>d\<close> seconds does not end before \<open>d\<close> seconds have passed.
  The log of events and emissions, and the paths yielded, are ghosts.
\<close>

section \<open>State\<close>

datatype task_state = TaskCreated | TaskSleeping pyfloat | TaskDone | TaskCancelled

datatype consumer_state = ConsumerRunning | ConsumerEnded | ConsumerFailed exn | ConsumerCancelled

datatype listen_state = Waiting | Holding path | Suspended | Stopped "exn option"

datatype watch_event = Seen path pyfloat | Emitted path pyfloat

record watcher =
  debounce_seconds :: pyfloat
  pending :: "(path, nat) dict"
  tasks :: "(path \<times> task_state) list"
  stable_paths :: "path list"
  consumer :: consumer_state
  listen_at :: listen_state
  file_events_closed :: bool
  now :: pyfloat
  yielded :: "path list"
  watch_log :: "watch_event list"

definition DirectoryWatcher :: "pyfloat \<Rightarrow> pyfloat \<Rightarrow> watcher" where
  "DirectoryWatcher d t =
     \<lparr>debounce_seconds = d, pending = [], tasks = [], stable_paths = [],
      consumer = ConsumerRunning, listen_at = Waiting, file_events_closed = False, now = t,
      yielded = [], watch_log = []\<rparr>"

section \<open>Operations\<close>

fun live_task :: "task_state \<Rightarrow> bool" where
  "live_task TaskCreated = True"
| "live_task (TaskSleeping t) = True"
| "live_task TaskDone = False"
| "live_task TaskCancelled = False"

definition set_task :: "nat \<Rightarrow> task_state \<Rightarrow> watcher \<Rightarrow> watcher" where
  "set_task i s w = w\<lparr>tasks := (tasks w)[i := (fst (tasks w ! i), s)]\<rparr>"

text \<open>\<open>Task.cancel\<close>: no effect on a task that has ended.\<close>

definition cancel_task :: "nat \<Rightarrow> watcher \<Rightarrow> watcher" where
  "cancel_task i w =
     (if live_task (snd (tasks w ! i)) then set_task i TaskCancelled w else w)"

definition debounce :: "path \<Rightarrow> watcher \<Rightarrow> watcher" where
  "debounce p w =
     (let w1 = (case dict_get (pending w) p of None \<Rightarrow> w | Some i \<Rightarrow> cancel_task i w)
      in w1\<lparr>tasks := tasks w1 @ [(p, TaskCreated)],
           pending := dict_set p (length (tasks w1)) (pending w1),
           watch_log := watch_log w1 @ [Seen p (now w1)]\<rparr>)"

text \<open>The debounce task up to its sleep, and from the end of its sleep.\<close>

definition start_sleep :: "nat \<Rightarrow> watcher \<Rightarrow> watcher" where
  "start_sleep i w = set_task i (TaskSleeping (now w + debounce_seconds w)) w"

definition emit_when_stable :: "nat \<Rightarrow> watcher \<Rightarrow> watcher" where
  "emit_when_stable i w =
     (let p = fst (tasks w ! i);
          w1 = (if dict_get (pending w) p = Some i then w\<lparr>pending := dict_pop p (pending w)\<rparr> else w)
      in set_task i TaskDone (w1\<lparr>stable_paths := stable_paths w1 @ [p],
           watch_log := watch_log w1 @ [Emitted p (now w1)]\<rparr>))"

text \<open>The \<open>finally\<close> block of \<open>_listen\<close>.\<close>

definition stop_listening :: "exn option \<Rightarrow> watcher \<Rightarrow> watcher" where
  "stop_listening e w =
     (let w1 = fold cancel_task (map snd (pending w)) w
      in w1\<lparr>consumer := (if consumer w1 = ConsumerRunning then ConsumerCancelled else consumer w1),
           listen_at := Stopped e, file_events_closed := True\<rparr>)"

text \<open>The branch \<open>if consumer_task in done\<close>.\<close>

definition consumer_done :: "watcher \<Rightarrow> watcher" where
  "consumer_done w =
     (case consumer w of
        ConsumerFailed e \<Rightarrow> stop_listening (Some e) w
      | _ \<Rightarrow> stop_listening (Some RuntimeError) w)"

definition is_stopped :: "watcher \<Rightarrow> bool" where
  "is_stopped w \<longleftrightarrow> (\<exists>e. listen_at w = Stopped e)"

section \<open>Steps\<close>

datatype watch_label =
    RawEvent path
  | StartTask nat
  | Fire nat
  | TakePath
  | YieldPath
  | ResumeListen
  | ConsumerStops consumer_state
  | NoticeConsumer
  | CloseListen
  | Tick pyfloat

inductive watch_step :: "watcher \<Rightarrow> watch_label \<Rightarrow> watcher \<Rightarrow> bool" where
  raw_event: "consumer w = ConsumerRunning \<Longrightarrow> watch_step w (RawEvent p) (debounce p w)"
| start_task: "i < length (tasks w) \<Longrightarrow> snd (tasks w ! i) = TaskCreated \<Longrightarrow>
    watch_step w (StartTask i) (start_sleep i w)"
| fire: "i < length (tasks w) \<Longrightarrow> snd (tasks w ! i) = TaskSleeping wake \<Longrightarrow> wake \<le> now w \<Longrightarrow>
    watch_step w (Fire i) (emit_when_stable i w)"
| take_path: "listen_at w = Waiting \<Longrightarrow> stable_paths w = p # ps \<Longrightarrow>
    watch_step w TakePath (w\<lparr>stable_paths := ps, listen_at := Holding p\<rparr>)"
| yield_path: "listen_at w = Holding p \<Longrightarrow> consumer w = ConsumerRunning \<Longrightarrow>
    watch_step w YieldPath (w\<lparr>yielded := yielded w @ [p], listen_at := Suspended\<rparr>)"
| resume_listen: "listen_at w = Suspended \<Longrightarrow> watch_step w ResumeListen (w\<lparr>listen_at := Waiting\<rparr>)"
| consumer_stops: "consumer w = ConsumerRunning \<Longrightarrow> c = ConsumerEnded \<or> (\<exists>e. c = ConsumerFailed e) \<Longrightarrow>
    watch_step w (ConsumerStops c) (w\<lparr>consumer := c\<rparr>)"
| notice_consumer: "listen_at w = Waiting \<or> (\<exists>p. listen_at w = Holding p) \<Longrightarrow>
    consumer w \<noteq> ConsumerRunning \<Longrightarrow> watch_step w NoticeConsumer (consumer_done w)"
| close_listen: "\<not> is_stopped w \<Longrightarrow> watch_step w CloseListen (stop_listening None w)"
| tick: "now w \<le> t \<Longrightarrow> watch_step w (Tick t) (w\<lparr>now := t\<rparr>)"

section \<open>Bursts\<close>

text \<open>
  \<open>open_burst p evs\<close> is the time of the last event on \<open>p\<close> if it was not emitted since.
\<close>

fun burst_step :: "path \<Rightarrow> watch_event \<Rightarrow> pyfloat option \<Rightarrow> pyfloat option" where
  "burst_step p (Seen q t) b = (if q = p then Some t else b)"
| "burst_step p (Emitted q t) b = (if q = p then None else b)"

definition open_burst :: "path \<Rightarrow> watch_event list \<Rightarrow> pyfloat option" where
  "open_burst p evs = fold (burst_step p) evs None"

lemma open_burst_nil [simp]: "open_burst p [] = None"
  by (simp add: open_burst_def)

lemma open_burst_snoc [simp]: "open_burst p (evs @ [e]) = burst_step p e (open_burst p evs)"
  by (simp add: open_burst_def)

definition debounced :: "pyfloat \<Rightarrow> watch_event list \<Rightarrow> bool" where
  "debounced d evs \<longleftrightarrow> (\<forall>pre p t post. evs = pre @ Emitted p t # post \<longrightarrow>
     (\<exists>s. open_burst p pre = Some s \<and> s + d \<le> t))"

lemma debounced_nil [simp]: "debounced d []"
  by (simp add: debounced_def)

lemma debounced_Seen: "debounced d evs \<Longrightarrow> debounced d (evs @ [Seen p t])"
  by (auto simp: debounced_def snoc_eq_split)

lemma debounced_Emitted:
  "debounced d evs \<Longrightarrow> open_burst p evs = Some s \<Longrightarrow> s + d \<le> t \<Longrightarrow>
    debounced d (evs @ [Emitted p t])"
  by (auto simp: debounced_def snoc_eq_split)

fun emitted_paths :: "watch_event list \<Rightarrow> path list" where
  "emitted_paths [] = []"
| "emitted_paths (Seen p t # es) = emitted_paths es"
| "emitted_paths (Emitted p t # es) = p # emitted_paths es"

lemma emitted_paths_append [simp]: "emitted_paths (xs @ ys) = emitted_paths xs @ emitted_paths ys"
  by (induction xs rule: emitted_paths.induct) auto

section \<open>The invariant\<close>

text \<open>The paths handed to the listener so far, the one it holds and the queue are all the emitted.\<close>

fun handed_over :: "listen_state \<Rightarrow> path list \<Rightarrow> path list \<Rightarrow> path list \<Rightarrow> bool" where
  "handed_over Waiting given queued emitted \<longleftrightarrow> emitted = given @ queued"
| "handed_over Suspended given queued emitted \<longleftrightarrow> emitted = given @ queued"
| "handed_over (Holding p) given queued emitted \<longleftrightarrow> emitted = given @ p # queued"
| "handed_over (Stopped e) given queued emitted \<longleftrightarrow>
     (\<exists>lost. emitted = given @ lost @ queued \<and> length lost \<le> 1)"

text \<open>A live task: it is the pending task of its path, and wakes late enough for the last event.\<close>

definition live_ok :: "watcher \<Rightarrow> nat \<Rightarrow> bool" where
  "live_ok w i \<longleftrightarrow> dict_get (pending w) (fst (tasks w ! i)) = Some i
     \<and> (\<exists>t. open_burst (fst (tasks w ! i)) (watch_log w) = Some t
        \<and> (\<forall>wake. snd (tasks w ! i) = TaskSleeping wake \<longrightarrow> t + debounce_seconds w \<le> wake))"

definition watch_inv :: "watcher \<Rightarrow> bool" where
  "watch_inv w \<longleftrightarrow>
     debounced (debounce_seconds w) (watch_log w)
     \<and> (\<forall>p t. open_burst p (watch_log w) = Some t \<longrightarrow> t \<le> now w)
     \<and> (\<forall>p i. dict_get (pending w) p = Some i \<longrightarrow> i < length (tasks w) \<and> fst (tasks w ! i) = p)
     \<and> (\<forall>i < length (tasks w). live_task (snd (tasks w ! i)) \<longrightarrow> live_ok w i)
     \<and> handed_over (listen_at w) (yielded w) (stable_paths w) (emitted_paths (watch_log w))
     \<and> (if is_stopped w
        then consumer w \<noteq> ConsumerRunning \<and> file_events_closed w
          \<and> (\<forall>i < length (tasks w). \<not> live_task (snd (tasks w ! i)))
        else (\<forall>p. open_burst p (watch_log w) = None \<longleftrightarrow> dict_get (pending w) p = None)
          \<and> (\<forall>p i. dict_get (pending w) p = Some i \<longrightarrow> live_task (snd (tasks w ! i))))"

lemma inv_pending_task:
  "watch_inv w \<Longrightarrow> dict_get (pending w) p = Some i \<Longrightarrow> i < length (tasks w) \<and> fst (tasks w ! i) = p"
  by (simp add: watch_inv_def)

lemma inv_live: "watch_inv w \<Longrightarrow> i < length (tasks w) \<Longrightarrow> live_task (snd (tasks w ! i)) \<Longrightarrow> live_ok w i"
  by (simp add: watch_inv_def)

lemma inv_live_running:
  "watch_inv w \<Longrightarrow> i < length (tasks w) \<Longrightarrow> live_task (snd (tasks w ! i)) \<Longrightarrow> \<not> is_stopped w"
  by (auto simp: watch_inv_def split: if_splits)

lemma inv_handed:
  "watch_inv w \<Longrightarrow> handed_over (listen_at w) (yielded w) (stable_paths w) (emitted_paths (watch_log w))"
  by (simp add: watch_inv_def)

lemma set_task_fields [simp]:
  "pending (set_task i s w) = pending w" "stable_paths (set_task i s w) = stable_paths w"
  "consumer (set_task i s w) = consumer w" "listen_at (set_task i s w) = listen_at w"
  "now (set_task i s w) = now w" "yielded (set_task i s w) = yielded w"
  "watch_log (set_task i s w) = watch_log w" "debounce_seconds (set_task i s w) = debounce_seconds w"
  "file_events_closed (set_task i s w) = file_events_closed w"
  "is_stopped (set_task i s w) = is_stopped w"
  "length (tasks (set_task i s w)) = length (tasks w)"
  by (simp_all add: set_task_def is_stopped_def)

lemma tasks_set_task:
  "tasks (set_task i s w) ! j
    = (if j = i \<and> i < length (tasks w) then (fst (tasks w ! i), s) else tasks w ! j)"
  by (auto simp: set_task_def nth_list_update list_update_beyond not_less)

lemma cancel_task_fields [simp]:
  "pending (cancel_task i w) = pending w" "stable_paths (cancel_task i w) = stable_paths w"
  "consumer (cancel_task i w) = consumer w" "listen_at (cancel_task i w) = listen_at w"
  "now (cancel_task i w) = now w" "yielded (cancel_task i w) = yielded w"
  "watch_log (cancel_task i w) = watch_log w"
  "debounce_seconds (cancel_task i w) = debounce_seconds w"
  "file_events_closed (cancel_task i w) = file_events_closed w"
  "length (tasks (cancel_task i w)) = length (tasks w)"
  "fst (tasks (cancel_task i w) ! j) = fst (tasks w ! j)"
  by (simp_all add: cancel_task_def tasks_set_task)

lemma live_cancel_task:
  "j < length (tasks w) \<Longrightarrow> live_task (snd (tasks (cancel_task i w) ! j))
    \<longleftrightarrow> j \<noteq> i \<and> live_task (snd (tasks w ! j))"
  by (auto simp: cancel_task_def tasks_set_task)

lemma other_cancel_task: "j \<noteq> i \<Longrightarrow> tasks (cancel_task i w) ! j = tasks w ! j"
  by (simp add: cancel_task_def tasks_set_task)

lemma debounce_fields [simp]:
  "pending (debounce p w) = dict_set p (length (tasks w)) (pending w)"
  "stable_paths (debounce p w) = stable_paths w" "consumer (debounce p w) = consumer w"
  "listen_at (debounce p w) = listen_at w" "now (debounce p w) = now w"
  "yielded (debounce p w) = yielded w" "watch_log (debounce p w) = watch_log w @ [Seen p (now w)]"
  "debounce_seconds (debounce p w) = debounce_seconds w"
  "file_events_closed (debounce p w) = file_events_closed w"
  "is_stopped (debounce p w) = is_stopped w"
  "length (tasks (debounce p w)) = Suc (length (tasks w))"
  by (simp_all add: debounce_def is_stopped_def Let_def split: option.splits)

lemma debounce_new_task: "tasks (debounce p w) ! length (tasks w) = (p, TaskCreated)"
proof -
  let ?w1 = "case dict_get (pending w) p of None \<Rightarrow> w | Some i \<Rightarrow> cancel_task i w"
  have "length (tasks ?w1) = length (tasks w)" by (simp split: option.splits)
  then show ?thesis
    using nth_append_length[of "tasks ?w1" "(p, TaskCreated)" "[]"]
    by (simp add: debounce_def Let_def)
qed

lemma debounce_old_tasks:
  assumes "j < length (tasks w)"
  shows "fst (tasks (debounce p w) ! j) = fst (tasks w ! j)"
    and "live_task (snd (tasks (debounce p w) ! j))
      \<longleftrightarrow> dict_get (pending w) p \<noteq> Some j \<and> live_task (snd (tasks w ! j))"
    and "dict_get (pending w) p \<noteq> Some j \<Longrightarrow> tasks (debounce p w) ! j = tasks w ! j"
  using assms
  by (auto simp: debounce_def Let_def nth_append live_cancel_task other_cancel_task
      split: option.splits)

lemma inv_debounce:
  assumes inv: "watch_inv w" and run: "consumer w = ConsumerRunning"
  shows "watch_inv (debounce p w)"
proof -
  let ?w = "debounce p w" and ?n = "length (tasks w)"
  have stopped: "\<not> is_stopped w" using inv run by (auto simp: watch_inv_def split: if_splits)
  have live: "live_ok ?w i" if i: "i < Suc ?n" "live_task (snd (tasks ?w ! i))" for i
  proof (cases "i = ?n")
    case True
    then show ?thesis by (simp add: live_ok_def debounce_new_task)
  next
    case False
    then have i': "i < ?n" using i(1) by simp
    have l: "dict_get (pending w) p \<noteq> Some i" "live_task (snd (tasks w ! i))"
      using i(2) debounce_old_tasks(2)[OF i'] by blast+
    from inv_live[OF inv i' l(2)] have ok: "live_ok w i" .
    then have "fst (tasks w ! i) \<noteq> p" using l(1) by (auto simp: live_ok_def)
    with ok show ?thesis by (simp add: live_ok_def debounce_old_tasks(3)[OF i' l(1)])
  qed
  have mapped: "i < length (tasks ?w) \<and> fst (tasks ?w ! i) = q \<and> live_task (snd (tasks ?w ! i))"
    if "dict_get (pending ?w) q = Some i" for q i
  proof (cases "q = p")
    case True
    then have "i = ?n" using that by simp
    with True debounce_new_task[of p w] show ?thesis by simp
  next
    case False
    then have q: "dict_get (pending w) q = Some i" using that by simp
    have i: "i < ?n" "fst (tasks w ! i) = q" using inv_pending_task[OF inv q] by auto
    have "dict_get (pending w) p \<noteq> Some i" using inv_pending_task[OF inv, of p i] i False by auto
    moreover have "live_task (snd (tasks w ! i))" using inv stopped q by (simp add: watch_inv_def)
    ultimately show ?thesis using i debounce_old_tasks[OF i(1), of p] by simp
  qed
  have "debounced (debounce_seconds w) (watch_log w @ [Seen p (now w)])"
    using inv by (simp add: watch_inv_def debounced_Seen)
  moreover have "handed_over (listen_at w) (yielded w) (stable_paths w)
      (emitted_paths (watch_log w @ [Seen p (now w)]))"
    using inv_handed[OF inv] by simp
  moreover have "open_burst q (watch_log w @ [Seen p (now w)]) = None
      \<longleftrightarrow> dict_get (pending ?w) q = None" for q
    using inv stopped by (auto simp: watch_inv_def)
  moreover have "t \<le> now w" if "open_burst q (watch_log w @ [Seen p (now w)]) = Some t" for q t
    using inv that by (auto simp: watch_inv_def split: if_splits)
  ultimately show ?thesis
    unfolding watch_inv_def using live mapped stopped by simp
qed

lemma start_sleep_fields [simp]:
  "pending (start_sleep i w) = pending w" "stable_paths (start_sleep i w) = stable_paths w"
  "consumer (start_sleep i w) = consumer w" "listen_at (start_sleep i w) = listen_at w"
  "now (start_sleep i w) = now w" "yielded (start_sleep i w) = yielded w"
  "watch_log (start_sleep i w) = watch_log w" "debounce_seconds (start_sleep i w) = debounce_seconds w"
  "file_events_closed (start_sleep i w) = file_events_closed w"
  "is_stopped (start_sleep i w) = is_stopped w"
  "length (tasks (start_sleep i w)) = length (tasks w)"
  by (simp_all add: start_sleep_def)

lemma inv_start_sleep:
  assumes inv: "watch_inv w" and i: "i < length (tasks w)" "snd (tasks w ! i) = TaskCreated"
  shows "watch_inv (start_sleep i w)"
proof -
  let ?w = "start_sleep i w"
  have ok: "live_ok w i" by (rule inv_live[OF inv i(1)]) (simp add: i(2))
  have same: "fst (tasks ?w ! j) = fst (tasks w ! j)"
    "live_task (snd (tasks ?w ! j)) \<longleftrightarrow> live_task (snd (tasks w ! j))" for j
    using i by (auto simp: start_sleep_def tasks_set_task)
  have "live_ok ?w j" if "j < length (tasks w)" "live_task (snd (tasks w ! j))" for j
  proof (cases "j = i")
    case True
    have "t \<le> now w" if "open_burst (fst (tasks w ! i)) (watch_log w) = Some t" for t
      using inv that by (simp add: watch_inv_def)
    with ok True i show ?thesis by (auto simp: live_ok_def start_sleep_def tasks_set_task)
  next
    case False
    with inv_live[OF inv that] show ?thesis by (simp add: live_ok_def start_sleep_def tasks_set_task)
  qed
  with inv show ?thesis
    unfolding watch_inv_def by (auto simp: same split: if_splits)
qed

text \<open>A task that wakes up is the pending task of its path, so the identity test succeeds.\<close>

lemma emit_when_stable_eq:
  assumes inv: "watch_inv w" and i: "i < length (tasks w)" "live_task (snd (tasks w ! i))"
  shows "emit_when_stable i w = set_task i TaskDone
    (w\<lparr>pending := dict_pop (fst (tasks w ! i)) (pending w),
       stable_paths := stable_paths w @ [fst (tasks w ! i)],
       watch_log := watch_log w @ [Emitted (fst (tasks w ! i)) (now w)]\<rparr>)"
  using inv_live[OF assms] by (simp add: emit_when_stable_def live_ok_def Let_def)

lemma handed_over_emit:
  "handed_over l given queued emitted \<Longrightarrow> handed_over l given (queued @ [p]) (emitted @ [p])"
  by (cases l) auto

lemma inv_fire:
  assumes inv: "watch_inv w" and i: "i < length (tasks w)" "snd (tasks w ! i) = TaskSleeping wake"
    and "wake \<le> now w"
  shows "watch_inv (emit_when_stable i w)"
proof -
  let ?p = "fst (tasks w ! i)" and ?w = "emit_when_stable i w"
  have l: "live_task (snd (tasks w ! i))" by (simp add: i(2))
  note ok = inv_live[OF inv i(1) l] and run = inv_live_running[OF inv i(1) l]
  obtain t where t: "open_burst ?p (watch_log w) = Some t" "t + debounce_seconds w \<le> now w"
    using ok i(2) assms(4) by (auto simp: live_ok_def)
  have pend: "dict_get (pending w) ?p = Some i" using ok by (simp add: live_ok_def)
  note eq = emit_when_stable_eq[OF inv i(1) l]
  have fields: "pending ?w = dict_pop ?p (pending w)" "stable_paths ?w = stable_paths w @ [?p]"
    "watch_log ?w = watch_log w @ [Emitted ?p (now w)]" "listen_at ?w = listen_at w"
    "now ?w = now w" "yielded ?w = yielded w" "debounce_seconds ?w = debounce_seconds w"
    "is_stopped ?w = is_stopped w" "length (tasks ?w) = length (tasks w)"
    by (simp_all add: eq is_stopped_def)
  have task: "tasks ?w ! j = (if j = i then (?p, TaskDone) else tasks w ! j)" for j
    using i(1) by (simp add: eq tasks_set_task)
  have other: "fst (tasks w ! j) \<noteq> ?p" if "j < length (tasks w)" "live_task (snd (tasks w ! j))" "j \<noteq> i" for j
    using inv_live[OF inv that(1,2)] pend that(3) by (auto simp: live_ok_def)
  have live: "live_ok ?w j" if "j < length (tasks w)" "live_task (snd (tasks ?w ! j))" for j
    using that inv_live[OF inv that(1)] other[OF that(1)]
    by (cases "j = i") (simp_all add: live_ok_def task fields)
  have mapped: "j < length (tasks w) \<and> fst (tasks ?w ! j) = q \<and> live_task (snd (tasks ?w ! j))"
    if "dict_get (pending ?w) q = Some j" for q j
  proof -
    have q: "q \<noteq> ?p" "dict_get (pending w) q = Some j" using that by (auto simp: fields split: if_splits)
    have j: "j < length (tasks w)" "fst (tasks w ! j) = q" using inv_pending_task[OF inv q(2)] by auto
    moreover have "live_task (snd (tasks w ! j))" using inv run q(2) by (simp add: watch_inv_def)
    ultimately show ?thesis using q(1) by (auto simp: task)
  qed
  have "debounced (debounce_seconds w) (watch_log ?w)"
    unfolding fields by (rule debounced_Emitted[OF _ t]) (use inv in \<open>simp add: watch_inv_def\<close>)
  moreover have "handed_over (listen_at w) (yielded w) (stable_paths ?w) (emitted_paths (watch_log ?w))"
    using handed_over_emit[OF inv_handed[OF inv]] by (simp add: fields)
  moreover have "open_burst q (watch_log ?w) = None \<longleftrightarrow> dict_get (pending ?w) q = None" for q
    using inv run by (simp add: watch_inv_def fields)
  moreover have "u \<le> now w" if "open_burst q (watch_log ?w) = Some u" for q u
    using inv that by (auto simp: watch_inv_def fields split: if_splits)
  ultimately show ?thesis
    unfolding watch_inv_def using live mapped run by (simp add: fields(4-9))
qed

text \<open>Stopping cancels every live task: each is pending.\<close>

lemma fold_cancel_fields [simp]:
  "pending (fold cancel_task is w) = pending w" "stable_paths (fold cancel_task is w) = stable_paths w"
  "consumer (fold cancel_task is w) = consumer w" "listen_at (fold cancel_task is w) = listen_at w"
  "now (fold cancel_task is w) = now w" "yielded (fold cancel_task is w) = yielded w"
  "watch_log (fold cancel_task is w) = watch_log w"
  "debounce_seconds (fold cancel_task is w) = debounce_seconds w"
  "length (tasks (fold cancel_task is w)) = length (tasks w)"
  "fst (tasks (fold cancel_task is w) ! j) = fst (tasks w ! j)"
  by (induction "is" arbitrary: w) simp_all

lemma live_fold_cancel:
  "j < length (tasks w) \<Longrightarrow> live_task (snd (tasks (fold cancel_task is w) ! j))
    \<longleftrightarrow> j \<notin> set is \<and> live_task (snd (tasks w ! j))"
  by (induction "is" arbitrary: w) (auto simp: live_cancel_task)

lemma stop_listening_fields [simp]:
  "pending (stop_listening e w) = pending w" "stable_paths (stop_listening e w) = stable_paths w"
  "listen_at (stop_listening e w) = Stopped e" "now (stop_listening e w) = now w"
  "yielded (stop_listening e w) = yielded w" "watch_log (stop_listening e w) = watch_log w"
  "debounce_seconds (stop_listening e w) = debounce_seconds w"
  "length (tasks (stop_listening e w)) = length (tasks w)"
  "fst (tasks (stop_listening e w) ! j) = fst (tasks w ! j)"
  "file_events_closed (stop_listening e w)" "is_stopped (stop_listening e w)"
  "consumer (stop_listening e w) \<noteq> ConsumerRunning"
  by (simp_all add: stop_listening_def Let_def is_stopped_def)

lemma stop_listening_no_live:
  assumes "watch_inv w" "j < length (tasks w)"
  shows "\<not> live_task (snd (tasks (stop_listening e w) ! j))"
proof -
  have "j \<in> set (map snd (pending w))" if "live_task (snd (tasks w ! j))"
    using inv_live[OF assms that] by (force simp: live_ok_def dest: map_of_SomeD)
  then show ?thesis
    using live_fold_cancel[OF assms(2), of "map snd (pending w)"]
    by (auto simp: stop_listening_def Let_def)
qed

lemma handed_over_stop:
  "handed_over l given queued emitted \<Longrightarrow> handed_over (Stopped e) given queued emitted"
proof (cases l)
  case (Holding p)
  then show "handed_over l given queued emitted \<Longrightarrow> ?thesis" by (intro handed_over.simps(4)[THEN iffD2] exI[of _ "[p]"]) simp
qed auto

lemma inv_stop:
  assumes "watch_inv w"
  shows "watch_inv (stop_listening e w)"
proof -
  have "handed_over (Stopped e) (yielded w) (stable_paths w) (emitted_paths (watch_log w))"
    by (rule handed_over_stop[OF inv_handed[OF assms]])
  with assms stop_listening_no_live[OF assms] show ?thesis
    unfolding watch_inv_def by (simp del: handed_over.simps)
qed

lemma inv_consumer_done: "watch_inv w \<Longrightarrow> watch_inv (consumer_done w)"
  by (simp add: consumer_done_def inv_stop split: consumer_state.splits)

lemma inv_watch_step: "watch_step w l w' \<Longrightarrow> watch_inv w \<Longrightarrow> watch_inv w'"
proof (induction rule: watch_step.induct)
  case (raw_event w p)
  then show ?case by (simp add: inv_debounce)
next
  case (start_task i w)
  then show ?case by (simp add: inv_start_sleep)
next
  case (fire i w wake)
  then show ?case by (simp add: inv_fire)
next
  case (take_path w p ps)
  have "watch_inv w \<Longrightarrow> \<not> is_stopped w" using take_path(1) by (simp add: is_stopped_def)
  with take_path show ?case by (simp add: watch_inv_def live_ok_def is_stopped_def)
next
  case (yield_path w p)
  then show ?case by (simp add: watch_inv_def live_ok_def is_stopped_def)
next
  case (resume_listen w)
  then show ?case by (simp add: watch_inv_def live_ok_def is_stopped_def)
next
  case (consumer_stops w c)
  then have "c \<noteq> ConsumerRunning" by auto
  with consumer_stops show ?case by (simp add: watch_inv_def live_ok_def is_stopped_def)
next
  case (notice_consumer w)
  then show ?case by (simp add: inv_consumer_done)
next
  case (close_listen w)
  then show ?case by (simp add: inv_stop)
next
  case (tick w t)
  then show ?case by (force simp: watch_inv_def live_ok_def is_stopped_def)
qed

definition watch_init :: "pyfloat \<Rightarrow> watcher \<Rightarrow> bool" where
  "watch_init d w \<longleftrightarrow> (\<exists>t. w = DirectoryWatcher d t)"

abbreviation watch_reachable :: "pyfloat \<Rightarrow> watcher \<Rightarrow> bool" where
  "watch_reachable d \<equiv> reachable (watch_init d) (\<lambda>w w'. \<exists>l. watch_step w l w')"

lemma inv_watch_init: "watch_inv (DirectoryWatcher d t)"
  by (simp add: watch_inv_def DirectoryWatcher_def is_stopped_def)

lemma debounce_seconds_step: "watch_step w l w' \<Longrightarrow> debounce_seconds w' = debounce_seconds w"
proof (induction rule: watch_step.induct)
  case (fire i w wake)
  then show ?case by (simp add: emit_when_stable_def Let_def)
next
  case (notice_consumer w)
  then show ?case by (simp add: consumer_done_def split: consumer_state.splits)
qed simp_all

interpretation watch_system: invariant_system "watch_init d" "\<lambda>w w'. \<exists>l. watch_step w l w'"
    "\<lambda>w. watch_inv w \<and> debounce_seconds w = d"
  for d
proof (unfold_locales, goal_cases)
  case (1 w)
  then obtain t where "w = DirectoryWatcher d t" by (auto simp: watch_init_def)
  then show ?case using inv_watch_init by (simp add: DirectoryWatcher_def)
next
  case (2 w w')
  then show ?case using inv_watch_step debounce_seconds_step by metis
qed

lemma watch_reachable_inv: "watch_reachable d w \<Longrightarrow> watch_inv w \<and> debounce_seconds w = d"
  by (rule watch_system.inv_reachable)

section \<open>Progress\<close>

lemma can_fire:
  assumes "watch_inv w" "i < length (tasks w)" "snd (tasks w ! i) = TaskSleeping wake"
  shows "\<exists>w'. execution watch_step w [Tick (max (now w) wake), Fire i] w'
    \<and> watch_log w' = watch_log w @ [Emitted (fst (tasks w ! i)) (now w')]
    \<and> stable_paths w' = stable_paths w @ [fst (tasks w ! i)]"
proof -
  let ?w1 = "w\<lparr>now := max (now w) wake\<rparr>"
  let ?w2 = "emit_when_stable i ?w1"
  have "watch_step w (Tick (max (now w) wake)) ?w1" by (rule watch_step.tick) simp
  moreover have "watch_step ?w1 (Fire i) ?w2"
    by (rule watch_step.fire[where wake = wake]) (use assms in auto)
  ultimately have "execution watch_step w ([] @ [Tick (max (now w) wake)] @ [Fire i]) ?w2"
    by (metis append.assoc append_Nil execution.intros)
  then show ?thesis
    by (intro exI[of _ ?w2]) (simp add: emit_when_stable_def Let_def)
qed

lemma pending_can_fire:
  assumes inv: "watch_inv w" and "0 \<le> debounce_seconds w"
    and i: "i < length (tasks w)" "live_task (snd (tasks w ! i))"
  shows "\<exists>ls w'. execution watch_step w ls w' \<and> set ls \<subseteq> {StartTask i, Fire i} \<union> range Tick
    \<and> watch_log w' = watch_log w @ [Emitted (fst (tasks w ! i)) (now w')]
    \<and> stable_paths w' = stable_paths w @ [fst (tasks w ! i)]"
proof (cases "snd (tasks w ! i)")
  case TaskCreated
  let ?w1 = "start_sleep i w"
  have step: "watch_step w (StartTask i) ?w1" by (rule watch_step.start_task[OF i(1) TaskCreated])
  have t: "i < length (tasks ?w1)" "snd (tasks ?w1 ! i) = TaskSleeping (now w + debounce_seconds w)"
    "fst (tasks ?w1 ! i) = fst (tasks w ! i)"
    using i(1) by (simp_all add: start_sleep_def tasks_set_task)
  obtain w' where w': "execution watch_step ?w1 [Tick (max (now w) (now w + debounce_seconds w)), Fire i] w'"
    "watch_log w' = watch_log w @ [Emitted (fst (tasks w ! i)) (now w')]"
    "stable_paths w' = stable_paths w @ [fst (tasks w ! i)]"
    using can_fire[OF inv_start_sleep[OF inv i(1) TaskCreated] t(1,2)] by (auto simp: t(3))
  with execution_Cons[OF step w'(1)] show ?thesis by fastforce
next
  case (TaskSleeping wake)
  from can_fire[OF inv i(1) this] show ?thesis by fastforce
qed (use i(2) in auto)

lemma stopped_step:
  assumes "watch_step w l w'" "is_stopped w" "watch_inv w"
  shows "watch_log w' = watch_log w"
  using assms
proof (induction rule: watch_step.induct)
  case (raw_event w p)
  then show ?case by (simp add: watch_inv_def)
next
  case (fire i w wake)
  then show ?case using inv_live_running[of w i] by simp
qed (simp_all add: consumer_done_def split: consumer_state.splits)

section \<open>A concrete run\<close>

text \<open>Two events on a path half a debounce apart, then the time the second one asks for.\<close>

definition example_watcher :: watcher where
  "example_watcher = emit_when_stable 1 ((start_sleep 1 (debounce (Path ''/w/a'')
     ((start_sleep 0 (debounce (Path ''/w/a'') (DirectoryWatcher 2 0)))\<lparr>now := 1\<rparr>)))\<lparr>now := 3\<rparr>)"

definition example_pending :: watcher where
  "example_pending = debounce (Path ''/w/a'') (DirectoryWatcher 2 0)"

lemma example_pending_reachable: "watch_reachable 2 example_pending"
proof -
  have "watch_reachable 2 (DirectoryWatcher 2 0)"
    by (rule reachable_init) (auto simp: watch_init_def)
  then show ?thesis unfolding example_pending_def
    by (rule reachable_step) (auto intro!: exI watch_step.raw_event simp: DirectoryWatcher_def)
qed

lemma example_watcher_log:
  "watch_log example_watcher = [Seen (Path ''/w/a'') 0, Seen (Path ''/w/a'') 1, Emitted (Path ''/w/a'') 3]"
  by (simp add: example_watcher_def emit_when_stable_def Let_def DirectoryWatcher_def
      start_sleep_def set_task_def debounce_def cancel_task_def)

lemma example_watcher_reachable: "watch_reachable 2 example_watcher"
proof -
  let ?p = "Path ''/w/a''"
  let ?w1 = "start_sleep 0 example_pending"
  let ?w2 = "?w1\<lparr>now := 1\<rparr>"
  let ?w3 = "debounce ?p ?w2"
  let ?w4 = "start_sleep 1 ?w3"
  let ?w5 = "?w4\<lparr>now := 3\<rparr>"
  have len: "length (tasks example_pending) = 1"
    by (simp add: example_pending_def DirectoryWatcher_def)
  have "watch_reachable 2 ?w1"
    by (rule reachable_step[OF example_pending_reachable])
      (auto intro!: exI watch_step.start_task simp: example_pending_def DirectoryWatcher_def debounce_def)
  then have "watch_reachable 2 ?w2"
    by (rule reachable_step) (auto intro!: exI watch_step.tick simp: example_pending_def DirectoryWatcher_def)
  then have "watch_reachable 2 ?w3"
    by (rule reachable_step)
      (auto intro!: exI watch_step.raw_event simp: example_pending_def DirectoryWatcher_def)
  then have "watch_reachable 2 ?w4"
    by (rule reachable_step)
      (use len debounce_new_task[of ?p ?w2] in \<open>auto intro!: exI watch_step.start_task\<close>)
  then have "watch_reachable 2 ?w5"
    by (rule reachable_step)
      (auto intro!: exI watch_step.tick simp: example_pending_def DirectoryWatcher_def)
  then show ?thesis unfolding example_watcher_def example_pending_def[symmetric]
    by (rule reachable_step)
      (use len in \<open>auto intro!: exI watch_step.fire
        simp: start_sleep_def tasks_set_task example_pending_def DirectoryWatcher_def\<close>)
qed

section \<open>Properties\<close>

text \<open>A path is emitted only when it has settled: whenever the watcher emits a path there was an
  event on it since its last emission, and the last such event is at least the debounce time ago;
  so a burst of events closer together than that is emitted once, after it ended.\<close>

theorem emitted_after_quiet_period:
  assumes "watch_reachable d w" "watch_log w = pre @ Emitted p t # post"
  shows "\<exists>s. open_burst p pre = Some s \<and> s + d \<le> t"
proof -
  have "debounced d (watch_log w)"
    using watch_reachable_inv[OF assms(1)] by (auto simp: watch_inv_def)
  with assms(2) show ?thesis by (simp add: debounced_def)
qed

theorem emitted_after_quiet_period_witness:
  "open_burst (Path ''/w/a'') [Seen (Path ''/w/a'') 0, Seen (Path ''/w/a'') 1] = Some 1
    \<and> (\<exists>s. open_burst (Path ''/w/a'') [Seen (Path ''/w/a'') 0, Seen (Path ''/w/a'') 1] = Some s
        \<and> s + 2 \<le> 3)"
proof
  show "open_burst (Path ''/w/a'') [Seen (Path ''/w/a'') 0, Seen (Path ''/w/a'') 1] = Some 1"
    by (simp add: open_burst_def)
  show "\<exists>s. open_burst (Path ''/w/a'') [Seen (Path ''/w/a'') 0, Seen (Path ''/w/a'') 1] = Some s
      \<and> s + 2 \<le> 3"
    by (rule emitted_after_quiet_period[OF example_watcher_reachable, where post = "[]"])
      (simp add: example_watcher_log)
qed

text \<open>No event is lost while the watcher listens: a path with an event since its last emission has
  a task running for it, its only one, and letting that task run and time pass emits the path.\<close>

theorem unsettled_path_is_emitted:
  assumes "watch_reachable d w" "0 \<le> d" "\<not> is_stopped w" "open_burst p (watch_log w) \<noteq> None"
  shows "\<exists>i. (\<forall>j < length (tasks w). fst (tasks w ! j) = p \<and> live_task (snd (tasks w ! j)) \<longleftrightarrow> j = i)
    \<and> (\<exists>ls w'. execution watch_step w ls w' \<and> set ls \<subseteq> {StartTask i, Fire i} \<union> range Tick
        \<and> watch_log w' = watch_log w @ [Emitted p (now w')]
        \<and> stable_paths w' = stable_paths w @ [p])"
proof -
  have inv: "watch_inv w" and d: "debounce_seconds w = d"
    using watch_reachable_inv[OF assms(1)] by auto
  obtain i where pend: "dict_get (pending w) p = Some i"
    using inv assms(3,4) by (auto simp: watch_inv_def)
  have i: "i < length (tasks w)" "fst (tasks w ! i) = p"
    using inv_pending_task[OF inv pend] by auto
  have live: "live_task (snd (tasks w ! i))"
    using inv assms(3) pend by (simp add: watch_inv_def)
  have only: "j = i" if "j < length (tasks w)" "fst (tasks w ! j) = p" "live_task (snd (tasks w ! j))" for j
    using inv_live[OF inv that(1,3)] pend that(2) by (simp add: live_ok_def)
  have "\<forall>j < length (tasks w). fst (tasks w ! j) = p \<and> live_task (snd (tasks w ! j)) \<longleftrightarrow> j = i"
    using only i(2) live by blast
  moreover note pending_can_fire[OF inv _ i(1) live, unfolded i(2) d, OF assms(2)]
  ultimately show ?thesis by blast
qed

theorem unsettled_path_is_emitted_witness:
  "\<exists>ls w'. execution watch_step example_pending ls w' \<and> stable_paths w' = [Path ''/w/a'']"
proof -
  have run: "\<not> is_stopped example_pending" and burst: "open_burst (Path ''/w/a'') (watch_log example_pending) \<noteq> None"
    and none: "stable_paths example_pending = []"
    by (simp_all add: example_pending_def DirectoryWatcher_def is_stopped_def open_burst_def)
  obtain ls w' where "execution watch_step example_pending ls w'"
    "stable_paths w' = stable_paths example_pending @ [Path ''/w/a'']"
    using unsettled_path_is_emitted[OF example_pending_reachable zero_le_numeral run burst] by blast
  then show ?thesis using none by (intro exI[of _ ls] exI[of _ w']) simp
qed

text \<open>Paths are handed to the listener in the order they were emitted, each once: while the watcher
  listens, the paths yielded, the one being handed over and the queue are all the emitted ones; and
  once it stopped, because it was closed or its event source ended, nothing is emitted any more.\<close>

theorem paths_yielded_in_order:
  assumes "watch_reachable d w"
  shows "(\<exists>rest. emitted_paths (watch_log w) = yielded w @ rest)
    \<and> (listen_at w = Waiting \<or> listen_at w = Suspended
        \<longrightarrow> emitted_paths (watch_log w) = yielded w @ stable_paths w)
    \<and> (\<forall>l w'. is_stopped w \<longrightarrow> watch_step w l w' \<longrightarrow> watch_log w' = watch_log w)"
proof (intro conjI allI impI)
  have inv: "watch_inv w" using watch_reachable_inv[OF assms] by blast
  note h = inv_handed[OF inv]
  then show "\<exists>rest. emitted_paths (watch_log w) = yielded w @ rest"
    by (cases "listen_at w") auto
  show "emitted_paths (watch_log w) = yielded w @ stable_paths w"
    if "listen_at w = Waiting \<or> listen_at w = Suspended"
    using h that by auto
  show "watch_log w' = watch_log w" if "is_stopped w" "watch_step w l w'" for l w'
    by (rule stopped_step[OF that(2,1) inv])
qed

theorem paths_yielded_in_order_witness:
  "emitted_paths (watch_log example_watcher) = yielded example_watcher @ stable_paths example_watcher"
proof -
  have "listen_at example_watcher = Waiting"
    by (simp add: example_watcher_def emit_when_stable_def Let_def DirectoryWatcher_def)
  with paths_yielded_in_order[OF example_watcher_reachable] show ?thesis by blast
qed

end
