(* ===== verification/Supervisor.thy ===== *)
theory Supervisor imports Transition Models begin

text \<open>
  \<open>supervision/supervisor.py\<close>: one task per child process, restarting it with a growing delay, giving
  up on a crash loop, and the shutdown that terminates and then kills. The steps are the stretches
  of \<open>_supervise_child\<close> and \<open>shutdown\<close> between two suspensions. A process is identified by its
  position in the order of spawning; \<open>os_running\<close> says which still run, and processes exit when
  the environment decides. A process runs from inside \<open>spawn\<close> on: it is born before \<open>spawn\<close> returns, and
  only the return enters it in the table. The clock never goes back, and a sleep of \<open>d\<close> seconds does not end
  before \<open>d\<close> seconds have passed unless the stop event ends the race. The rounds each child went
  through, the signals sent, the processes killed by a cancelled spawn and the spawns that completed
  after the kill round are ghosts.
\<close>

section \<open>State\<close>

definition DEFAULT_BACKOFF_SCHEDULE_SECONDS :: "pyfloat list" where
  "DEFAULT_BACKOFF_SCHEDULE_SECONDS = [1, 2, 4, 8, 16, 30]"

definition CRASH_LOOP_MAX_RESTARTS :: nat where
  "CRASH_LOOP_MAX_RESTARTS = 5"

definition CRASH_LOOP_WINDOW_SECONDS :: pyfloat where
  "CRASH_LOOP_WINDOW_SECONDS = 60"

definition SHUTDOWN_TIMEOUT_SECONDS :: pyfloat where
  "SHUTDOWN_TIMEOUT_SECONDS = 5"

record child_spec =
  cs_name :: string
  cs_argv :: "string list"
  cs_env :: "(string, string) dict option"

record supervisor_config =
  sc_specs :: "child_spec list"
  backoff_schedule :: "pyfloat list"
  crash_loop_max_restarts :: nat
  crash_loop_window_seconds :: pyfloat
  shutdown_timeout_seconds :: pyfloat

text \<open>One round of a child: when it was started, and the three clock readings after it ended.\<close>

record child_round =
  cr_started :: pyfloat
  cr_uptime_read :: pyfloat
  cr_stamp :: pyfloat
  cr_window_read :: pyfloat

datatype child_phase =
    NotStarted
  | Spawning pyfloat
  | Born pyfloat nat
  | Awaiting pyfloat nat
  | BackingOff pyfloat
  | Returned
  | ChildRaised exn
  | KillingSpawn nat
  | ChildCancelled

record child =
  ch_phase :: child_phase
  consecutive_failures :: nat
  exit_timestamps :: "pyfloat list"
  ch_rounds :: "child_round list"

datatype shutdown_phase =
    NoShutdown
  | WaitingForExit "nat list" pyfloat
  | WaitingForKilled "nat list"
  | ShutdownDone

datatype signal = Terminate nat | Kill nat

record supervisor =
  sv_config :: supervisor_config
  children :: "child list"
  processes :: "(string, nat) dict"
  degraded :: "string set"
  stopping :: bool
  stop_event :: bool
  sv_shutdown :: shutdown_phase
  sv_now :: pyfloat
  os_running :: "bool list"
  signals :: "signal list"
  late_spawns :: "nat list"
  spawn_kills :: "nat list"

definition new_child :: child where
  "new_child = \<lparr>ch_phase = NotStarted, consecutive_failures = 0, exit_timestamps = [], ch_rounds = []\<rparr>"

definition ProcessSupervisor :: "supervisor_config \<Rightarrow> pyfloat \<Rightarrow> supervisor" where
  "ProcessSupervisor C t =
     \<lparr>sv_config = C, children = map (\<lambda>_. new_child) (sc_specs C), processes = [], degraded = {},
      stopping = False, stop_event = False, sv_shutdown = NoShutdown, sv_now = t, os_running = [],
      signals = [], late_spawns = [], spawn_kills = []\<rparr>"

definition is_degraded :: "string \<Rightarrow> supervisor \<Rightarrow> bool" where
  "is_degraded name v \<longleftrightarrow> name \<in> degraded v"

section \<open>Processes\<close>

text \<open>
  \<open>adapters/asyncio_process_spawner.py\<close>. A handle is the position in the order of spawning.
  \<open>spawn\<close> is \<open>create_subprocess_exec\<close>, which starts the process and then suspends once, until the
  event loop has connected its transport: \<open>spawner_spawn\<close> is the part before that suspension. If it is
  cancelled while suspended, it closes the transport, which kills the process if it still runs, and
  waits for the process before it passes the cancellation on. \<open>terminate\<close> and \<open>kill\<close> on a process that has exited raise ProcessLookupError.
\<close>

definition spawner_spawn :: "supervisor \<Rightarrow> nat \<times> supervisor" where
  "spawner_spawn v = (length (os_running v), v\<lparr>os_running := os_running v @ [True]\<rparr>)"

definition os_signal :: "signal \<Rightarrow> nat \<Rightarrow> supervisor \<Rightarrow> unit result \<times> supervisor" where
  "os_signal sig h v =
     (if os_running v ! h then (Inr (), v\<lparr>signals := signals v @ [sig]\<rparr>)
      else (Inl ProcessLookupError, v))"

definition spawner_terminate :: "nat \<Rightarrow> supervisor \<Rightarrow> unit result \<times> supervisor" where
  "spawner_terminate h v = os_signal (Terminate h) h v"

definition spawner_kill :: "nat \<Rightarrow> supervisor \<Rightarrow> unit result \<times> supervisor" where
  "spawner_kill h v = os_signal (Kill h) h v"

section \<open>One child\<close>

text \<open>\<open>deque(maxlen=m).append\<close>.\<close>

definition deque_append :: "nat \<Rightarrow> 'a list \<Rightarrow> 'a \<Rightarrow> 'a list" where
  "deque_append m xs x = (let ys = xs @ [x] in drop (length ys - m) ys)"

definition backoff_delay :: "supervisor_config \<Rightarrow> nat \<Rightarrow> pyfloat" where
  "backoff_delay C failures = backoff_schedule C ! min failures (length (backoff_schedule C) - 1)"

text \<open>The stretch after a child ended: returned degraded, or backing off.\<close>

definition after_exit ::
  "supervisor_config \<Rightarrow> child_round \<Rightarrow> child \<Rightarrow> (bool \<times> child) result" where
  "after_exit C r ch =
     (if backoff_schedule C = [] then Inl IndexError
      else
        let failures = (if last (backoff_schedule C) < py_fsub (cr_uptime_read r) (cr_started r) then 0
                        else consecutive_failures ch);
            stamps = deque_append (crash_loop_max_restarts C) (exit_timestamps ch) (cr_stamp r);
            ch' = ch\<lparr>consecutive_failures := failures, exit_timestamps := stamps,
                     ch_rounds := ch_rounds ch @ [r]\<rparr>;
            continue = Inr (False, ch'\<lparr>consecutive_failures := failures + 1,
              ch_phase := BackingOff (cr_window_read r + backoff_delay C failures)\<rparr>)
        in if length stamps = crash_loop_max_restarts C
           then if stamps = [] then Inl IndexError
             else if py_fsub (cr_window_read r) (hd stamps) < crash_loop_window_seconds C
             then Inr (True, ch'\<lparr>ch_phase := Returned\<rparr>)
             else continue
           else continue)"

section \<open>Operations\<close>

definition spec_name :: "supervisor \<Rightarrow> nat \<Rightarrow> string" where
  "spec_name v i = cs_name (sc_specs (sv_config v) ! i)"

definition set_child :: "nat \<Rightarrow> child \<Rightarrow> supervisor \<Rightarrow> supervisor" where
  "set_child i ch v = v\<lparr>children := (children v)[i := ch]\<rparr>"

definition set_phase :: "nat \<Rightarrow> child_phase \<Rightarrow> supervisor \<Rightarrow> supervisor" where
  "set_phase i ph v = set_child i ((children v ! i)\<lparr>ch_phase := ph\<rparr>) v"

text \<open>\<open>while not self._stopping\<close>, up to the call of \<open>spawn\<close>.\<close>

definition loop_top :: "nat \<Rightarrow> supervisor \<Rightarrow> supervisor" where
  "loop_top i v = set_phase i (if stopping v then Returned else Spawning (sv_now v)) v"

definition child_ended :: "nat \<Rightarrow> child_round \<Rightarrow> supervisor \<Rightarrow> supervisor" where
  "child_ended i r v =
     (if stopping v then set_phase i Returned v
      else case after_exit (sv_config v) r (children v ! i) of
        Inl e \<Rightarrow> set_phase i (ChildRaised e) v
      | Inr (gave_up, ch) \<Rightarrow>
          set_child i ch
            (if gave_up then v\<lparr>degraded := insert (spec_name v i) (degraded v)\<rparr> else v))"

text \<open>\<open>spawn\<close> has started the process and waits; then it returns and the process enters the table.\<close>

definition process_born :: "nat \<Rightarrow> pyfloat \<Rightarrow> supervisor \<Rightarrow> supervisor" where
  "process_born i started v = (case spawner_spawn v of (h, v1) \<Rightarrow> set_phase i (Born started h) v1)"

definition spawned :: "nat \<Rightarrow> pyfloat \<Rightarrow> nat \<Rightarrow> supervisor \<Rightarrow> supervisor" where
  "spawned i started h v =
     set_phase i (Awaiting started h)
       (v\<lparr>processes := dict_set (spec_name v i) h (processes v),
          late_spawns := (case sv_shutdown v of
              WaitingForKilled _ \<Rightarrow> late_spawns v @ [h]
            | ShutdownDone \<Rightarrow> late_spawns v @ [h]
            | _ \<Rightarrow> late_spawns v)\<rparr>)"

text \<open>A cancelled task ends at once, except inside \<open>spawn\<close>, which first gets rid of its process.\<close>

definition cancel_child_task :: "nat \<Rightarrow> supervisor \<Rightarrow> supervisor" where
  "cancel_child_task i v =
     (case ch_phase (children v ! i) of
        Born started h \<Rightarrow>
          set_phase i (KillingSpawn h) (if os_running v ! h then v\<lparr>spawn_kills := spawn_kills v @ [h]\<rparr> else v)
      | _ \<Rightarrow> set_phase i ChildCancelled v)"

definition process_waited :: "nat \<Rightarrow> child_round \<Rightarrow> supervisor \<Rightarrow> supervisor" where
  "process_waited i r v =
     child_ended i r (v\<lparr>processes := dict_pop (spec_name v i) (processes v)\<rparr>)"

text \<open>The two loops of \<open>shutdown\<close> over a list of processes; a ProcessLookupError is passed over.\<close>

fun signal_each ::
  "(nat \<Rightarrow> supervisor \<Rightarrow> unit result \<times> supervisor) \<Rightarrow> nat list \<Rightarrow> supervisor \<Rightarrow> unit result \<times> supervisor" where
  "signal_each send [] v = (Inr (), v)"
| "signal_each send (h # hs) v =
     (case send h v of
        (Inr _, v1) \<Rightarrow> signal_each send hs v1
      | (Inl ProcessLookupError, v1) \<Rightarrow> signal_each send hs v1
      | (Inl e, v1) \<Rightarrow> (Inl e, v1))"

definition process_list :: "supervisor \<Rightarrow> nat list" where
  "process_list v = map snd (processes v)"

definition kill_remaining :: "supervisor \<Rightarrow> supervisor" where
  "kill_remaining v =
     (snd (signal_each spawner_kill (process_list v) v))\<lparr>sv_shutdown := WaitingForKilled (process_list v)\<rparr>"

definition begin_shutdown :: "supervisor \<Rightarrow> supervisor" where
  "begin_shutdown v =
     (if stopping v then v
      else
        let v1 = snd (signal_each spawner_terminate (process_list v) (v\<lparr>stopping := True, stop_event := True\<rparr>))
        in if process_list v = [] then kill_remaining v1
           else v1\<lparr>sv_shutdown :=
             WaitingForExit (process_list v) (sv_now v + shutdown_timeout_seconds (sv_config v))\<rparr>)"

text \<open>The loops raise nothing; they signal the processes that run, in the order of the table.\<close>

definition send_signals :: "(nat \<Rightarrow> signal) \<Rightarrow> nat list \<Rightarrow> supervisor \<Rightarrow> supervisor" where
  "send_signals sig hs v =
     v\<lparr>signals := signals v @ map sig (filter (\<lambda>h. os_running v ! h) hs)\<rparr>"

lemma signal_each_eq:
  assumes "\<And>h v. send h v = os_signal (sig h) h v"
  shows "signal_each send hs v = (Inr (), send_signals sig hs v)"
  by (induction hs arbitrary: v) (simp_all add: assms os_signal_def send_signals_def)

lemma signal_each_simps [simp]:
  "signal_each spawner_terminate hs v = (Inr (), send_signals Terminate hs v)"
  "signal_each spawner_kill hs v = (Inr (), send_signals Kill hs v)"
  by (rule signal_each_eq, simp add: spawner_terminate_def spawner_kill_def)+

section \<open>Steps\<close>

text \<open>
  The task group of \<open>run\<close> cancels its tasks once, so a spawn that is getting rid of its process is not
  cancelled again.
\<close>

definition readings :: "pyfloat \<Rightarrow> supervisor \<Rightarrow> child_round \<Rightarrow> bool" where
  "readings started v r \<longleftrightarrow> cr_started r = started \<and> sv_now v \<le> cr_uptime_read r
     \<and> cr_uptime_read r \<le> cr_stamp r \<and> cr_stamp r \<le> cr_window_read r"

datatype supervisor_label =
    StartChild nat
  | ProcessBorn nat
  | SpawnReturns nat
  | SpawnFails nat child_round
  | SpawnRaises nat exn
  | ProcessExits nat
  | WaitReturns nat child_round
  | WaitRaises nat exn
  | BackoffOver nat
  | CancelChild nat
  | SpawnKilled nat
  | BeginShutdown
  | ExitWaitOver
  | KillWaitOver
  | Pass pyfloat

inductive supervisor_step :: "supervisor \<Rightarrow> supervisor_label \<Rightarrow> supervisor \<Rightarrow> bool" where
  start_child: "i < length (children v) \<Longrightarrow> ch_phase (children v ! i) = NotStarted \<Longrightarrow>
    supervisor_step v (StartChild i) (loop_top i v)"
| process_born: "i < length (children v) \<Longrightarrow> ch_phase (children v ! i) = Spawning started \<Longrightarrow>
    supervisor_step v (ProcessBorn i) (process_born i started v)"
| spawn_returns: "i < length (children v) \<Longrightarrow> ch_phase (children v ! i) = Born started h \<Longrightarrow>
    supervisor_step v (SpawnReturns i) (spawned i started h v)"
| spawn_fails: "i < length (children v) \<Longrightarrow> ch_phase (children v ! i) = Spawning started \<Longrightarrow>
    readings started v r \<Longrightarrow>
    supervisor_step v (SpawnFails i r) (child_ended i r (v\<lparr>sv_now := cr_window_read r\<rparr>))"
| spawn_raises: "i < length (children v) \<Longrightarrow> ch_phase (children v ! i) = Spawning started \<Longrightarrow>
    e \<noteq> OSError \<Longrightarrow> supervisor_step v (SpawnRaises i e) (set_phase i (ChildRaised e) v)"
| process_exits: "h < length (os_running v) \<Longrightarrow>
    supervisor_step v (ProcessExits h) (v\<lparr>os_running := (os_running v)[h := False]\<rparr>)"
| wait_returns: "i < length (children v) \<Longrightarrow> ch_phase (children v ! i) = Awaiting started h \<Longrightarrow>
    \<not> os_running v ! h \<Longrightarrow> readings started v r \<Longrightarrow>
    supervisor_step v (WaitReturns i r) (process_waited i r (v\<lparr>sv_now := cr_window_read r\<rparr>))"
| wait_raises: "i < length (children v) \<Longrightarrow> ch_phase (children v ! i) = Awaiting started h \<Longrightarrow>
    supervisor_step v (WaitRaises i e) (set_phase i (ChildRaised e) v)"
| backoff_over: "i < length (children v) \<Longrightarrow> ch_phase (children v ! i) = BackingOff until \<Longrightarrow>
    until \<le> sv_now v \<or> stop_event v \<Longrightarrow> supervisor_step v (BackoffOver i) (loop_top i v)"
| cancel_child: "i < length (children v) \<Longrightarrow>
    ch_phase (children v ! i) \<notin> {Returned} \<union> range ChildRaised \<union> range KillingSpawn \<Longrightarrow>
    supervisor_step v (CancelChild i) (cancel_child_task i v)"
| spawn_killed: "i < length (children v) \<Longrightarrow> ch_phase (children v ! i) = KillingSpawn h \<Longrightarrow>
    \<not> os_running v ! h \<Longrightarrow> supervisor_step v (SpawnKilled i) (set_phase i ChildCancelled v)"
| begin_shutdown: "supervisor_step v BeginShutdown (begin_shutdown v)"
| exit_wait_over: "sv_shutdown v = WaitingForExit hs deadline \<Longrightarrow>
    (\<forall>h\<in>set hs. \<not> os_running v ! h) \<or> deadline \<le> sv_now v \<Longrightarrow>
    supervisor_step v ExitWaitOver (kill_remaining v)"
| kill_wait_over: "sv_shutdown v = WaitingForKilled hs \<Longrightarrow> \<forall>h\<in>set hs. \<not> os_running v ! h \<Longrightarrow>
    supervisor_step v KillWaitOver (v\<lparr>sv_shutdown := ShutdownDone\<rparr>)"
| pass: "sv_now v \<le> t \<Longrightarrow> supervisor_step v (Pass t) (v\<lparr>sv_now := t\<rparr>)"

section \<open>The history of a child\<close>

text \<open>\<open>failures\<close> counts the rounds since the last one that was up longer than the longest delay.\<close>

definition failures :: "supervisor_config \<Rightarrow> child_round list \<Rightarrow> nat" where
  "failures C rs = fold (\<lambda>r n. Suc (if last (backoff_schedule C)
       < py_fsub (cr_uptime_read r) (cr_started r) then 0 else n)) rs 0"

text \<open>\<open>due C rs\<close> is the earliest time the child may be started again after the rounds \<open>rs\<close>.\<close>

definition due :: "supervisor_config \<Rightarrow> child_round list \<Rightarrow> pyfloat option" where
  "due C rs = (if rs = [] then None
     else Some (cr_window_read (last rs) + backoff_delay C (failures C rs - 1)))"

definition not_before :: "pyfloat option \<Rightarrow> pyfloat \<Rightarrow> bool" where
  "not_before d t \<longleftrightarrow> (\<forall>u. d = Some u \<longrightarrow> u \<le> t)"

definition paced :: "supervisor_config \<Rightarrow> child_round list \<Rightarrow> bool" where
  "paced C rs \<longleftrightarrow> (\<forall>k < length rs. not_before (due C (take k rs)) (cr_started (rs ! k)))"

text \<open>The window that ends with round \<open>k + m - 1\<close> is wide enough.\<close>

definition window_ok :: "supervisor_config \<Rightarrow> child_round list \<Rightarrow> nat \<Rightarrow> bool" where
  "window_ok C rs k \<longleftrightarrow> crash_loop_window_seconds C
     \<le> py_fsub (cr_window_read (rs ! (k + crash_loop_max_restarts C - 1))) (cr_stamp (rs ! k))"

definition windows_ok :: "supervisor_config \<Rightarrow> child_round list \<Rightarrow> nat \<Rightarrow> bool" where
  "windows_ok C rs n \<longleftrightarrow> (\<forall>k. k + crash_loop_max_restarts C \<le> n \<longrightarrow> window_ok C rs k)"

fun phase_ok :: "supervisor_config \<Rightarrow> child_round list \<Rightarrow> child_phase \<Rightarrow> bool" where
  "phase_ok C rs NotStarted \<longleftrightarrow> rs = []"
| "phase_ok C rs (Spawning st) \<longleftrightarrow> not_before (due C rs) st"
| "phase_ok C rs (Born st h) \<longleftrightarrow> not_before (due C rs) st"
| "phase_ok C rs (Awaiting st h) \<longleftrightarrow> not_before (due C rs) st"
| "phase_ok C rs (BackingOff until) \<longleftrightarrow> due C rs = Some until"
| "phase_ok C rs _ \<longleftrightarrow> True"

definition history_ok :: "supervisor_config \<Rightarrow> bool \<Rightarrow> child \<Rightarrow> bool" where
  "history_ok C deg ch \<longleftrightarrow>
     exit_timestamps ch
       = drop (length (ch_rounds ch) - crash_loop_max_restarts C) (map cr_stamp (ch_rounds ch))
     \<and> (ch_phase ch \<noteq> Returned \<longrightarrow> consecutive_failures ch = failures C (ch_rounds ch))
     \<and> paced C (ch_rounds ch)
     \<and> phase_ok C (ch_rounds ch) (ch_phase ch)
     \<and> (if deg
        then ch_phase ch = Returned \<and> crash_loop_max_restarts C \<le> length (ch_rounds ch)
          \<and> 0 < crash_loop_max_restarts C
          \<and> \<not> window_ok C (ch_rounds ch) (length (ch_rounds ch) - crash_loop_max_restarts C)
          \<and> windows_ok C (ch_rounds ch) (length (ch_rounds ch) - 1)
        else 0 < crash_loop_max_restarts C \<longrightarrow> windows_ok C (ch_rounds ch) (length (ch_rounds ch)))"

lemma failures_snoc: "failures C (rs @ [r]) = Suc (if last (backoff_schedule C)
    < py_fsub (cr_uptime_read r) (cr_started r) then 0 else failures C rs)"
  by (simp add: failures_def)

lemma due_snoc: "due C (rs @ [r]) = Some (cr_window_read r + backoff_delay C (failures C (rs @ [r]) - 1))"
  by (simp add: due_def)

lemma paced_snoc:
  "paced C (rs @ [r]) \<longleftrightarrow> paced C rs \<and> not_before (due C rs) (cr_started r)"
  by (auto simp: paced_def nth_append less_Suc_eq)

lemma deque_append_map:
  "deque_append m (drop (length rs - m) (map f rs)) (f r)
    = drop (length (rs @ [r]) - m) (map f (rs @ [r]))"
proof -
  let ?n = "length rs"
  have ys: "drop (?n - m) (map f rs) @ [f r] = drop (?n - m) (map f (rs @ [r]))" by simp
  have "length (drop (?n - m) (map f (rs @ [r]))) - m + (?n - m) = length (rs @ [r]) - m" by simp
  then show ?thesis unfolding deque_append_def Let_def ys drop_drop by simp
qed

lemma window_ok_snoc:
  assumes "0 < crash_loop_max_restarts C" "k + crash_loop_max_restarts C \<le> length rs"
  shows "window_ok C (rs @ [r]) k \<longleftrightarrow> window_ok C rs k"
proof -
  have "k + crash_loop_max_restarts C - 1 < length rs" "k < length rs" using assms by linarith+
  then show ?thesis by (simp add: window_ok_def nth_append)
qed

lemma windows_ok_snoc:
  "0 < crash_loop_max_restarts C \<Longrightarrow> windows_ok C (rs @ [r]) (length rs) \<longleftrightarrow> windows_ok C rs (length rs)"
  by (simp add: windows_ok_def window_ok_snoc)

lemma windows_ok_Suc:
  "windows_ok C rs (Suc n) \<longleftrightarrow> windows_ok C rs n
    \<and> (crash_loop_max_restarts C \<le> Suc n \<longrightarrow> window_ok C rs (Suc n - crash_loop_max_restarts C))"
proof -
  have "k + crash_loop_max_restarts C \<le> Suc n \<longleftrightarrow> k + crash_loop_max_restarts C \<le> n
      \<or> crash_loop_max_restarts C \<le> Suc n \<and> k = Suc n - crash_loop_max_restarts C" for k
    by linarith
  then show ?thesis unfolding windows_ok_def by blast
qed

lemma after_exit_rounds:
  "after_exit C r ch = Inr (deg, ch') \<Longrightarrow>
    ch_rounds ch' = ch_rounds ch @ [r] \<and> (deg \<longrightarrow> ch_phase ch' = Returned)
    \<and> (\<not> deg \<longrightarrow> (\<exists>u. ch_phase ch' = BackingOff u))"
  by (auto simp: after_exit_def Let_def split: if_splits)

lemma after_exit_stamps:
  assumes "after_exit C r ch = Inr (deg, ch')"
  shows "exit_timestamps ch' = deque_append (crash_loop_max_restarts C) (exit_timestamps ch) (cr_stamp r)"
  using assms by (auto simp: after_exit_def Let_def split: if_splits)

lemma after_exit_failures:
  assumes "after_exit C r ch = Inr (False, ch')" "consecutive_failures ch = failures C (ch_rounds ch)"
  shows "consecutive_failures ch' = failures C (ch_rounds ch @ [r])"
    and "phase_ok C (ch_rounds ch @ [r]) (ch_phase ch')"
  using assms by (auto simp: after_exit_def Let_def failures_snoc due_snoc split: if_splits)

text \<open>The child gives up exactly when the window of its last rounds is too narrow.\<close>

lemma after_exit_window:
  assumes "after_exit C r ch = Inr (deg, ch')"
    and stamps: "exit_timestamps ch'
      = drop (length rs - crash_loop_max_restarts C) (map cr_stamp rs)"
    and rs: "rs = ch_rounds ch @ [r]"
  shows "deg \<longleftrightarrow> crash_loop_max_restarts C \<le> length rs
      \<and> \<not> window_ok C rs (length rs - crash_loop_max_restarts C)"
    and "deg \<Longrightarrow> 0 < crash_loop_max_restarts C"
proof -
  let ?m = "crash_loop_max_restarts C" and ?st = "exit_timestamps ch'"
  have st: "?st = deque_append ?m (exit_timestamps ch) (cr_stamp r)"
    by (rule after_exit_stamps[OF assms(1)])
  have len: "length ?st = ?m \<longleftrightarrow> ?m \<le> length rs" unfolding stamps by auto
  have deg: "deg \<longleftrightarrow> length ?st = ?m
      \<and> py_fsub (cr_window_read r) (hd ?st) < crash_loop_window_seconds C"
    and ne: "length ?st = ?m \<Longrightarrow> ?st \<noteq> []"
    using assms(1) by (auto simp: after_exit_def Let_def st split: if_splits)
  have "rs ! (length rs - ?m + ?m - 1) = r \<and> hd ?st = cr_stamp (rs ! (length rs - ?m))"
    if "?m \<le> length rs" "?st \<noteq> []"
  proof -
    have "?m \<noteq> 0" using that stamps by auto
    then have k: "length rs - ?m < length rs" using rs by simp
    then have "hd ?st = map cr_stamp rs ! (length rs - ?m)"
      unfolding stamps by (intro hd_drop_conv_nth) simp
    moreover have "rs ! (length rs - 1) = r" by (simp add: rs)
    ultimately show ?thesis using k that(1) by simp
  qed
  then show "deg \<longleftrightarrow> ?m \<le> length rs \<and> \<not> window_ok C rs (length rs - ?m)"
    using deg ne len by (auto simp: window_ok_def not_le)
  show "0 < ?m" if deg using deg ne that by (metis length_greater_0_conv)
qed

lemma after_exit_history:
  assumes h: "history_ok C False ch" and ph: "ch_phase ch = Spawning st \<or> (\<exists>p. ch_phase ch = Awaiting st p)"
    and r: "cr_started r = st" and e: "after_exit C r ch = Inr (deg, ch')"
  shows "history_ok C deg ch'"
proof -
  let ?m = "crash_loop_max_restarts C" and ?rs = "ch_rounds ch @ [r]"
  note rounds = after_exit_rounds[OF e]
  have fails: "consecutive_failures ch = failures C (ch_rounds ch)"
    using h ph by (auto simp: history_ok_def)
  have stamps: "exit_timestamps ch' = drop (length ?rs - ?m) (map cr_stamp ?rs)"
    using h by (simp only: after_exit_stamps[OF e] history_ok_def deque_append_map)
  have paced: "paced C ?rs" using h ph r by (auto simp: history_ok_def paced_snoc)
  note window = after_exit_window[OF e stamps refl]
  have old: "0 < ?m \<longrightarrow> windows_ok C ?rs (length (ch_rounds ch))"
    using h by (simp add: history_ok_def windows_ok_snoc)
  show ?thesis
  proof (cases deg)
    case True
    with rounds stamps paced window old show ?thesis by (simp add: history_ok_def)
  next
    case False
    then have "consecutive_failures ch' = failures C ?rs" "phase_ok C ?rs (ch_phase ch')"
      using after_exit_failures[of C r ch ch'] e fails by simp_all
    moreover have "0 < ?m \<longrightarrow> windows_ok C ?rs (length ?rs)"
      using old window(1) False by (simp add: windows_ok_Suc)
    ultimately show ?thesis using rounds stamps paced False by (simp add: history_ok_def)
  qed
qed

section \<open>The invariant\<close>

definition names_distinct :: "supervisor_config \<Rightarrow> bool" where
  "names_distinct C \<longleftrightarrow> distinct (map cs_name (sc_specs C))"

text \<open>Where the process of a child is registered.\<close>

fun registered :: "child_phase \<Rightarrow> nat option \<Rightarrow> bool" where
  "registered (Awaiting st h) entry \<longleftrightarrow> entry = Some h"
| "registered ChildCancelled entry \<longleftrightarrow> True"
| "registered (ChildRaised e) entry \<longleftrightarrow> True"
| "registered _ entry \<longleftrightarrow> entry = None"

fun shutdown_ok :: "shutdown_phase \<Rightarrow> (nat \<Rightarrow> bool) \<Rightarrow> nat set \<Rightarrow> bool" where
  "shutdown_ok (WaitingForKilled hs) runs late \<longleftrightarrow> (\<forall>h. runs h \<longrightarrow> h \<in> set hs \<union> late)"
| "shutdown_ok ShutdownDone runs late \<longleftrightarrow> (\<forall>h. runs h \<longrightarrow> h \<in> late)"
| "shutdown_ok _ runs late \<longleftrightarrow> True"

definition runs :: "supervisor \<Rightarrow> nat \<Rightarrow> bool" where
  "runs v h \<longleftrightarrow> h < length (os_running v) \<and> os_running v ! h"

text \<open>The processes that spawns under way have started.\<close>

fun spawn_holds :: "child_phase \<Rightarrow> nat \<Rightarrow> bool" where
  "spawn_holds (Born st h') h \<longleftrightarrow> h' = h"
| "spawn_holds (KillingSpawn h') h \<longleftrightarrow> h' = h"
| "spawn_holds _ h \<longleftrightarrow> False"

definition unreturned :: "supervisor \<Rightarrow> nat set" where
  "unreturned v = {h. \<exists>i < length (children v). spawn_holds (ch_phase (children v ! i)) h}"

definition supervisor_inv :: "supervisor \<Rightarrow> bool" where
  "supervisor_inv v \<longleftrightarrow>
     names_distinct (sv_config v) \<and> length (children v) = length (sc_specs (sv_config v))
     \<and> (\<forall>i < length (children v).
          registered (ch_phase (children v ! i)) (dict_get (processes v) (spec_name v i))
          \<and> history_ok (sv_config v) (spec_name v i \<in> degraded v) (children v ! i))
     \<and> (\<forall>h. runs v h \<longrightarrow> h \<in> unreturned v \<or> (\<exists>n. dict_get (processes v) n = Some h))
     \<and> stop_event v = stopping v \<and> (stopping v \<longleftrightarrow> sv_shutdown v \<noteq> NoShutdown)
     \<and> shutdown_ok (sv_shutdown v) (runs v) (set (late_spawns v) \<union> unreturned v)"

lemma spec_name_inj:
  "names_distinct (sv_config v) \<Longrightarrow> length (children v) = length (sc_specs (sv_config v)) \<Longrightarrow>
    i < length (children v) \<Longrightarrow> j < length (children v) \<Longrightarrow>
    spec_name v i = spec_name v j \<longleftrightarrow> i = j"
  unfolding names_distinct_def spec_name_def
  by (metis length_map nth_eq_iff_index_eq nth_map)

lemma set_child_fields [simp]:
  "sv_config (set_child i ch v) = sv_config v" "processes (set_child i ch v) = processes v"
  "degraded (set_child i ch v) = degraded v" "stopping (set_child i ch v) = stopping v"
  "stop_event (set_child i ch v) = stop_event v" "sv_shutdown (set_child i ch v) = sv_shutdown v"
  "sv_now (set_child i ch v) = sv_now v" "os_running (set_child i ch v) = os_running v"
  "late_spawns (set_child i ch v) = late_spawns v" "spawn_kills (set_child i ch v) = spawn_kills v" "runs (set_child i ch v) = runs v"
  "length (children (set_child i ch v)) = length (children v)"
  "spec_name (set_child i ch v) = spec_name v"
  by (simp_all add: set_child_def runs_def fun_eq_iff spec_name_def)

lemma children_set_child:
  "children (set_child i ch v) ! j
    = (if j = i \<and> i < length (children v) then ch else children v ! j)"
  by (auto simp: set_child_def nth_list_update list_update_beyond not_less)

text \<open>Changing one child, its entry and its degraded mark keeps the invariant when it stays in order.\<close>

lemma unreturned_set_child:
  assumes "h \<in> unreturned v" "i < length (children v)"
    and "spawn_holds (ch_phase (children v ! i)) h \<Longrightarrow> spawn_holds (ch_phase ch) h"
  shows "h \<in> unreturned (set_child i ch v)"
proof -
  obtain j where "j < length (children v)" "spawn_holds (ch_phase (children v ! j)) h"
    using assms(1) by (auto simp: unreturned_def)
  then show ?thesis using assms(2,3) unfolding unreturned_def
    by (intro CollectI exI[of _ j]) (auto simp: children_set_child)
qed

lemma shutdown_ok_mono:
  "shutdown_ok sd r late \<Longrightarrow> (\<And>h. r' h \<Longrightarrow> r h) \<Longrightarrow> (\<And>h. r' h \<Longrightarrow> h \<in> late \<Longrightarrow> h \<in> late') \<Longrightarrow> shutdown_ok sd r' late'"
  by (cases sd) auto

lemma inv_set_child:
  assumes inv: "supervisor_inv v" and i: "i < length (children v)"
    and reg: "registered (ch_phase ch) (dict_get (processes v) (spec_name v i))"
    and hist: "history_ok (sv_config v) (spec_name v i \<in> degraded v) ch"
    and held: "\<And>h. runs v h \<Longrightarrow> spawn_holds (ch_phase (children v ! i)) h \<Longrightarrow> spawn_holds (ch_phase ch) h"
  shows "supervisor_inv (set_child i ch v)"
proof -
  let ?w = "set_child i ch v"
  have un: "h \<in> unreturned ?w" if "runs v h" "h \<in> unreturned v" for h
    using unreturned_set_child[OF that(2) i] held[OF that(1)] by blast
  then have "shutdown_ok (sv_shutdown v) (runs v) (set (late_spawns v) \<union> unreturned ?w)"
    using inv by (auto simp: supervisor_inv_def intro: shutdown_ok_mono)
  then show ?thesis using inv reg hist un i unfolding supervisor_inv_def by (auto simp: children_set_child)
qed

lemma inv_child:
  assumes "supervisor_inv v" "i < length (children v)"
  shows "registered (ch_phase (children v ! i)) (dict_get (processes v) (spec_name v i))"
    and "history_ok (sv_config v) (spec_name v i \<in> degraded v) (children v ! i)"
  using assms by (simp_all add: supervisor_inv_def)

lemma running_not_degraded:
  "history_ok C deg ch \<Longrightarrow> ch_phase ch \<noteq> Returned \<Longrightarrow> \<not> deg"
  by (auto simp: history_ok_def)

text \<open>The operations keep it.\<close>

lemma inv_time: "supervisor_inv (v\<lparr>sv_now := t\<rparr>) \<longleftrightarrow> supervisor_inv v"
proof -
  have "runs (v\<lparr>sv_now := t\<rparr>) = runs v" "spec_name (v\<lparr>sv_now := t\<rparr>) = spec_name v"
    by (simp_all add: runs_def spec_name_def fun_eq_iff)
  moreover have "unreturned (v\<lparr>sv_now := t\<rparr>) = unreturned v" by (simp add: unreturned_def)
  ultimately show ?thesis by (simp add: supervisor_inv_def)
qed

lemma history_phase:
  assumes "history_ok C deg ch" "phase_ok C (ch_rounds ch) ph"
    and "ch_phase ch \<noteq> Returned"
  shows "history_ok C deg (ch\<lparr>ch_phase := ph\<rparr>)"
  using assms by (auto simp: history_ok_def)

lemma inv_set_phase:
  assumes "supervisor_inv v" "i < length (children v)" "ch_phase (children v ! i) \<noteq> Returned"
    and "registered ph (dict_get (processes v) (spec_name v i))"
    and "phase_ok (sv_config v) (ch_rounds (children v ! i)) ph"
    and "\<And>h. runs v h \<Longrightarrow> spawn_holds (ch_phase (children v ! i)) h \<Longrightarrow> spawn_holds ph h"
  shows "supervisor_inv (set_phase i ph v)"
  unfolding set_phase_def
  by (rule inv_set_child[OF assms(1,2)])
    (use assms history_phase[OF inv_child(2)[OF assms(1,2)]] in auto)

lemma inv_set_phase_none:
  assumes "supervisor_inv v" "i < length (children v)" "ch_phase (children v ! i) \<noteq> Returned"
    and "registered ph (dict_get (processes v) (spec_name v i))"
    and "phase_ok (sv_config v) (ch_rounds (children v ! i)) ph"
    and "\<And>h. \<not> spawn_holds (ch_phase (children v ! i)) h"
  shows "supervisor_inv (set_phase i ph v)"
  by (rule inv_set_phase[OF assms(1-5)]) (use assms(6) in blast)

lemma inv_loop_top:
  assumes inv: "supervisor_inv v" and i: "i < length (children v)"
    and ph: "ch_phase (children v ! i) = NotStarted
      \<or> (\<exists>u. ch_phase (children v ! i) = BackingOff u \<and> (u \<le> sv_now v \<or> stop_event v))"
  shows "supervisor_inv (loop_top i v)"
proof -
  note c = inv_child[OF inv i]
  have "stop_event v = stopping v" using inv by (simp add: supervisor_inv_def)
  then have "phase_ok (sv_config v) (ch_rounds (children v ! i))
      (if stopping v then Returned else Spawning (sv_now v))"
    using c(2) ph by (auto simp: history_ok_def not_before_def due_def)
  then show ?thesis
    unfolding loop_top_def using c(1) ph by (intro inv_set_phase[OF inv i]) auto
qed

lemma inv_degrade_other:
  assumes inv: "supervisor_inv v" and i: "i < length (children v)"
    and reg: "registered (ch_phase ch) (dict_get (processes v) (spec_name v i))"
    and hist: "history_ok (sv_config v) True ch"
    and held: "\<And>h. \<not> spawn_holds (ch_phase (children v ! i)) h"
  shows "supervisor_inv (set_child i ch (v\<lparr>degraded := insert (spec_name v i) (degraded v)\<rparr>))"
proof -
  have names: "names_distinct (sv_config v)" "length (children v) = length (sc_specs (sv_config v))"
    using inv by (simp_all add: supervisor_inv_def)
  have same: "spec_name (v\<lparr>degraded := D\<rparr>) = spec_name v" "runs (v\<lparr>degraded := D\<rparr>) = runs v" for D
    by (simp_all add: spec_name_def runs_def fun_eq_iff)
  let ?w = "set_child i ch (v\<lparr>degraded := insert (spec_name v i) (degraded v)\<rparr>)"
  have "unreturned (v\<lparr>degraded := insert (spec_name v i) (degraded v)\<rparr>) = unreturned v" by (simp add: unreturned_def)
  then have un: "h \<in> unreturned v \<Longrightarrow> h \<in> unreturned ?w" for h
    using unreturned_set_child[of h "v\<lparr>degraded := insert (spec_name v i) (degraded v)\<rparr>" i ch] i held by simp
  then have sd: "shutdown_ok (sv_shutdown v) (runs v) (set (late_spawns v) \<union> unreturned ?w)"
    using inv by (auto simp: supervisor_inv_def intro: shutdown_ok_mono)
  have tab: "runs v h \<Longrightarrow> h \<in> unreturned ?w \<or> (\<exists>n. dict_get (processes v) n = Some h)" for h
    using inv un unfolding supervisor_inv_def by blast
  show ?thesis
    unfolding supervisor_inv_def
  proof (intro conjI allI impI)
    fix j
    assume "j < length (children (set_child i ch (v\<lparr>degraded := insert (spec_name v i) (degraded v)\<rparr>)))"
    then have j: "j < length (children v)" by simp
    note eq = spec_name_inj[OF names j i]
    show "registered (ch_phase (children (set_child i ch
        (v\<lparr>degraded := insert (spec_name v i) (degraded v)\<rparr>)) ! j)) (dict_get (processes (set_child i ch
        (v\<lparr>degraded := insert (spec_name v i) (degraded v)\<rparr>))) (spec_name (set_child i ch
        (v\<lparr>degraded := insert (spec_name v i) (degraded v)\<rparr>)) j))"
      using inv_child(1)[OF inv j] reg i by (simp add: children_set_child same)
    show "history_ok (sv_config (set_child i ch (v\<lparr>degraded := insert (spec_name v i) (degraded v)\<rparr>)))
        (spec_name (set_child i ch (v\<lparr>degraded := insert (spec_name v i) (degraded v)\<rparr>)) j
          \<in> degraded (set_child i ch (v\<lparr>degraded := insert (spec_name v i) (degraded v)\<rparr>)))
        (children (set_child i ch (v\<lparr>degraded := insert (spec_name v i) (degraded v)\<rparr>)) ! j)"
      using inv_child(2)[OF inv j] hist eq i by (simp add: children_set_child same)
  qed (use inv sd tab in \<open>simp_all add: supervisor_inv_def same\<close>)
qed

lemma inv_child_ended:
  assumes inv: "supervisor_inv v" and i: "i < length (children v)"
    and ph: "ch_phase (children v ! i) = Spawning st \<or> (\<exists>h. ch_phase (children v ! i) = Awaiting st h)"
    and entry: "dict_get (processes v) (spec_name v i) = None" and r: "cr_started r = st"
  shows "supervisor_inv (child_ended i r v)"
proof -
  let ?ch = "children v ! i" and ?C = "sv_config v"
  note c = inv_child[OF inv i]
  have run: "ch_phase ?ch \<noteq> Returned" and none: "\<not> spawn_holds (ch_phase ?ch) h" for h using ph by auto
  note deg = running_not_degraded[OF c(2) run]
  show ?thesis
  proof (cases "stopping v")
    case True
    then show ?thesis
      unfolding child_ended_def using entry run none by (simp add: inv_set_phase_none[OF inv i])
  next
    case go: False
    show ?thesis
    proof (cases "after_exit ?C r ?ch")
      case (Inl e)
      with go show ?thesis
        unfolding child_ended_def using entry run none by (simp add: inv_set_phase_none[OF inv i])
    next
      case (Inr q)
      obtain d ch where q: "q = (d, ch)" by (cases q)
      with Inr have e: "after_exit ?C r ?ch = Inr (d, ch)" by simp
      have hist: "history_ok ?C d ch"
        using after_exit_history[OF _ ph r e] c(2) deg by simp
      have "registered (ch_phase ch) (dict_get (processes v) (spec_name v i))"
        using after_exit_rounds[OF e] entry by (cases d) auto
      then show ?thesis
        using go e hist deg none inv_set_child[OF inv i, of ch] inv_degrade_other[OF inv i, of ch]
        by (cases d) (simp_all add: child_ended_def)
    qed
  qed
qed

lemma spawned_fields [simp]:
  "sv_config (spawned i st h v) = sv_config v" "processes (spawned i st h v) = dict_set (spec_name v i) h (processes v)"
  "degraded (spawned i st h v) = degraded v" "stopping (spawned i st h v) = stopping v"
  "stop_event (spawned i st h v) = stop_event v" "sv_shutdown (spawned i st h v) = sv_shutdown v"
  "os_running (spawned i st h v) = os_running v" "runs (spawned i st h v) = runs v" "sv_now (spawned i st h v) = sv_now v"
  "length (children (spawned i st h v)) = length (children v)" "spec_name (spawned i st h v) = spec_name v"
  "signals (spawned i st h v) = signals v" "spawn_kills (spawned i st h v) = spawn_kills v"
  by (simp_all add: spawned_def set_phase_def set_child_def spec_name_def runs_def fun_eq_iff)

lemma spawned_child:
  "i < length (children v) \<Longrightarrow> children (spawned i st h v) ! j
    = (if j = i then (children v ! i)\<lparr>ch_phase := Awaiting st h\<rparr> else children v ! j)"
  by (simp add: spawned_def set_phase_def children_set_child)

lemma spawned_late:
  "set (late_spawns v) \<subseteq> set (late_spawns (spawned i st h v))"
  "sv_shutdown v = ShutdownDone \<or> (\<exists>hs. sv_shutdown v = WaitingForKilled hs) \<Longrightarrow> h \<in> set (late_spawns (spawned i st h v))"
  by (auto simp: spawned_def set_phase_def split: shutdown_phase.splits)

lemma inv_spawned:
  assumes inv: "supervisor_inv v" and i: "i < length (children v)"
    and ph: "ch_phase (children v ! i) = Born st h"
  shows "supervisor_inv (spawned i st h v)"
proof -
  let ?n = "spec_name v i" and ?v = "spawned i st h v"
  have names: "names_distinct (sv_config v)" "length (children v) = length (sc_specs (sv_config v))"
    using inv by (simp_all add: supervisor_inv_def)
  have entry: "dict_get (processes v) ?n = None" using inv_child(1)[OF inv i] ph by simp
  have un: "g \<in> unreturned ?v" if "g \<in> unreturned v" "g \<noteq> h" for g
    using that ph i by (auto simp: unreturned_def spawned_child) (metis spawn_holds.simps(1))
  have hist: "history_ok (sv_config v) (?n \<in> degraded v) ((children v ! i)\<lparr>ch_phase := Awaiting st h\<rparr>)"
    by (rule history_phase[OF inv_child(2)[OF inv i]])
      (use inv_child(2)[OF inv i] ph in \<open>auto simp: history_ok_def\<close>)
  have "g \<in> unreturned ?v \<or> (\<exists>n. dict_get (processes ?v) n = Some g)" if running: "runs v g" for g
  proof (cases "g = h \<or> g \<in> unreturned v")
    case False
    then obtain n where n: "dict_get (processes v) n = Some g"
      using inv running unfolding supervisor_inv_def by blast
    moreover have "n \<noteq> ?n" using n entry by auto
    ultimately show ?thesis by (intro disjI2 exI[of _ n]) simp
  qed (use un in auto)
  moreover have "shutdown_ok (sv_shutdown v) (runs v) (set (late_spawns ?v) \<union> unreturned ?v)"
  proof (cases "sv_shutdown v = ShutdownDone \<or> (\<exists>hs. sv_shutdown v = WaitingForKilled hs)")
    case True
    have "shutdown_ok (sv_shutdown v) (runs v) (set (late_spawns v) \<union> unreturned v)"
      using inv by (simp add: supervisor_inv_def)
    moreover have "set (late_spawns v) \<union> unreturned v \<subseteq> set (late_spawns ?v) \<union> unreturned ?v"
      using spawned_late(1)[of v i st h] spawned_late(2)[OF True, of h i st] un by blast
    ultimately show ?thesis by (elim shutdown_ok_mono) blast+
  qed (cases "sv_shutdown v"; simp)
  moreover have "registered (ch_phase (children ?v ! j)) (dict_get (processes ?v) (spec_name v j))
      \<and> history_ok (sv_config v) (spec_name v j \<in> degraded v) (children ?v ! j)"
    if j: "j < length (children v)" for j
    using inv_child[OF inv j] hist spec_name_inj[OF names j i] by (simp add: spawned_child[OF i])
  ultimately show ?thesis
    using inv names unfolding supervisor_inv_def by simp
qed

lemma inv_process_born:
  assumes inv: "supervisor_inv v" and i: "i < length (children v)"
    and ph: "ch_phase (children v ! i) = Spawning st"
  shows "supervisor_inv (process_born i st v)"
proof -
  let ?h = "length (os_running v)" and ?w = "process_born i st v"
  let ?u = "set_phase i (Born st ?h) v"
  have u: "supervisor_inv ?u"
    by (rule inv_set_phase[OF inv i]) (use inv_child[OF inv i] ph in \<open>auto simp: history_ok_def\<close>)
  have w: "?w = ?u\<lparr>os_running := os_running v @ [True]\<rparr>"
    by (simp add: process_born_def spawner_spawn_def set_phase_def set_child_def)
  have runs: "runs ?w g \<longleftrightarrow> runs v g \<or> g = ?h" for g by (auto simp: w runs_def nth_append)
  have born: "?h \<in> unreturned ?u"
    using i by (auto simp: unreturned_def set_phase_def children_set_child intro!: exI[of _ i])
  have same: "unreturned ?w = unreturned ?u" "spec_name ?w = spec_name v" "runs ?u = runs v" "spec_name ?u = spec_name v"
    by (simp_all add: w unreturned_def spec_name_def set_phase_def fun_eq_iff)
  have "shutdown_ok (sv_shutdown v) (runs v) (set (late_spawns v) \<union> unreturned ?u)"
    using u same by (simp add: supervisor_inv_def set_phase_def)
  then have "shutdown_ok (sv_shutdown v) (runs ?w) (set (late_spawns v) \<union> unreturned ?w)"
    using born by (cases "sv_shutdown v") (auto simp: runs same)
  moreover have "g \<in> unreturned ?w \<or> (\<exists>n. dict_get (processes v) n = Some g)" if "runs ?w g" for g
    using that u born unfolding runs same supervisor_inv_def by (auto simp: set_phase_def)
  ultimately show ?thesis
    using u unfolding supervisor_inv_def same by (simp add: w) (simp add: set_phase_def)
qed

lemma inv_cancel_child_task:
  assumes inv: "supervisor_inv v" and i: "i < length (children v)"
    and ph: "ch_phase (children v ! i) \<notin> {Returned} \<union> range ChildRaised \<union> range KillingSpawn"
  shows "supervisor_inv (cancel_child_task i v)"
proof -
  have kills: "supervisor_inv (w\<lparr>spawn_kills := ks\<rparr>)" if "supervisor_inv w" for w ks
  proof -
    have "runs (w\<lparr>spawn_kills := ks\<rparr>) = runs w" "spec_name (w\<lparr>spawn_kills := ks\<rparr>) = spec_name w"
      "unreturned (w\<lparr>spawn_kills := ks\<rparr>) = unreturned w"
      by (simp_all add: runs_def spec_name_def unreturned_def fun_eq_iff)
    with that show ?thesis by (simp add: supervisor_inv_def)
  qed
  show ?thesis
  proof (cases "\<exists>st h. ch_phase (children v ! i) = Born st h")
    case True
    then obtain st h where b: "ch_phase (children v ! i) = Born st h" by blast
    have k: "supervisor_inv (set_phase i (KillingSpawn h) v)"
      by (rule inv_set_phase[OF inv i]) (use inv_child(1)[OF inv i] b in auto)
    have "set_phase i ph (v\<lparr>spawn_kills := ks\<rparr>) = (set_phase i ph v)\<lparr>spawn_kills := ks\<rparr>" for ph ks
      by (simp add: set_phase_def set_child_def)
    with b k kills[OF k] show ?thesis by (simp add: cancel_child_task_def)
  next
    case False
    then have "cancel_child_task i v = set_phase i ChildCancelled v"
      by (simp add: cancel_child_task_def split: child_phase.splits)
    moreover have "\<not> spawn_holds (ch_phase (children v ! i)) h" for h
      using False ph by (cases "ch_phase (children v ! i)") auto
    ultimately show ?thesis using inv_set_phase[OF inv i, of ChildCancelled] ph by auto
  qed
qed

text \<open>What happens after a child ended does not read its phase.\<close>

lemma after_exit_phase: "after_exit C r (ch\<lparr>ch_phase := ph\<rparr>) = after_exit C r ch"
  unfolding after_exit_def Let_def by auto

lemma child_ended_phase:
  assumes "i < length (children v)"
  shows "child_ended i r (set_phase i ph v) = child_ended i r v"
proof -
  have c: "children (set_phase i ph v) ! i = (children v ! i)\<lparr>ch_phase := ph\<rparr>"
    using assms by (simp add: set_phase_def children_set_child)
  have s: "set_child i ch (set_phase i ph v) = set_child i ch v"
    "set_child i ch ((set_phase i ph v)\<lparr>degraded := D\<rparr>) = set_child i ch (v\<lparr>degraded := D\<rparr>)" for ch D
    by (simp_all add: set_child_def set_phase_def)
  have "spec_name (set_phase i ph v) = spec_name v" "degraded (set_phase i ph v) = degraded v"
    "stopping (set_phase i ph v) = stopping v" "sv_config (set_phase i ph v) = sv_config v"
    by (simp_all add: set_phase_def)
  moreover have "set_phase i ph' (set_phase i ph v) = set_phase i ph' v" for ph'
    unfolding set_phase_def[of i ph'] c s by simp
  ultimately show ?thesis by (simp add: child_ended_def c after_exit_phase s split: sum.splits)
qed

lemma inv_process_waited:
  assumes inv: "supervisor_inv v" and i: "i < length (children v)"
    and ph: "ch_phase (children v ! i) = Awaiting st h" and dead: "\<not> os_running v ! h"
    and r: "cr_started r = st"
  shows "supervisor_inv (process_waited i r v)"
proof -
  let ?n = "spec_name v i"
  let ?v = "v\<lparr>processes := dict_pop ?n (processes v)\<rparr>"
  let ?u = "set_phase i (Spawning st) ?v"
  have names: "names_distinct (sv_config v)" "length (children v) = length (sc_specs (sv_config v))"
    using inv by (simp_all add: supervisor_inv_def)
  have same: "spec_name ?v = spec_name v" "runs ?v = runs v"
    by (simp_all add: spec_name_def runs_def fun_eq_iff)
  have entry: "dict_get (processes v) ?n = Some h" using inv_child(1)[OF inv i] ph by simp
  have child: "children ?u ! j = (if j = i then (children v ! i)\<lparr>ch_phase := Spawning st\<rparr>
      else children v ! j)" for j
    using i by (simp add: set_phase_def children_set_child)
  have hist: "history_ok (sv_config v) (?n \<in> degraded v) ((children v ! i)\<lparr>ch_phase := Spawning st\<rparr>)"
    by (rule history_phase[OF inv_child(2)[OF inv i]])
      (use inv_child(2)[OF inv i] ph in \<open>auto simp: history_ok_def\<close>)
  have "spawn_holds (ch_phase (children ?u ! j)) g \<longleftrightarrow> spawn_holds (ch_phase (children v ! j)) g" for j g
    using ph unfolding child by simp
  moreover have "length (children ?u) = length (children v)" by (simp add: set_phase_def)
  ultimately have un: "unreturned ?u = unreturned v" by (simp add: unreturned_def)
  have u: "supervisor_inv ?u"
    unfolding supervisor_inv_def
  proof (intro conjI allI impI)
    fix j
    assume "j < length (children ?u)"
    then have j: "j < length (children v)" by (simp add: set_phase_def)
    show "registered (ch_phase (children ?u ! j)) (dict_get (processes ?u) (spec_name ?u j))"
      using inv_child(1)[OF inv j] spec_name_inj[OF names j i]
      unfolding child by (auto simp: set_phase_def same)
    show "history_ok (sv_config ?u) (spec_name ?u j \<in> degraded ?u) (children ?u ! j)"
      using inv_child(2)[OF inv j] hist unfolding child by (simp add: set_phase_def same)
  next
    fix g
    assume "runs ?u g"
    then have g: "runs v g" by (simp add: set_phase_def same)
    show "g \<in> unreturned ?u \<or> (\<exists>n. dict_get (processes ?u) n = Some g)"
    proof (cases "g \<in> unreturned v")
      case False
      with g obtain n where n: "dict_get (processes v) n = Some g"
        using inv unfolding supervisor_inv_def by blast
      have "g \<noteq> h" using g dead by (auto simp: runs_def)
      then have "n \<noteq> ?n" using n entry by auto
      with n show ?thesis by (intro disjI2 exI[of _ n]) (simp add: set_phase_def)
    qed (simp add: un)
  next
    show "shutdown_ok (sv_shutdown ?u) (runs ?u) (set (late_spawns ?u) \<union> unreturned ?u)"
      using inv unfolding un by (simp add: supervisor_inv_def set_phase_def same)
  qed (use inv in \<open>simp_all add: supervisor_inv_def set_phase_def same\<close>)
  have eq: "child_ended i r ?u = child_ended i r ?v"
    by (rule child_ended_phase) (use i in simp)
  have "supervisor_inv (child_ended i r ?u)"
    by (rule inv_child_ended[OF u _ _ _ r])
      (use i in \<open>auto simp: set_phase_def children_set_child same\<close>)
  with eq show ?thesis by (simp add: process_waited_def)
qed

lemma inv_control:
  assumes inv: "supervisor_inv v"
    and fewer: "\<And>h. h < length running \<and> running ! h \<Longrightarrow> runs v h"
    and b: "b \<longleftrightarrow> sd \<noteq> NoShutdown"
    and sd: "shutdown_ok sd (\<lambda>h. h < length running \<and> running ! h) (set (late_spawns v) \<union> unreturned v)"
  shows "supervisor_inv (v\<lparr>stopping := b, stop_event := b, sv_shutdown := sd,
    os_running := running, signals := sg\<rparr>)"
proof -
  let ?v = "v\<lparr>stopping := b, stop_event := b, sv_shutdown := sd, os_running := running, signals := sg\<rparr>"
  have "runs ?v = (\<lambda>h. h < length running \<and> running ! h)" "spec_name ?v = spec_name v"
    "unreturned ?v = unreturned v"
    by (simp_all add: runs_def spec_name_def unreturned_def fun_eq_iff)
  then show ?thesis
    using inv b sd fewer unfolding supervisor_inv_def by simp
qed

lemma runs_eta: "(\<lambda>h. h < length (os_running v) \<and> os_running v ! h) = runs v"
  by (simp add: runs_def fun_eq_iff)

lemma running_registered:
  assumes "supervisor_inv v" "runs v h" "h \<notin> unreturned v"
  shows "h \<in> set (process_list v)"
proof -
  obtain n where "dict_get (processes v) n = Some h"
    using assms unfolding supervisor_inv_def by blast
  then show ?thesis by (force simp: process_list_def dest: map_of_SomeD)
qed

lemma inv_kill_remaining:
  assumes inv: "supervisor_inv v" and "stopping v"
  shows "supervisor_inv (kill_remaining v)"
proof -
  have stop: "stop_event v" using assms by (simp add: supervisor_inv_def)
  have eq: "kill_remaining v = v\<lparr>stopping := True, stop_event := True,
      sv_shutdown := WaitingForKilled (process_list v), os_running := os_running v,
      signals := signals v @ map Kill (filter (\<lambda>h. os_running v ! h) (process_list v))\<rparr>"
    using assms(2) stop by (simp add: kill_remaining_def send_signals_def)
  show ?thesis unfolding eq
    by (rule inv_control[OF inv]) (auto simp: runs_def intro: running_registered[OF inv])
qed

lemma inv_begin_shutdown:
  assumes inv: "supervisor_inv v"
  shows "supervisor_inv (begin_shutdown v)"
proof (cases "stopping v")
  case True
  with inv show ?thesis by (simp add: begin_shutdown_def)
next
  case False
  let ?sig = "signals v @ map Terminate (filter (\<lambda>h. os_running v ! h) (process_list v))"
  show ?thesis
  proof (cases "process_list v = []")
    case True
    have eq: "begin_shutdown v = v\<lparr>stopping := True, stop_event := True,
        sv_shutdown := WaitingForKilled (process_list v), os_running := os_running v, signals := signals v\<rparr>"
      using False True
      by (simp add: begin_shutdown_def Let_def kill_remaining_def send_signals_def process_list_def)
    show ?thesis unfolding eq
      by (rule inv_control[OF inv]) (auto simp: runs_def intro: running_registered[OF inv])
  next
    case procs: False
    have eq: "begin_shutdown v = v\<lparr>stopping := True, stop_event := True,
        sv_shutdown := WaitingForExit (process_list v) (sv_now v + shutdown_timeout_seconds (sv_config v)),
        os_running := os_running v, signals := ?sig\<rparr>"
      using False procs by (simp add: begin_shutdown_def Let_def send_signals_def)
    show ?thesis unfolding eq by (rule inv_control[OF inv]) (auto simp: runs_def)
  qed
qed

lemma inv_process_exits:
  assumes inv: "supervisor_inv v"
  shows "supervisor_inv (v\<lparr>os_running := (os_running v)[h := False]\<rparr>)"
proof -
  let ?os = "(os_running v)[h := False]"
  have stop: "stop_event v = stopping v" "stopping v \<longleftrightarrow> sv_shutdown v \<noteq> NoShutdown"
    and sd: "shutdown_ok (sv_shutdown v) (runs v) (set (late_spawns v) \<union> unreturned v)"
    using inv by (simp_all add: supervisor_inv_def)
  have fewer: "runs v g" if "g < length ?os \<and> ?os ! g" for g
    using that by (cases "g = h") (auto simp: runs_def)
  then have ok: "shutdown_ok (sv_shutdown v) (\<lambda>g. g < length ?os \<and> ?os ! g) (set (late_spawns v) \<union> unreturned v)"
    by (rule shutdown_ok_mono[OF sd]) (use fewer in auto)
  have eq: "v\<lparr>os_running := ?os\<rparr> = v\<lparr>stopping := stopping v, stop_event := stopping v,
      sv_shutdown := sv_shutdown v, os_running := ?os, signals := signals v\<rparr>"
    by (rule supervisor.equality) (simp_all add: stop(1))
  show ?thesis unfolding eq by (rule inv_control[OF inv _ stop(2) ok]) (rule fewer)
qed

lemma inv_kill_wait_over:
  assumes inv: "supervisor_inv v" and "sv_shutdown v = WaitingForKilled hs"
    and "\<forall>h\<in>set hs. \<not> os_running v ! h"
  shows "supervisor_inv (v\<lparr>sv_shutdown := ShutdownDone\<rparr>)"
proof -
  have stop: "stop_event v" "stopping v"
    and sd: "\<forall>h. runs v h \<longrightarrow> h \<in> set hs \<union> (set (late_spawns v) \<union> unreturned v)"
    using inv assms(2) by (auto simp: supervisor_inv_def)
  have "shutdown_ok ShutdownDone (\<lambda>h. h < length (os_running v) \<and> os_running v ! h) (set (late_spawns v) \<union> unreturned v)"
    using sd assms(3) by (auto simp: runs_def)
  moreover have "v\<lparr>sv_shutdown := ShutdownDone\<rparr> = v\<lparr>stopping := True, stop_event := True,
      sv_shutdown := ShutdownDone, os_running := os_running v, signals := signals v\<rparr>"
    using stop by simp
  ultimately show ?thesis
    using inv_control[OF inv, of "os_running v" True ShutdownDone "signals v"] by (simp add: runs_def)
qed

lemma inv_supervisor_step: "supervisor_step v l w \<Longrightarrow> supervisor_inv v \<Longrightarrow> supervisor_inv w"
proof (induction rule: supervisor_step.induct)
  case (start_child i v)
  then show ?case by (intro inv_loop_top) auto
next
  case (process_born i v started)
  then show ?case by (intro inv_process_born)
next
  case (spawn_returns i v started h)
  then show ?case by (intro inv_spawned)
next
  case (spawn_fails i v started r)
  have "supervisor_inv (v\<lparr>sv_now := cr_window_read r\<rparr>)" using spawn_fails(4) by (simp add: inv_time)
  then show ?case
    by (rule inv_child_ended[where st = started])
      (use spawn_fails inv_child(1)[OF spawn_fails(4,1)] in \<open>auto simp: readings_def spec_name_def\<close>)
next
  case (spawn_raises i v started e)
  then show ?case using inv_child(1)[of v i] by (intro inv_set_phase) auto
next
  case (process_exits h v)
  then show ?case by (intro inv_process_exits)
next
  case (wait_returns i v started h r)
  have "supervisor_inv (v\<lparr>sv_now := cr_window_read r\<rparr>)" using wait_returns(5) by (simp add: inv_time)
  then show ?case
    by (rule inv_process_waited) (use wait_returns in \<open>auto simp: readings_def\<close>)
next
  case (wait_raises i v started h e)
  then show ?case by (intro inv_set_phase) auto
next
  case (backoff_over i v until)
  then show ?case by (intro inv_loop_top) auto
next
  case (cancel_child i v)
  then show ?case by (intro inv_cancel_child_task)
next
  case (spawn_killed i v h)
  then show ?case by (intro inv_set_phase) (auto simp: runs_def)
next
  case (begin_shutdown v)
  then show ?case by (rule inv_begin_shutdown)
next
  case (exit_wait_over v hs deadline)
  then show ?case by (intro inv_kill_remaining) (auto simp: supervisor_inv_def)
next
  case (kill_wait_over v hs)
  then show ?case by (intro inv_kill_wait_over)
next
  case (pass v t)
  then show ?case by (simp add: inv_time)
qed

definition supervisor_init :: "supervisor_config \<Rightarrow> supervisor \<Rightarrow> bool" where
  "supervisor_init C v \<longleftrightarrow> names_distinct C \<and> (\<exists>t. v = ProcessSupervisor C t)"

abbreviation supervisor_reachable :: "supervisor_config \<Rightarrow> supervisor \<Rightarrow> bool" where
  "supervisor_reachable C \<equiv> reachable (supervisor_init C) (\<lambda>v w. \<exists>l. supervisor_step v l w)"

lemma inv_supervisor_init: "names_distinct C \<Longrightarrow> supervisor_inv (ProcessSupervisor C t)"
  by (auto simp: supervisor_inv_def ProcessSupervisor_def runs_def new_child_def history_ok_def
      failures_def paced_def windows_ok_def)

lemma config_step: "supervisor_step v l w \<Longrightarrow> sv_config w = sv_config v"
  by (induction rule: supervisor_step.induct)
    (auto simp: loop_top_def set_phase_def child_ended_def process_waited_def Let_def process_born_def spawner_spawn_def
      cancel_child_task_def begin_shutdown_def kill_remaining_def send_signals_def split: sum.splits child_phase.splits)

interpretation supervision: invariant_system "supervisor_init C" "\<lambda>v w. \<exists>l. supervisor_step v l w"
    "\<lambda>v. supervisor_inv v \<and> sv_config v = C"
  for C
proof (unfold_locales, goal_cases)
  case (1 v)
  then obtain t where "names_distinct C" "v = ProcessSupervisor C t" by (auto simp: supervisor_init_def)
  then show ?case using inv_supervisor_init by (simp add: ProcessSupervisor_def)
next
  case (2 v w)
  then show ?case using inv_supervisor_step config_step by metis
qed

lemma supervisor_reachable_inv:
  "supervisor_reachable C v \<Longrightarrow> supervisor_inv v \<and> sv_config v = C"
  by (rule supervision.inv_reachable)

section \<open>Backoff\<close>

definition quick :: "supervisor_config \<Rightarrow> child_round \<Rightarrow> bool" where
  "quick C r \<longleftrightarrow> \<not> last (backoff_schedule C) < py_fsub (cr_uptime_read r) (cr_started r)"

lemma failures_quick:
  "\<forall>r\<in>set qs. quick C r \<Longrightarrow> failures C (rs @ qs) = failures C rs + length qs"
  by (induction qs rule: rev_induct)
    (simp_all add: failures_snoc quick_def flip: append_assoc)

lemma failures_long: "\<not> quick C r \<Longrightarrow> failures C (rs @ [r]) = 1"
  by (simp add: failures_snoc quick_def)

text \<open>The task of a stopping supervisor starts no spawn.\<close>

lemma set_phase_other: "j \<noteq> i \<Longrightarrow> children (set_phase i ph v) ! j = children v ! j"
  by (simp add: set_phase_def children_set_child)

lemma set_phase_same: "i < length (children v) \<Longrightarrow> ch_phase (children (set_phase i ph v) ! i) = ph"
  by (simp add: set_phase_def children_set_child)

lemma stopping_starts_no_spawn:
  assumes "supervisor_step v l w" "stopping v" "j < length (children v)"
    and "ch_phase (children w ! j) = Spawning st"
  shows "ch_phase (children v ! j) = Spawning st"
  using assms
proof (induction rule: supervisor_step.induct)
  case (spawn_returns i v started h)
  then show ?case by (simp add: spawned_child split: if_splits)
qed (auto simp: loop_top_def child_ended_def process_waited_def set_phase_def children_set_child process_born_def
    spawner_spawn_def cancel_child_task_def
    begin_shutdown_def kill_remaining_def send_signals_def split: if_splits child_phase.splits)

section \<open>Progress\<close>

text \<open>
  A handle in the table or of a spawn under way is one the spawner gave out, and a process that a
  cancelled spawn still waits for has been killed.
\<close>

definition handles_ok :: "supervisor \<Rightarrow> bool" where
  "handles_ok v \<longleftrightarrow> (\<forall>n h. dict_get (processes v) n = Some h \<longrightarrow> h < length (os_running v))
     \<and> (\<forall>h\<in>unreturned v. h < length (os_running v))
     \<and> (\<forall>i < length (children v). \<forall>h. ch_phase (children v ! i) = KillingSpawn h \<longrightarrow> os_running v ! h \<longrightarrow>
          h \<in> set (spawn_kills v))"

lemma unreturned_nth: "i < length (children v) \<Longrightarrow> spawn_holds (ch_phase (children v ! i)) h \<Longrightarrow> h \<in> unreturned v"
  by (auto simp: unreturned_def)

lemma handles_same:
  assumes "handles_ok v" "processes w = processes v" "length (os_running w) = length (os_running v)"
    and "\<And>h. os_running w ! h \<Longrightarrow> h < length (os_running v) \<Longrightarrow> os_running v ! h" "spawn_kills w = spawn_kills v"
    and "length (children w) = length (children v)"
    and "\<And>i h. i < length (children v) \<Longrightarrow> spawn_holds (ch_phase (children w ! i)) h \<Longrightarrow>
      ch_phase (children w ! i) = ch_phase (children v ! i)"
  shows "handles_ok w"
proof -
  have same: "i < length (children v) \<Longrightarrow> spawn_holds (ch_phase (children w ! i)) h \<Longrightarrow>
      spawn_holds (ch_phase (children v ! i)) h" for i h using assms(7) by metis
  have un: "unreturned w \<subseteq> unreturned v" using same assms(6) by (auto simp: unreturned_def)
  have "h \<in> set (spawn_kills v)"
    if "i < length (children v)" "ch_phase (children w ! i) = KillingSpawn h" "os_running w ! h" for i h
  proof -
    have k: "ch_phase (children v ! i) = KillingSpawn h" using assms(7)[OF that(1), of h] that(2) by simp
    then have "h < length (os_running v)" using assms(1) unreturned_nth[OF that(1), of h] by (simp add: handles_ok_def)
    with k show ?thesis using assms(1) assms(4)[OF that(3)] that(1) by (auto simp: handles_ok_def)
  qed
  then show ?thesis using assms(1-3,5,6) un unfolding handles_ok_def by auto
qed

lemma child_ended_table [simp]:
  "processes (child_ended i r v) = processes v" "os_running (child_ended i r v) = os_running v"
  "spawn_kills (child_ended i r v) = spawn_kills v" "length (children (child_ended i r v)) = length (children v)"
  by (simp_all add: child_ended_def set_phase_def split: sum.splits)

lemma child_ended_other:
  "j \<noteq> i \<Longrightarrow> children (child_ended i r v) ! j = children v ! j"
  "i < length (children v) \<Longrightarrow> \<not> spawn_holds (ch_phase (children (child_ended i r v) ! i)) h"
  by (auto simp: child_ended_def set_phase_def children_set_child dest!: after_exit_rounds split: sum.splits if_splits)

lemma begin_shutdown_table [simp]:
  "processes (begin_shutdown v) = processes v" "os_running (begin_shutdown v) = os_running v"
  "processes (kill_remaining v) = processes v" "os_running (kill_remaining v) = os_running v"
  "children (begin_shutdown v) = children v" "children (kill_remaining v) = children v"
  "spawn_kills (begin_shutdown v) = spawn_kills v" "spawn_kills (kill_remaining v) = spawn_kills v"
  by (simp_all add: begin_shutdown_def kill_remaining_def send_signals_def Let_def)

lemma handles_set_phase:
  assumes "handles_ok v" "\<And>h. \<not> spawn_holds ph h"
  shows "handles_ok (set_phase i ph v)"
  by (rule handles_same[OF assms(1)]) (use assms(2) in \<open>auto simp: set_phase_def children_set_child split: if_splits\<close>)

lemma handles_child_ended:
  assumes "handles_ok v" "i < length (children v)"
  shows "handles_ok (child_ended i r v)"
proof (rule handles_same[OF assms(1)])
  fix j h
  assume "spawn_holds (ch_phase (children (child_ended i r v) ! j)) h"
  then show "ch_phase (children (child_ended i r v) ! j) = ch_phase (children v ! j)"
    using child_ended_other(1)[of j i] child_ended_other(2)[OF assms(2)] by (cases "j = i") auto
qed simp_all

lemma handles_born:
  assumes "handles_ok v" "i < length (children v)"
  shows "handles_ok (process_born i st v)"
proof -
  let ?h = "length (os_running v)" and ?w = "process_born i st v"
  have f: "processes ?w = processes v" "os_running ?w = os_running v @ [True]" "spawn_kills ?w = spawn_kills v"
    "length (children ?w) = length (children v)"
    by (simp_all add: process_born_def spawner_spawn_def set_phase_def)
  have c: "children ?w ! j = (if j = i then (children v ! i)\<lparr>ch_phase := Born st ?h\<rparr> else children v ! j)" for j
    using assms(2) by (simp add: process_born_def spawner_spawn_def set_phase_def children_set_child)
  have un: "h \<in> unreturned v \<or> h = ?h" if "h \<in> unreturned ?w" for h
    using that by (auto simp: unreturned_def f c split: if_splits)
  have old: "h < ?h" if "h \<in> unreturned v" for h using assms(1) that by (auto simp: handles_ok_def)
  have "h \<in> set (spawn_kills v)" if "j < length (children v)" "ch_phase (children ?w ! j) = KillingSpawn h"
    "os_running ?w ! h" for j h
  proof -
    have k: "ch_phase (children v ! j) = KillingSpawn h" using that(2) by (simp add: c split: if_splits)
    then have "h < ?h" using old unreturned_nth[OF that(1), of h] by simp
    with k that(1,3) assms(1) show ?thesis by (auto simp: handles_ok_def f nth_append)
  qed
  then show ?thesis using assms(1) un old by (auto simp: handles_ok_def f less_Suc_eq)
qed

lemma handles_spawned:
  assumes "handles_ok v" "i < length (children v)" "ch_phase (children v ! i) = Born st h"
  shows "handles_ok (spawned i st h v)"
proof -
  have "h < length (os_running v)" using assms(1) unreturned_nth[OF assms(2), of h] assms(3) by (simp add: handles_ok_def)
  moreover have "unreturned (spawned i st h v) \<subseteq> unreturned v"
    by (auto simp: unreturned_def spawned_child[OF assms(2)] split: if_splits)
  ultimately show ?thesis
    using assms(1) by (auto simp: handles_ok_def spawned_child[OF assms(2)] split: if_splits)
qed

lemma handles_cancel:
  assumes "handles_ok v" "i < length (children v)"
  shows "handles_ok (cancel_child_task i v)"
proof (cases "\<exists>st h. ch_phase (children v ! i) = Born st h")
  case True
  then obtain st h where b: "ch_phase (children v ! i) = Born st h" by blast
  let ?w = "cancel_child_task i v"
  have f: "processes ?w = processes v" "os_running ?w = os_running v"
    "spawn_kills ?w = spawn_kills v @ (if os_running v ! h then [h] else [])" "length (children ?w) = length (children v)"
    by (simp_all add: cancel_child_task_def b set_phase_def)
  have c: "ch_phase (children ?w ! j) = (if j = i then KillingSpawn h else ch_phase (children v ! j))" for j
    using assms(2) by (simp add: cancel_child_task_def b set_phase_def children_set_child)
  have "unreturned ?w \<subseteq> unreturned v"
    using b unreturned_nth[OF assms(2), of h] by (auto simp: unreturned_def f c split: if_splits)
  then show ?thesis using assms(1) by (auto simp: handles_ok_def f c split: if_splits)
next
  case False
  then have "cancel_child_task i v = set_phase i ChildCancelled v"
    by (simp add: cancel_child_task_def split: child_phase.splits)
  then show ?thesis using handles_set_phase[OF assms(1)] by simp
qed

lemma handles_step: "supervisor_step v l w \<Longrightarrow> handles_ok v \<Longrightarrow> handles_ok w"
proof (induction rule: supervisor_step.induct)
  case (process_born i v started)
  then show ?case by (intro handles_born)
next
  case (spawn_returns i v started h)
  then show ?case by (intro handles_spawned)
next
  case (spawn_fails i v started r)
  have "handles_ok (v\<lparr>sv_now := cr_window_read r\<rparr>)" by (rule handles_same[OF spawn_fails(4)]) simp_all
  then show ?case by (rule handles_child_ended) (use spawn_fails in simp)
next
  case (wait_returns i v started h r)
  let ?v = "v\<lparr>sv_now := cr_window_read r\<rparr>"
  have "unreturned (?v\<lparr>processes := dict_pop (spec_name ?v i) (processes ?v)\<rparr>) = unreturned v"
    by (simp add: unreturned_def)
  then have "handles_ok (?v\<lparr>processes := dict_pop (spec_name ?v i) (processes ?v)\<rparr>)"
    using wait_returns(5) by (simp add: handles_ok_def)
  then show ?case unfolding process_waited_def by (rule handles_child_ended) (use wait_returns in simp)
next
  case (cancel_child i v)
  then show ?case by (intro handles_cancel)
next
  case (process_exits h v)
  from process_exits(2) show ?case
    by (rule handles_same) (use process_exits(1) in \<open>auto simp: nth_list_update split: if_splits\<close>)
next
  case (start_child i v)
  then show ?case by (simp add: loop_top_def handles_set_phase)
next
  case (backoff_over i v until)
  then show ?case by (simp add: loop_top_def handles_set_phase)
next
  case (spawn_raises i v started e)
  then show ?case by (simp add: handles_set_phase)
next
  case (wait_raises i v started h e)
  then show ?case by (simp add: handles_set_phase)
next
  case (spawn_killed i v h)
  then show ?case by (simp add: handles_set_phase)
qed (erule handles_same; simp)+

lemma handles_init: "handles_ok (ProcessSupervisor C t)"
  by (simp add: handles_ok_def ProcessSupervisor_def unreturned_def new_child_def)

interpretation handles: invariant_system "supervisor_init C" "\<lambda>v w. \<exists>l. supervisor_step v l w" handles_ok
  for C
  by unfold_locales (auto simp: supervisor_init_def handles_init intro: handles_step)

definition child_labels :: "nat \<Rightarrow> supervisor_label set" where
  "child_labels i = {StartChild i, ProcessBorn i, SpawnReturns i, BackoffOver i} \<union> range (WaitReturns i) \<union> range Pass"

definition up_or_degraded :: "string \<Rightarrow> supervisor \<Rightarrow> bool" where
  "up_or_degraded name v \<longleftrightarrow> name \<in> degraded v \<or> (\<exists>h. dict_get (processes v) name = Some h \<and> runs v h)"

text \<open>By the steps \<open>ls\<close> of child \<open>i\<close> alone its process comes up, or it is declared degraded.\<close>

definition can_come_up :: "nat \<Rightarrow> supervisor \<Rightarrow> bool" where
  "can_come_up i v \<longleftrightarrow> (\<exists>ls w. execution supervisor_step v ls w \<and> set ls \<subseteq> child_labels i
     \<and> up_or_degraded (spec_name v i) w)"

lemma can_come_up_step:
  assumes "supervisor_step v l w" "l \<in> child_labels i" "can_come_up i w" "spec_name w i = spec_name v i"
  shows "can_come_up i v"
proof -
  obtain ls x where "execution supervisor_step w ls x" "set ls \<subseteq> child_labels i"
    "up_or_degraded (spec_name v i) x"
    using assms(3,4) by (auto simp: can_come_up_def)
  with assms(2) execution_Cons[OF assms(1) this(1)] show ?thesis
    unfolding can_come_up_def by (intro exI[of _ "l # ls"] exI[of _ x]) simp
qed

lemma can_come_up_now: "up_or_degraded (spec_name v i) v \<Longrightarrow> can_come_up i v"
  unfolding can_come_up_def by (intro exI[of _ "[]"] exI[of _ v]) (simp add: execution_nil)

lemma born_comes_up:
  assumes "i < length (children v)" "ch_phase (children v ! i) = Born st h" "runs v h"
  shows "can_come_up i v"
proof -
  have "up_or_degraded (spec_name v i) (spawned i st h v)" using assms(3) by (simp add: up_or_degraded_def)
  then have "can_come_up i (spawned i st h v)" using can_come_up_now[of "spawned i st h v" i] by simp
  from can_come_up_step[OF supervisor_step.spawn_returns[OF assms(1,2)] _ this]
  show ?thesis by (simp add: child_labels_def)
qed

lemma spawning_comes_up:
  assumes "i < length (children v)" "ch_phase (children v ! i) = Spawning st"
  shows "can_come_up i v"
proof -
  let ?w = "process_born i st v"
  have "can_come_up i ?w"
    by (rule born_comes_up[where st = st and h = "length (os_running v)"])
      (use assms(1) in \<open>simp_all add: process_born_def spawner_spawn_def set_phase_def children_set_child runs_def\<close>)
  from can_come_up_step[OF supervisor_step.process_born[OF assms] _ this]
  show ?thesis by (simp add: child_labels_def spec_name_def process_born_def spawner_spawn_def set_phase_def)
qed

lemma loop_top_comes_up:
  assumes "i < length (children v)" "\<not> stopping v"
  shows "can_come_up i (loop_top i v)"
  by (rule spawning_comes_up[where st = "sv_now v"])
    (use assms in \<open>simp_all add: loop_top_def set_phase_def children_set_child\<close>)

lemma spec_name_loop_top: "spec_name (loop_top i v) = spec_name v"
  by (simp add: loop_top_def set_phase_def)

lemma backing_off_comes_up:
  assumes "i < length (children v)" "\<not> stopping v" "ch_phase (children v ! i) = BackingOff until"
  shows "can_come_up i v"
proof -
  let ?v = "v\<lparr>sv_now := max (sv_now v) until\<rparr>"
  have pass: "supervisor_step v (Pass (max (sv_now v) until)) ?v" by (rule supervisor_step.pass) simp
  have over: "supervisor_step ?v (BackoffOver i) (loop_top i ?v)"
    by (rule supervisor_step.backoff_over[where until = until]) (use assms in simp_all)
  have up: "can_come_up i (loop_top i ?v)" by (rule loop_top_comes_up) (use assms in simp_all)
  have "can_come_up i ?v"
    using can_come_up_step[OF over _ up] by (simp add: child_labels_def spec_name_loop_top)
  from can_come_up_step[OF pass _ this] show ?thesis by (simp add: child_labels_def spec_name_def)
qed

lemma after_exit_returns:
  assumes "backoff_schedule C \<noteq> []" "0 < crash_loop_max_restarts C"
  shows "\<exists>gave_up ch'. after_exit C r ch = Inr (gave_up, ch')"
proof -
  have "deque_append (crash_loop_max_restarts C) (exit_timestamps ch) (cr_stamp r) \<noteq> []"
    using assms(2) by (simp add: deque_append_def)
  then have "after_exit C r ch \<noteq> Inl e" for e
    using assms(1) by (auto simp: after_exit_def Let_def split: if_splits)
  then show ?thesis by (cases "after_exit C r ch") auto
qed

lemma ended_comes_up:
  assumes "i < length (children v)" "\<not> stopping v" "backoff_schedule (sv_config v) \<noteq> []"
    and "0 < crash_loop_max_restarts (sv_config v)"
  shows "can_come_up i (child_ended i r v)"
proof -
  obtain gave_up ch' where e: "after_exit (sv_config v) r (children v ! i) = Inr (gave_up, ch')"
    using after_exit_returns[OF assms(3,4)] by blast
  show ?thesis
  proof (cases gave_up)
    case True
    have "spec_name v i \<in> degraded (child_ended i r v)" "spec_name (child_ended i r v) i = spec_name v i"
      using e assms(2) True by (simp_all add: child_ended_def) (simp add: spec_name_def)
    then show ?thesis by (intro can_come_up_now) (simp add: up_or_degraded_def)
  next
    case False
    then obtain u where "ch_phase ch' = BackingOff u" using after_exit_rounds[OF e] by blast
    then show ?thesis
      using e assms(1,2) False
      by (intro backing_off_comes_up[where until = u]) (simp_all add: child_ended_def children_set_child)
  qed
qed

lemma awaiting_comes_up:
  assumes inv: "supervisor_inv v" "handles_ok v" and i: "i < length (children v)" and go: "\<not> stopping v"
    and C: "backoff_schedule (sv_config v) \<noteq> []" "0 < crash_loop_max_restarts (sv_config v)"
    and ph: "ch_phase (children v ! i) = Awaiting st h"
  shows "can_come_up i v"
proof -
  have entry: "dict_get (processes v) (spec_name v i) = Some h"
    using inv_child(1)[OF inv(1) i] ph by simp
  then have h: "h < length (os_running v)" using inv(2) by (auto simp: handles_ok_def)
  show ?thesis
  proof (cases "os_running v ! h")
    case True
    with entry h show ?thesis by (intro can_come_up_now) (auto simp: up_or_degraded_def runs_def)
  next
    case False
    let ?r = "\<lparr>cr_started = st, cr_uptime_read = sv_now v, cr_stamp = sv_now v, cr_window_read = sv_now v\<rparr>"
    let ?w = "process_waited i ?r (v\<lparr>sv_now := cr_window_read ?r\<rparr>)"
    have step: "supervisor_step v (WaitReturns i ?r) ?w"
      by (rule supervisor_step.wait_returns[OF i ph False]) (simp add: readings_def)
    have up: "can_come_up i ?w"
      unfolding process_waited_def by (rule ended_comes_up) (use i go C in simp_all)
    have name: "spec_name ?w i = spec_name v i"
      using config_step[OF step] by (simp add: spec_name_def)
    have "WaitReturns i ?r \<in> child_labels i" by (simp add: child_labels_def)
    from can_come_up_step[OF step this up name] show ?thesis .
  qed
qed

lemma child_comes_up:
  assumes inv: "supervisor_inv v" "handles_ok v" and i: "i < length (children v)" and go: "\<not> stopping v"
    and C: "backoff_schedule (sv_config v) \<noteq> []" "0 < crash_loop_max_restarts (sv_config v)"
    and ph: "ch_phase (children v ! i) \<notin> {Returned, ChildCancelled} \<union> range ChildRaised \<union> range KillingSpawn"
  shows "can_come_up i v"
proof (cases "ch_phase (children v ! i)")
  case NotStarted
  from can_come_up_step[OF supervisor_step.start_child[OF i this] _ loop_top_comes_up[OF i go]]
  show ?thesis by (simp add: child_labels_def spec_name_loop_top)
next
  case (Spawning st)
  with i show ?thesis by (rule spawning_comes_up)
next
  case (Born st h)
  let ?w = "spawned i st h v"
  have step: "supervisor_step v (SpawnReturns i) ?w" by (rule supervisor_step.spawn_returns[OF i Born])
  have "can_come_up i ?w"
    by (rule awaiting_comes_up[OF inv_supervisor_step[OF step inv(1)] handles_step[OF step inv(2)]])
      (use i go C in \<open>simp_all add: spawned_child\<close>)
  from can_come_up_step[OF step _ this] show ?thesis by (simp add: child_labels_def)
next
  case (Awaiting st h)
  then show ?thesis by (rule awaiting_comes_up[OF inv i go C])
next
  case (BackingOff until)
  with i go show ?thesis by (rule backing_off_comes_up)
qed (use ph in auto)

section \<open>The end of \<open>run\<close>\<close>

text \<open>
  The task group of \<open>run\<close> ends when every child's task has, with the errors the children raised;
  with no specs there is no child and \<open>run\<close> returns at once. A child returns without an error only
  when the supervisor stops or the child was declared degraded.
\<close>

fun task_over :: "child_phase \<Rightarrow> bool" where
  "task_over Returned = True"
| "task_over (ChildRaised e) = True"
| "task_over ChildCancelled = True"
| "task_over _ = False"

fun task_errors :: "child_phase \<Rightarrow> exn list" where
  "task_errors (ChildRaised e) = [e]"
| "task_errors _ = []"

definition run_ended :: "supervisor \<Rightarrow> exn list option" where
  "run_ended v =
     (if list_all (task_over \<circ> ch_phase) (children v)
      then Some (concat (map (task_errors \<circ> ch_phase) (children v))) else None)"

definition returns_ok :: "supervisor \<Rightarrow> bool" where
  "returns_ok v \<longleftrightarrow> (\<forall>i < length (children v). ch_phase (children v ! i) = Returned \<longrightarrow>
     stopping v \<or> spec_name v i \<in> degraded v)"

lemma returns_set_phase:
  "returns_ok v \<Longrightarrow> ph \<noteq> Returned \<or> stopping v \<Longrightarrow> returns_ok (set_phase i ph v)"
  by (auto simp: returns_ok_def set_phase_def children_set_child)

lemma returns_same:
  "returns_ok v \<Longrightarrow> children w = children v \<Longrightarrow> spec_name w = spec_name v \<Longrightarrow> degraded w = degraded v \<Longrightarrow>
    (stopping v \<Longrightarrow> stopping w) \<Longrightarrow> returns_ok w"
  by (auto simp: returns_ok_def)

lemma returns_child_ended:
  assumes "returns_ok v"
  shows "returns_ok (child_ended i r v)"
proof (cases "stopping v")
  case True
  with assms show ?thesis by (simp add: child_ended_def returns_set_phase)
next
  case False
  show ?thesis
  proof (cases "after_exit (sv_config v) r (children v ! i)")
    case (Inl e)
    with False assms show ?thesis by (simp add: child_ended_def returns_set_phase)
  next
    case (Inr q)
    obtain d ch where q: "q = (d, ch)" by (cases q)
    note rounds = after_exit_rounds[OF Inr[unfolded q]]
    have "spec_name (v\<lparr>degraded := D\<rparr>) = spec_name v" for D by (simp add: spec_name_def fun_eq_iff)
    with False assms Inr q rounds show ?thesis
      by (cases d) (auto simp: child_ended_def returns_ok_def children_set_child)
  qed
qed

lemma returns_step: "supervisor_step v l w \<Longrightarrow> returns_ok v \<Longrightarrow> returns_ok w"
proof (induction rule: supervisor_step.induct)
  case (process_born i v started)
  have "returns_ok (set_phase i (Born started (length (os_running v))) v)"
    by (rule returns_set_phase[OF process_born(3)]) simp
  then show ?case
    by (rule returns_same)
      (simp_all add: process_born_def spawner_spawn_def set_phase_def set_child_def spec_name_def fun_eq_iff)
next
  case (spawn_returns i v started h)
  have "returns_ok (set_phase i (Awaiting started h) v)"
    by (rule returns_set_phase[OF spawn_returns(3)]) simp
  then show ?case
    by (rule returns_same) (simp_all add: spawned_def set_phase_def set_child_def spec_name_def fun_eq_iff)
next
  case (cancel_child i v)
  have r: "returns_ok (set_phase i ph v)" if "ph \<noteq> Returned" for ph
    using returns_set_phase[OF cancel_child(3)] that by blast
  show ?case
  proof (cases "\<exists>st h. ch_phase (children v ! i) = Born st h")
    case True
    then obtain st h where b: "ch_phase (children v ! i) = Born st h" by blast
    have "returns_ok (set_phase i (KillingSpawn h) v)" by (rule r) simp
    then show ?thesis
      by (rule returns_same) (simp_all add: cancel_child_task_def b set_phase_def set_child_def spec_name_def fun_eq_iff)
  next
    case False
    then have "cancel_child_task i v = set_phase i ChildCancelled v"
      by (simp add: cancel_child_task_def split: child_phase.splits)
    with r show ?thesis by simp
  qed
next
  case (spawn_fails i v started r)
  have "returns_ok (v\<lparr>sv_now := cr_window_read r\<rparr>)"
    by (rule returns_same[OF spawn_fails(4)]) (simp_all add: spec_name_def fun_eq_iff)
  then show ?case by (rule returns_child_ended)
next
  case (wait_returns i v started h r)
  let ?v = "v\<lparr>sv_now := cr_window_read r\<rparr>"
  have "returns_ok (?v\<lparr>processes := dict_pop (spec_name ?v i) (processes ?v)\<rparr>)"
    by (rule returns_same[OF wait_returns(5)]) (simp_all add: spec_name_def fun_eq_iff)
  then show ?case unfolding process_waited_def by (rule returns_child_ended)
next
  case (begin_shutdown v)
  then show ?case
    by (rule returns_same) (simp_all add: begin_shutdown_def kill_remaining_def send_signals_def Let_def spec_name_def fun_eq_iff)
next
  case (exit_wait_over v hs deadline)
  from exit_wait_over(3) show ?case
    by (rule returns_same) (simp_all add: kill_remaining_def send_signals_def spec_name_def fun_eq_iff)
next
  case (process_exits h v)
  from process_exits(2) show ?case by (rule returns_same) (simp_all add: spec_name_def fun_eq_iff)
next
  case (kill_wait_over v hs)
  from kill_wait_over(3) show ?case by (rule returns_same) (simp_all add: spec_name_def fun_eq_iff)
next
  case (pass v t)
  from pass(2) show ?case by (rule returns_same) (simp_all add: spec_name_def fun_eq_iff)
qed (auto simp: loop_top_def intro: returns_set_phase)

interpretation returns: invariant_system "supervisor_init C" "\<lambda>v w. \<exists>l. supervisor_step v l w" returns_ok
  for C
proof (unfold_locales, goal_cases)
  case (1 v)
  then obtain t where "v = ProcessSupervisor C t" by (auto simp: supervisor_init_def)
  then show ?case by (simp add: returns_ok_def ProcessSupervisor_def new_child_def)
qed (auto intro: returns_step)

lemma run_ended_clean:
  assumes inv: "supervisor_inv v" "returns_ok v" and go: "\<not> stopping v"
    and nc: "\<forall>ch\<in>set (children v). ch_phase ch \<noteq> ChildCancelled"
  shows "run_ended v = Some [] \<longleftrightarrow> (\<forall>i < length (children v). spec_name v i \<in> degraded v)"
proof -
  have "run_ended v = Some [] \<longleftrightarrow> (\<forall>ch\<in>set (children v). ch_phase ch = Returned)"
  proof -
    have "task_over ph \<and> task_errors ph = [] \<longleftrightarrow> ph = Returned" if "ph \<noteq> ChildCancelled" for ph
      using that by (cases ph) simp_all
    then show ?thesis using nc by (auto simp: run_ended_def list_all_iff)
  qed
  also have "\<dots> \<longleftrightarrow> (\<forall>i < length (children v). ch_phase (children v ! i) = Returned)"
    by (auto simp: all_set_conv_all_nth)
  also have "\<dots> \<longleftrightarrow> (\<forall>i < length (children v). spec_name v i \<in> degraded v)"
    using inv(2) go inv_child(2)[OF inv(1)] by (auto simp: returns_ok_def history_ok_def)
  finally show ?thesis .
qed

section \<open>Concrete runs\<close>

definition example_supervisor_config :: "nat \<Rightarrow> supervisor_config" where
  "example_supervisor_config m =
     \<lparr>sc_specs = [\<lparr>cs_name = ''sender-0'', cs_argv = [''./bin/nexus-sender''], cs_env = None\<rparr>],
      backoff_schedule = DEFAULT_BACKOFF_SCHEDULE_SECONDS, crash_loop_max_restarts = m,
      crash_loop_window_seconds = CRASH_LOOP_WINDOW_SECONDS,
      shutdown_timeout_seconds = SHUTDOWN_TIMEOUT_SECONDS\<rparr>"

definition example_started :: "nat \<Rightarrow> supervisor" where
  "example_started m = loop_top 0 (ProcessSupervisor (example_supervisor_config m) 0)"

definition instant_round :: child_round where
  "instant_round = \<lparr>cr_started = 0, cr_uptime_read = 0, cr_stamp = 0, cr_window_read = 0\<rparr>"

definition example_failed :: "nat \<Rightarrow> supervisor" where
  "example_failed m = child_ended 0 instant_round ((example_started m)\<lparr>sv_now := 0\<rparr>)"

lemma example_init_reachable:
  "supervisor_reachable (example_supervisor_config m) (ProcessSupervisor (example_supervisor_config m) 0)"
  by (rule reachable_init)
    (auto simp: supervisor_init_def names_distinct_def example_supervisor_config_def)

lemma example_started_reachable:
  "supervisor_reachable (example_supervisor_config m) (example_started m)"
  unfolding example_started_def
  by (rule reachable_step[OF example_init_reachable])
    (auto intro!: exI supervisor_step.start_child
      simp: ProcessSupervisor_def example_supervisor_config_def new_child_def)

lemma example_started_child:
  "length (children (example_started m)) = 1" "children (example_started m) \<noteq> []"
  "\<not> stopping (example_started m)"
  "ch_phase (children (example_started m) ! 0) = Spawning 0" "sv_now (example_started m) = 0"
  by (simp_all add: example_started_def loop_top_def set_phase_def set_child_def
      ProcessSupervisor_def example_supervisor_config_def new_child_def)

lemma example_failed_reachable:
  "supervisor_reachable (example_supervisor_config m) (example_failed m)"
proof -
  have "supervisor_step (example_started m) (SpawnFails 0 instant_round)
      (child_ended 0 instant_round ((example_started m)\<lparr>sv_now := cr_window_read instant_round\<rparr>))"
    by (rule supervisor_step.spawn_fails)
      (simp_all add: example_started_child readings_def instant_round_def)
  then have "supervisor_step (example_started m) (SpawnFails 0 instant_round) (example_failed m)"
    by (simp add: example_failed_def instant_round_def)
  then show ?thesis by (intro reachable_step[OF example_started_reachable]) blast
qed

lemma example_failed_simps:
  "example_failed m = (if m = 1
    then set_child 0 \<lparr>ch_phase = Returned, consecutive_failures = 0, exit_timestamps = [0],
        ch_rounds = [instant_round]\<rparr> ((example_started m)\<lparr>degraded := {''sender-0''}\<rparr>)
    else if m = 0 then set_phase 0 (ChildRaised IndexError) (example_started m)
    else set_child 0 \<lparr>ch_phase = BackingOff 1, consecutive_failures = 1, exit_timestamps = [0],
        ch_rounds = [instant_round]\<rparr> (example_started m))"
  by (auto simp: example_failed_def child_ended_def after_exit_def Let_def example_started_def
      loop_top_def set_phase_def set_child_def ProcessSupervisor_def example_supervisor_config_def
      new_child_def instant_round_def deque_append_def DEFAULT_BACKOFF_SCHEDULE_SECONDS_def
      CRASH_LOOP_WINDOW_SECONDS_def backoff_delay_def spec_name_def)

definition example_restarted :: supervisor where
  "example_restarted = loop_top 0 ((example_failed 5)\<lparr>sv_now := 1\<rparr>)"

lemma example_restarted_reachable:
  "supervisor_reachable (example_supervisor_config 5) example_restarted"
proof -
  have f: "sv_now (example_failed 5) = 0" "length (children (example_failed 5)) = 1"
    "ch_phase (children (example_failed 5) ! 0) = BackingOff 1" "children (example_failed 5) \<noteq> []"
    using example_started_child by (auto simp: example_failed_simps children_set_child set_child_def)
  have "supervisor_reachable (example_supervisor_config 5) ((example_failed 5)\<lparr>sv_now := 1\<rparr>)"
    by (rule reachable_step[OF example_failed_reachable])
      (auto intro!: exI supervisor_step.pass simp: f)
  then show ?thesis unfolding example_restarted_def
    by (rule reachable_step)
      (auto intro!: exI[of _ "BackoffOver 0"] supervisor_step.backoff_over[where until = 1] simp: f)
qed

section \<open>Properties\<close>

text \<open>C11: Where a running process is: in every reachable state each running process is in the
  table the shutdown reads, except while the \<open>spawn\<close> that started it has not returned to its child's
  task yet. In that window the process runs and \<open>shutdown\<close> cannot find it; if the task is cancelled
  there, \<open>spawn\<close> kills the process before the task ends. So once every child's task has ended, every process
  that still runs is in the table. A child that waits for its process has that very process there, and
  a child that starts, backs off or has returned has none.\<close>

theorem running_process_is_registered:
  assumes "supervisor_reachable C v" "runs v h"
  shows "(h \<in> set (process_list v)
      \<or> (\<exists>i < length (children v). (\<exists>started. ch_phase (children v ! i) = Born started h)
          \<or> ch_phase (children v ! i) = KillingSpawn h \<and> h \<in> set (spawn_kills v)))
    \<and> (run_ended v \<noteq> None \<longrightarrow> h \<in> set (process_list v))
    \<and> (\<forall>i < length (children v). registered (ch_phase (children v ! i))
        (dict_get (processes v) (cs_name (sc_specs C ! i))))"
proof -
  have inv: "supervisor_inv v" and C: "sv_config v = C"
    using supervisor_reachable_inv[OF assms(1)] by auto
  have "handles_ok v" by (rule handles.inv_reachable[OF assms(1)])
  then have killed: "h \<in> set (spawn_kills v)" if "i < length (children v)" "ch_phase (children v ! i) = KillingSpawn h" for i
    using assms(2) that by (auto simp: handles_ok_def runs_def)
  have held: "(\<exists>started. ph = Born started h) \<or> ph = KillingSpawn h" if "spawn_holds ph h" for ph
    using that by (cases ph) auto
  have "unreturned v = {}" if "run_ended v \<noteq> None"
  proof -
    have "task_over ph \<Longrightarrow> \<not> spawn_holds ph g" for ph g by (cases ph) auto
    with that show ?thesis by (auto simp: run_ended_def unreturned_def list_all_length split: if_splits)
  qed
  then show ?thesis
    using running_registered[OF inv assms(2)] held killed inv_child(1)[OF inv] C
    by (fastforce simp: spec_name_def unreturned_def)
qed

theorem running_process_is_registered_witness:
  "runs (process_born 0 0 (example_started 5)) 0 \<and> process_list (process_born 0 0 (example_started 5)) = []
    \<and> ch_phase (children (process_born 0 0 (example_started 5)) ! 0) = Born 0 0
    \<and> 0 \<in> set (process_list (spawned 0 0 0 (process_born 0 0 (example_started 5))))"
proof -
  let ?v = "process_born 0 0 (example_started 5)"
  have f: "os_running ?v = [True]" "processes ?v = []" "length (children ?v) = 1" "ch_phase (children ?v ! 0) = Born 0 0"
    by (simp_all add: process_born_def spawner_spawn_def set_phase_def set_child_def example_started_def
        loop_top_def ProcessSupervisor_def example_supervisor_config_def)
  have "supervisor_step (example_started 5) (ProcessBorn 0) ?v"
    by (rule supervisor_step.process_born) (simp_all add: example_started_child)
  then have r: "supervisor_reachable (example_supervisor_config 5) ?v"
    by (intro reachable_step[OF example_started_reachable]) blast
  have "supervisor_step ?v (SpawnReturns 0) (spawned 0 0 0 ?v)"
    by (rule supervisor_step.spawn_returns) (simp_all add: f)
  then have r': "supervisor_reachable (example_supervisor_config 5) (spawned 0 0 0 ?v)"
    by (intro reachable_step[OF r]) blast
  have "runs ?v 0" by (simp add: runs_def f)
  moreover from this have "runs (spawned 0 0 0 ?v) 0" by simp
  moreover have "ch_phase (children (spawned 0 0 0 ?v) ! 0) = Awaiting 0 0" using f(3) by (simp add: spawned_child)
  ultimately show ?thesis
    using running_process_is_registered[OF r, of 0] running_process_is_registered[OF r', of 0] f
    by (auto simp: process_list_def)
qed

text \<open>C27: A child is given up exactly on a crash loop: it is degraded only if its last
  \<open>crash_loop_max_restarts\<close> exits lie within the window, and then its task has returned for good;
  and as long as it is not degraded every run of that many consecutive exits spans the window.\<close>

theorem degraded_exactly_on_crash_loop:
  assumes "supervisor_reachable C v" "i < length (children v)" "rs = ch_rounds (children v ! i)"
    and "0 < crash_loop_max_restarts C" "m = crash_loop_max_restarts C"
  shows "if is_degraded (cs_name (sc_specs C ! i)) v
    then ch_phase (children v ! i) = Returned \<and> m \<le> length rs
      \<and> py_fsub (cr_window_read (last rs)) (cr_stamp (rs ! (length rs - m))) < crash_loop_window_seconds C
    else \<forall>k. k + m \<le> length rs \<longrightarrow> crash_loop_window_seconds C
      \<le> py_fsub (cr_window_read (rs ! (k + m - 1))) (cr_stamp (rs ! k))"
proof -
  have inv: "supervisor_inv v" and C: "sv_config v = C"
    using supervisor_reachable_inv[OF assms(1)] by auto
  have h: "history_ok C (is_degraded (cs_name (sc_specs C ! i)) v) (children v ! i)"
    using inv_child(2)[OF inv assms(2)] C by (simp add: spec_name_def is_degraded_def)
  show ?thesis
  proof (cases "is_degraded (cs_name (sc_specs C ! i)) v")
    case True
    with h assms(3,5) have w: "ch_phase (children v ! i) = Returned" "m \<le> length rs"
      "\<not> window_ok C rs (length rs - m)"
      by (auto simp: history_ok_def)
    have "rs \<noteq> []" using w(2) assms(4,5) by auto
    then have "rs ! (length rs - m + m - 1) = last rs" using w(2) by (simp add: last_conv_nth)
    with True w assms(5) show ?thesis by (simp add: window_ok_def not_le)
  next
    case False
    with h assms(3-5) show ?thesis by (simp add: history_ok_def windows_ok_def window_ok_def)
  qed
qed

theorem degraded_exactly_on_crash_loop_witness:
  "is_degraded ''sender-0'' (example_failed 1) \<and> ch_phase (children (example_failed 1) ! 0) = Returned"
proof -
  have c: "0 < length (children (example_failed 1))"
    using example_started_child(1) by (simp add: example_failed_simps)
  have "cs_name (sc_specs (example_supervisor_config 1) ! 0) = ''sender-0''"
    "0 < crash_loop_max_restarts (example_supervisor_config 1)"
    by (simp_all add: example_supervisor_config_def)
  moreover have "is_degraded ''sender-0'' (example_failed 1)"
    by (simp add: is_degraded_def example_failed_simps)
  ultimately show ?thesis
    using degraded_exactly_on_crash_loop[OF example_failed_reachable c refl] by simp
qed

text \<open>C20: Restarts are paced: between an exit and the next start of the same child at least the backoff
  delay of its failure count passes, the schedule's last delay from its end on, and that count is one plus the number of quick exits since
  the last time the child stayed up longer than the longest delay.\<close>

theorem restarts_are_paced:
  assumes "supervisor_reachable C v" "i < length (children v)" "rs = ch_rounds (children v ! i)"
    and "k + 1 < length rs \<and> started = cr_started (rs ! (k + 1))
      \<or> k + 1 = length rs \<and> ch_phase (children v ! i) \<in> {Spawning started} \<union> range (Born started) \<union> range (Awaiting started)"
    and "take (k + 1) rs = us @ qs" "us = [] \<or> \<not> quick C (last us)" "\<forall>q\<in>set qs. quick C q"
  shows "cr_window_read (rs ! k)
      + backoff_schedule C ! min (length qs - (if us = [] then 1 else 0)) (length (backoff_schedule C) - 1)
    \<le> started"
proof -
  have inv: "supervisor_inv v" and C: "sv_config v = C"
    using supervisor_reachable_inv[OF assms(1)] by auto
  have h: "paced C rs" "phase_ok C rs (ch_phase (children v ! i))"
    using inv_child(2)[OF inv assms(2)] C assms(3) by (simp_all add: history_ok_def)
  have "not_before (due C (take (k + 1) rs)) started"
    using assms(4) h by (auto simp: paced_def)
  moreover have "failures C (take (k + 1) rs) - 1 = length qs - (if us = [] then 1 else 0)"
  proof (cases "us = []")
    case True
    then show ?thesis using failures_quick[OF assms(7), of "[]"] assms(5) by (simp add: failures_def)
  next
    case False
    then have "failures C us = 1"
      using assms(6) failures_long[of C "last us" "butlast us"] by simp
    then show ?thesis using failures_quick[OF assms(7), of us] assms(5) False by simp
  qed
  moreover have "k < length rs" using assms(4) by auto
  from take_Suc_conv_app_nth[OF this]
  have "take (k + 1) rs \<noteq> []" "last (take (k + 1) rs) = rs ! k" by auto
  ultimately show ?thesis by (simp add: due_def not_before_def backoff_delay_def)
qed

theorem restarts_are_paced_witness:
  "cr_window_read instant_round + backoff_schedule (example_supervisor_config 5) ! 0 \<le> 1"
proof -
  have c: "0 < length (children example_restarted)"
    and rs: "[instant_round] = ch_rounds (children example_restarted ! 0)"
    and ph: "ch_phase (children example_restarted ! 0) = Spawning 1"
    using example_started_child
    by (simp_all add: example_restarted_def example_failed_simps loop_top_def set_phase_def
        set_child_def)
  have "quick (example_supervisor_config 5) instant_round"
    by (simp add: quick_def instant_round_def example_supervisor_config_def
        DEFAULT_BACKOFF_SCHEDULE_SECONDS_def)
  with restarts_are_paced[OF example_restarted_reachable c rs, of 0 1 "[]" "[instant_round]"] ph
  show ?thesis by simp
qed

text \<open>After a shutdown nothing is left running, except a process whose spawn was already under way
  when the supervisor began to stop and completed only after the kill, or has not completed yet: a
  stopping supervisor starts no spawn, and every other process has exited when \<open>shutdown\<close> returns.\<close>

theorem shutdown_leaves_only_late_spawns:
  assumes "supervisor_reachable C v"
  shows "(sv_shutdown v = ShutdownDone \<longrightarrow> (\<forall>h. runs v h \<longrightarrow> h \<in> set (late_spawns v) \<union> unreturned v))
    \<and> (\<forall>l w i st. stopping v \<and> supervisor_step v l w \<and> i < length (children v)
          \<and> ch_phase (children w ! i) = Spawning st \<longrightarrow> ch_phase (children v ! i) = Spawning st)"
proof -
  have inv: "supervisor_inv v" using supervisor_reachable_inv[OF assms] by blast
  show ?thesis
  proof (intro conjI allI impI)
    show "h \<in> set (late_spawns v) \<union> unreturned v" if "sv_shutdown v = ShutdownDone" "runs v h" for h
      using inv that by (simp add: supervisor_inv_def)
    show "ch_phase (children v ! i) = Spawning st"
      if "stopping v \<and> supervisor_step v l w \<and> i < length (children v)
        \<and> ch_phase (children w ! i) = Spawning st" for l w i st
      using that by (elim conjE) (rule stopping_starts_no_spawn)
  qed
qed

definition example_shut_down :: "supervisor \<Rightarrow> supervisor" where
  "example_shut_down v = (begin_shutdown v)\<lparr>sv_shutdown := ShutdownDone\<rparr>"

lemma example_shut_down_reachable:
  assumes "supervisor_reachable C v" "\<not> stopping v" "processes v = []"
  shows "supervisor_reachable C (example_shut_down v)"
proof -
  have begun: "supervisor_reachable C (begin_shutdown v)"
    by (rule reachable_step[OF assms(1)]) (rule exI[of _ BeginShutdown], rule supervisor_step.begin_shutdown)
  have "sv_shutdown (begin_shutdown v) = WaitingForKilled []"
    using assms(2,3)
    by (simp add: begin_shutdown_def Let_def process_list_def kill_remaining_def send_signals_def)
  then have "supervisor_step (begin_shutdown v) KillWaitOver (example_shut_down v)"
    unfolding example_shut_down_def by (rule supervisor_step.kill_wait_over) simp
  then show ?thesis
    by (intro reachable_step[OF begun] exI[of _ KillWaitOver])
qed

theorem shutdown_leaves_only_late_spawns_witness:
  "\<not> runs (example_shut_down (example_started 5)) 0"
proof -
  have "\<not> stopping (example_started 5)" "processes (example_started 5) = []"
    by (simp_all add: example_started_def loop_top_def set_phase_def ProcessSupervisor_def)
  note r = example_shut_down_reachable[OF example_started_reachable this]
  have "sv_shutdown (example_shut_down (example_started 5)) = ShutdownDone"
    "late_spawns (example_shut_down (example_started 5)) = []" "unreturned (example_shut_down (example_started 5)) = {}"
    by (simp_all add: unreturned_def set_child_def new_child_def example_supervisor_config_def example_shut_down_def begin_shutdown_def Let_def process_list_def
        kill_remaining_def send_signals_def example_started_def loop_top_def set_phase_def
        ProcessSupervisor_def)
  with shutdown_leaves_only_late_spawns[OF r] show ?thesis by auto
qed

text \<open>Such a late process is possible while the task of \<open>run\<close> is still alive: with a spawn under
  way, \<open>shutdown\<close> finds no process, returns, and the process the spawn then brings up runs on.\<close>

theorem shutdown_misses_spawn_under_way:
  "\<exists>v. supervisor_reachable (example_supervisor_config 5) v
    \<and> sv_shutdown v = ShutdownDone \<and> runs v 0 \<and> signals v = []"
proof -
  let ?v = "example_shut_down (example_started 5)"
  have v: "\<not> stopping (example_started 5)" "processes (example_started 5) = []"
    by (simp_all add: example_started_def loop_top_def set_phase_def ProcessSupervisor_def)
  note r = example_shut_down_reachable[OF example_started_reachable v]
  have f: "length (children ?v) = 1" "ch_phase (children ?v ! 0) = Spawning 0"
    "sv_shutdown ?v = ShutdownDone" "os_running ?v = []" "signals ?v = []"
    using example_started_child v
    by (simp_all add: example_shut_down_def begin_shutdown_def Let_def process_list_def
        kill_remaining_def send_signals_def example_started_def loop_top_def set_phase_def
        set_child_def ProcessSupervisor_def)
  let ?w = "process_born 0 0 ?v"
  have w: "length (children ?w) = 1" "ch_phase (children ?w ! 0) = Born 0 0" "sv_shutdown ?w = ShutdownDone"
    "os_running ?w = [True]" "signals ?w = []"
    using f by (simp_all add: process_born_def spawner_spawn_def set_phase_def children_set_child)
      (simp_all add: set_child_def)
  have "supervisor_step ?v (ProcessBorn 0) ?w" by (rule supervisor_step.process_born) (simp_all add: f)
  then have r': "supervisor_reachable (example_supervisor_config 5) ?w" by (intro reachable_step[OF r]) blast
  have "supervisor_step ?w (SpawnReturns 0) (spawned 0 0 0 ?w)"
    by (rule supervisor_step.spawn_returns) (simp_all add: w)
  then have "supervisor_reachable (example_supervisor_config 5) (spawned 0 0 0 ?w)"
    by (intro reachable_step[OF r']) blast
  moreover have "sv_shutdown (spawned 0 0 0 ?w) = ShutdownDone" "runs (spawned 0 0 0 ?w) 0"
    "signals (spawned 0 0 0 ?w) = []"
    using w by (simp_all add: runs_def)
  ultimately show ?thesis by blast
qed

text \<open>C21: A child is never forgotten: while the supervisor is not stopping and the child's task runs and
  is not cancelled, whatever state the child is in, starting, down, backing off, the steps of that task and the passing of time
  alone bring a running process into the table under its name, or declare the child degraded.\<close>

theorem supervised_child_comes_up:
  assumes "supervisor_reachable C v" "i < length (children v)" "\<not> stopping v"
    and "backoff_schedule C \<noteq> []" "0 < crash_loop_max_restarts C"
    and "ch_phase (children v ! i) \<notin> {Returned, ChildCancelled} \<union> range ChildRaised \<union> range KillingSpawn"
  shows "\<exists>ls w. execution supervisor_step v ls w \<and> set ls \<subseteq> child_labels i
    \<and> (is_degraded (spec_name v i) w \<or> (\<exists>h. dict_get (processes w) (spec_name v i) = Some h \<and> runs w h))"
proof -
  have inv: "supervisor_inv v" and C: "sv_config v = C" using supervisor_reachable_inv[OF assms(1)] by auto
  have "can_come_up i v"
    by (rule child_comes_up[OF inv handles.inv_reachable[OF assms(1)] assms(2,3) _ _ assms(6)])
      (simp_all add: C assms(4,5))
  then show ?thesis by (simp add: can_come_up_def up_or_degraded_def is_degraded_def)
qed

theorem supervised_child_comes_up_witness:
  "\<exists>ls w. execution supervisor_step (example_failed 5) ls w
    \<and> (is_degraded ''sender-0'' w \<or> (\<exists>h. dict_get (processes w) ''sender-0'' = Some h \<and> runs w h))"
proof -
  have eq: "example_failed 5 = set_child 0 \<lparr>ch_phase = BackingOff 1, consecutive_failures = 1,
      exit_timestamps = [0], ch_rounds = [instant_round]\<rparr> (example_started 5)"
    by (simp add: example_failed_simps)
  have "spec_name (example_started 5) 0 = ''sender-0''"
    by (simp add: spec_name_def example_started_def loop_top_def set_phase_def ProcessSupervisor_def
        example_supervisor_config_def)
  then have c: "0 < length (children (example_failed 5))" "\<not> stopping (example_failed 5)"
    "ch_phase (children (example_failed 5) ! 0) \<notin> {Returned, ChildCancelled} \<union> range ChildRaised \<union> range KillingSpawn"
    "spec_name (example_failed 5) 0 = ''sender-0''"
    unfolding eq using example_started_child(2,3) by (auto simp: children_set_child)
  have "backoff_schedule (example_supervisor_config 5) \<noteq> []" "0 < crash_loop_max_restarts (example_supervisor_config 5)"
    by (simp_all add: example_supervisor_config_def DEFAULT_BACKOFF_SCHEDULE_SECONDS_def)
  from supervised_child_comes_up[OF example_failed_reachable c(1,2) this c(3)] c(4) show ?thesis by auto
qed

text \<open>Before the shutdown \<open>run\<close> ends without an error exactly when the supervisor has given up on every
  child: as long as one child is not degraded its task goes on or has raised. With no children it
  returns at once; the service then runs on without senders.\<close>

theorem run_ends_when_all_degraded:
  assumes "supervisor_reachable C v" "\<not> stopping v" "\<forall>ch\<in>set (children v). ch_phase ch \<noteq> ChildCancelled"
  shows "run_ended v = Some [] \<longleftrightarrow> (\<forall>spec\<in>set (sc_specs C). is_degraded (cs_name spec) v)"
proof -
  have inv: "supervisor_inv v" and C: "sv_config v = C" using supervisor_reachable_inv[OF assms(1)] by auto
  have "length (children v) = length (sc_specs C)" using inv C by (auto simp: supervisor_inv_def)
  then show ?thesis
    unfolding run_ended_clean[OF inv returns.inv_reachable[OF assms(1)] assms(2,3)]
    by (auto simp: all_set_conv_all_nth is_degraded_def spec_name_def C)
qed

theorem run_ends_when_all_degraded_witness:
  "run_ended (example_failed 1) = Some [] \<and> is_degraded ''sender-0'' (example_failed 1)
    \<and> run_ended (example_failed 5) \<noteq> Some []"
proof -
  have child: "set (children (example_failed m)) = {children (example_failed m) ! 0}" for m
  proof -
    have "length (children (example_failed m)) = 1"
      using example_started_child(1) by (simp add: example_failed_simps set_phase_def)
    then show ?thesis by (cases "children (example_failed m)") auto
  qed
  have specs: "sc_specs (example_supervisor_config m) = [\<lparr>cs_name = ''sender-0'', cs_argv = [''./bin/nexus-sender''], cs_env = None\<rparr>]" for m
    by (simp add: example_supervisor_config_def)
  have one: "\<not> stopping (example_failed 1)" "ch_phase (children (example_failed 1) ! 0) = Returned"
    "degraded (example_failed 1) = {''sender-0''}"
    and five: "\<not> stopping (example_failed 5)" "ch_phase (children (example_failed 5) ! 0) = BackingOff 1"
    "degraded (example_failed 5) = {}"
    using example_started_child(2,3)
    by (auto simp: example_failed_simps set_child_def example_started_def loop_top_def set_phase_def ProcessSupervisor_def)
  have "\<forall>ch\<in>set (children (example_failed 1)). ch_phase ch \<noteq> ChildCancelled"
    "\<forall>ch\<in>set (children (example_failed 5)). ch_phase ch \<noteq> ChildCancelled"
    using one(2) five(2) by (simp_all add: child)
  note run = run_ends_when_all_degraded[OF example_failed_reachable one(1) this(1)]
    run_ends_when_all_degraded[OF example_failed_reachable five(1) this(2)]
  show ?thesis unfolding run specs is_degraded_def one(3) five(3) by simp
qed

end
