(* ===== verification/Config.thy ===== *)
theory Config imports Models begin

text \<open>
  \<open>config.py\<close> with the constants of \<open>constants.py\<close>: reading the parsed TOML file, overriding it from the
  environment, and validating the result. A parsed TOML value is a datatype; what \<open>int(...)\<close> and
  \<open>str(...)\<close> do on each kind of value is written out for ASCII text, except the text of a value that
  is not a string, which is a parameter. The TOML parser, the resolved directory of the
  configuration file, the environment and the file system are arguments. \<open>validate_config\<close> returns
  the directories it created with its result, because it creates before it checks the rest.
\<close>

section \<open>Constants\<close>

definition DEFAULT_RATE_CEILING_BPS :: int where "DEFAULT_RATE_CEILING_BPS = 20000000"
definition DEFAULT_RATE_FLOOR_BPS :: int where "DEFAULT_RATE_FLOOR_BPS = 5000000"
definition DEFAULT_TARGET_HOST :: string where "DEFAULT_TARGET_HOST = ''127.0.0.1''"
definition DEFAULT_BASE_PORT :: int where "DEFAULT_BASE_PORT = 9000"
definition DEFAULT_SENDER_BINARY_PATH :: string where
  "DEFAULT_SENDER_BINARY_PATH = ''./bin/nexus-sender''"
definition DEFAULT_SENDER_COUNT :: int where "DEFAULT_SENDER_COUNT = 3"
definition CONFIG_ERROR_EXIT_CODE :: int where "CONFIG_ERROR_EXIT_CODE = 78"

text \<open>The names of sections, keys and environment variables; the simplifier unfolds them.\<close>

definition PATHS_SECTION :: string where [simp]: "PATHS_SECTION = ''paths''"
definition PACING_SECTION :: string where [simp]: "PACING_SECTION = ''pacing''"
definition FEC_SECTION :: string where [simp]: "FEC_SECTION = ''fec''"
definition SENDERS_SECTION :: string where [simp]: "SENDERS_SECTION = ''senders''"
definition WATCH_PATH_KEY :: string where [simp]: "WATCH_PATH_KEY = ''watch_path''"
definition SOCKET_PATH_KEY :: string where [simp]: "SOCKET_PATH_KEY = ''socket_path''"
definition RATE_CEILING_BPS_KEY :: string where [simp]: "RATE_CEILING_BPS_KEY = ''rate_ceiling_bps''"
definition RATE_FLOOR_BPS_KEY :: string where [simp]: "RATE_FLOOR_BPS_KEY = ''rate_floor_bps''"
definition FEC_K_KEY :: string where [simp]: "FEC_K_KEY = ''k''"
definition FEC_N_KEY :: string where [simp]: "FEC_N_KEY = ''n''"
definition FEC_SYMBOL_BYTES_KEY :: string where [simp]: "FEC_SYMBOL_BYTES_KEY = ''symbol_bytes''"
definition TARGET_HOST_KEY :: string where [simp]: "TARGET_HOST_KEY = ''target_host''"
definition BASE_PORT_KEY :: string where [simp]: "BASE_PORT_KEY = ''base_port''"
definition BINARY_PATH_KEY :: string where [simp]: "BINARY_PATH_KEY = ''binary_path''"
definition SENDER_COUNT_KEY :: string where [simp]: "SENDER_COUNT_KEY = ''sender_count''"
definition WATCH_PATH_ENV_VAR :: string where [simp]: "WATCH_PATH_ENV_VAR = ''NEXUS_WATCH_PATH''"
definition SOCKET_PATH_ENV_VAR :: string where [simp]: "SOCKET_PATH_ENV_VAR = ''NEXUS_SOCKET_PATH''"
definition RATE_CEILING_BPS_ENV_VAR :: string where [simp]: "RATE_CEILING_BPS_ENV_VAR = ''NEXUS_RATE_CEILING_BPS''"
definition RATE_FLOOR_BPS_ENV_VAR :: string where [simp]: "RATE_FLOOR_BPS_ENV_VAR = ''NEXUS_RATE_FLOOR_BPS''"
definition FEC_K_ENV_VAR :: string where [simp]: "FEC_K_ENV_VAR = ''NEXUS_FEC_K''"
definition FEC_N_ENV_VAR :: string where [simp]: "FEC_N_ENV_VAR = ''NEXUS_FEC_N''"
definition FEC_SYMBOL_BYTES_ENV_VAR :: string where [simp]: "FEC_SYMBOL_BYTES_ENV_VAR = ''NEXUS_FEC_SYMBOL_BYTES''"
definition TARGET_HOST_ENV_VAR :: string where [simp]: "TARGET_HOST_ENV_VAR = ''NEXUS_SENDERS_TARGET_HOST''"
definition BASE_PORT_ENV_VAR :: string where [simp]: "BASE_PORT_ENV_VAR = ''NEXUS_SENDERS_BASE_PORT''"
definition BINARY_PATH_ENV_VAR :: string where [simp]: "BINARY_PATH_ENV_VAR = ''NEXUS_SENDERS_BINARY_PATH''"
definition SENDER_COUNT_ENV_VAR :: string where [simp]: "SENDER_COUNT_ENV_VAR = ''NEXUS_SENDERS_SENDER_COUNT''"

lemmas config_defaults = DEFAULT_RATE_CEILING_BPS_def DEFAULT_RATE_FLOOR_BPS_def
  DEFAULT_TARGET_HOST_def DEFAULT_BASE_PORT_def DEFAULT_SENDER_BINARY_PATH_def
  DEFAULT_SENDER_COUNT_def

section \<open>Values\<close>

datatype toml =
    TomlStr string
  | TomlInt int
  | TomlFloat rat
  | TomlInf
  | TomlNan
  | TomlBool bool
  | TomlDateTime string
  | TomlArray "toml list"
  | TomlTable "(string \<times> toml) list"

text \<open>\<open>int(text)\<close>: surrounding blanks, a sign, digits with single underscores between them.\<close>

definition is_blank :: "char \<Rightarrow> bool" where
  "is_blank c \<longleftrightarrow> c \<in> set [CHR '' '', CHR 0x09, CHR 0x0A, CHR 0x0B, CHR 0x0C, CHR 0x0D]"

definition strip :: "string \<Rightarrow> string" where
  "strip s = rev (dropWhile is_blank (rev (dropWhile is_blank s)))"

definition decimal_digit :: "char \<Rightarrow> int option" where
  "decimal_digit c = (let n = of_char c :: nat in if 48 \<le> n \<and> n \<le> 57 then Some (int n - 48) else None)"

text \<open>\<open>parse_digits acc after_digit s\<close>: an underscore needs a digit on both sides.\<close>

fun parse_digits :: "int \<Rightarrow> bool \<Rightarrow> string \<Rightarrow> int option" where
  "parse_digits acc after_digit [] = (if after_digit then Some acc else None)"
| "parse_digits acc after_digit (c # cs) =
     (case decimal_digit c of
        Some d \<Rightarrow> parse_digits (10 * acc + d) True cs
      | None \<Rightarrow> if c = CHR ''_'' \<and> after_digit then parse_digits acc False cs else None)"

definition int_of_text :: "string \<Rightarrow> int result" where
  "int_of_text text =
     (let s = strip text;
          parsed = (if take 1 s = ''-'' then map_option uminus (parse_digits 0 False (drop 1 s))
            else if take 1 s = ''+'' then parse_digits 0 False (drop 1 s)
            else parse_digits 0 False s)
      in case parsed of Some i \<Rightarrow> Inr i | None \<Rightarrow> Inl (ValueError LibraryValueError))"

definition truncate :: "rat \<Rightarrow> int" where
  "truncate x = (if 0 \<le> x then \<lfloor>x\<rfloor> else \<lceil>x\<rceil>)"

fun py_int :: "toml \<Rightarrow> int result" where
  "py_int (TomlStr s) = int_of_text s"
| "py_int (TomlInt i) = Inr i"
| "py_int (TomlFloat x) = Inr (truncate x)"
| "py_int TomlInf = Inl OverflowError"
| "py_int TomlNan = Inl (ValueError LibraryValueError)"
| "py_int (TomlBool b) = Inr (if b then 1 else 0)"
| "py_int (TomlDateTime s) = Inl TypeError"
| "py_int (TomlArray vs) = Inl TypeError"
| "py_int (TomlTable t) = Inl TypeError"

fun py_str :: "(toml \<Rightarrow> string) \<Rightarrow> toml \<Rightarrow> string" where
  "py_str text_of (TomlStr s) = s"
| "py_str text_of v = text_of v"

section \<open>Configuration data\<close>

record paths_config =
  watch_path :: path
  socket_path :: path

record pacing_config =
  rate_ceiling_bps :: int
  rate_floor_bps :: int

record senders_config =
  target_host :: string
  base_port :: int
  binary_path :: string
  sender_count :: int

record app_config =
  ac_paths :: paths_config
  ac_pacing :: pacing_config
  ac_fec :: fec_params
  ac_senders :: senders_config

datatype cast = CastStr | CastInt

fun apply_cast :: "cast \<Rightarrow> string \<Rightarrow> toml result" where
  "apply_cast CastStr s = Inr (TomlStr s)"
| "apply_cast CastInt s = bindE (int_of_text s) (\<lambda>i. Inr (TomlInt i))"

definition ENV_OVERRIDES :: "(string \<times> string \<times> string \<times> cast) list" where
  "ENV_OVERRIDES =
     [(WATCH_PATH_ENV_VAR, PATHS_SECTION, WATCH_PATH_KEY, CastStr),
      (SOCKET_PATH_ENV_VAR, PATHS_SECTION, SOCKET_PATH_KEY, CastStr),
      (RATE_CEILING_BPS_ENV_VAR, PACING_SECTION, RATE_CEILING_BPS_KEY, CastInt),
      (RATE_FLOOR_BPS_ENV_VAR, PACING_SECTION, RATE_FLOOR_BPS_KEY, CastInt),
      (FEC_K_ENV_VAR, FEC_SECTION, FEC_K_KEY, CastInt),
      (FEC_N_ENV_VAR, FEC_SECTION, FEC_N_KEY, CastInt),
      (FEC_SYMBOL_BYTES_ENV_VAR, FEC_SECTION, FEC_SYMBOL_BYTES_KEY, CastInt),
      (TARGET_HOST_ENV_VAR, SENDERS_SECTION, TARGET_HOST_KEY, CastStr),
      (BASE_PORT_ENV_VAR, SENDERS_SECTION, BASE_PORT_KEY, CastInt),
      (BINARY_PATH_ENV_VAR, SENDERS_SECTION, BINARY_PATH_KEY, CastStr),
      (SENDER_COUNT_ENV_VAR, SENDERS_SECTION, SENDER_COUNT_KEY, CastInt)]"

section \<open>Reading\<close>

text \<open>\<open>_require(mapping, *keys)\<close>: the walk over the keys that are left, after the keys passed.\<close>

fun require_from :: "string list \<Rightarrow> string list \<Rightarrow> toml \<Rightarrow> toml result" where
  "require_from keys [] current = Inr current"
| "require_from keys (key # rest) current =
     (case current of
        TomlTable t \<Rightarrow>
          (case dict_get t key of
             Some v \<Rightarrow> require_from keys rest v
           | None \<Rightarrow> Inl (ValueError (MissingConfigKey (takeWhile (\<lambda>k. k \<noteq> key) keys @ [key]))))
      | _ \<Rightarrow> Inl (ValueError (MissingConfigKey (takeWhile (\<lambda>k. k \<noteq> key) keys @ [key]))))"

definition require_key :: "toml \<Rightarrow> string list \<Rightarrow> toml result" where
  "require_key mapping keys = require_from keys keys mapping"

definition resolve_path :: "path \<Rightarrow> string \<Rightarrow> path" where
  "resolve_path base_dir value =
     (let p = Path value in if is_absolute p then p else joinpath base_dir p)"

text \<open>\<open>section.get(key, default)\<close> and \<open>section[key] = value\<close> on whatever the section is.\<close>

fun toml_get :: "toml \<Rightarrow> string \<Rightarrow> toml \<Rightarrow> toml result" where
  "toml_get (TomlTable t) key dflt = Inr (case dict_get t key of Some v \<Rightarrow> v | None \<Rightarrow> dflt)"
| "toml_get v key dflt = Inl AttributeError"

fun toml_set :: "toml \<Rightarrow> string \<Rightarrow> toml \<Rightarrow> toml result" where
  "toml_set (TomlTable t) key v = Inr (TomlTable (dict_set key v t))"
| "toml_set s key v = Inl TypeError"

type_synonym sections = "(string, toml) dict"

definition setdefault_section :: "(string, toml) dict \<Rightarrow> string \<Rightarrow> toml" where
  "setdefault_section data name = (case dict_get data name of Some v \<Rightarrow> v | None \<Rightarrow> TomlTable [])"

definition section_data :: "(string, toml) dict \<Rightarrow> sections" where
  "section_data data = map (\<lambda>name. (name, setdefault_section data name))
     [PATHS_SECTION, PACING_SECTION, FEC_SECTION, SENDERS_SECTION]"

definition section_of :: "sections \<Rightarrow> string \<Rightarrow> toml" where
  "section_of secs name = (case dict_get secs name of Some v \<Rightarrow> v | None \<Rightarrow> TomlTable [])"

fun apply_overrides ::
  "(string \<Rightarrow> string option) \<Rightarrow> (string \<times> string \<times> string \<times> cast) list \<Rightarrow> sections \<Rightarrow> sections result" where
  "apply_overrides env [] secs = Inr secs"
| "apply_overrides env ((var, name, key, cast) # rest) secs =
     (case env var of
        None \<Rightarrow> apply_overrides env rest secs
      | Some text \<Rightarrow>
          bindE (apply_cast cast text) (\<lambda>v.
            bindE (toml_set (section_of secs name) key v) (\<lambda>s.
              apply_overrides env rest (dict_set name s secs))))"

section \<open>Validation\<close>

datatype node = Missing | IsDirectory | OtherFile

text \<open>What \<open>is_dir\<close> and \<open>exists\<close> find at a path; both may raise, as when a directory cannot be searched.\<close>

record file_system =
  fs_node :: "path \<Rightarrow> node result"
  fs_mkdir :: "path \<Rightarrow> unit result"

definition check_watch_path :: "file_system \<Rightarrow> path \<Rightarrow> unit result \<times> path list" where
  "check_watch_path fs p =
     (case fs_node fs p of
        Inl e \<Rightarrow> (Inl e, [])
      | Inr IsDirectory \<Rightarrow> (Inr (), [])
      | Inr OtherFile \<Rightarrow> (Inl (ValueError WatchPathNotDirectory), [])
      | Inr Missing \<Rightarrow> (fs_mkdir fs p, [p]))"

definition check_values :: "app_config \<Rightarrow> unit result" where
  "check_values c =
     (if rate_floor_bps (ac_pacing c) \<le> 0 then Inl (ValueError RateFloorNotPositive)
      else if rate_ceiling_bps (ac_pacing c) < rate_floor_bps (ac_pacing c)
        then Inl (ValueError (RateCeilingBelowFloor (rate_ceiling_bps (ac_pacing c))
          (rate_floor_bps (ac_pacing c))))
      else if fec_k (ac_fec c) \<le> 0 \<or> fec_n (ac_fec c) \<le> 0 \<or> symbol_bytes (ac_fec c) \<le> 0
        then Inl (ValueError FecNotPositive)
      else if GF256_MAX_SHARES < fec_n (ac_fec c)
        then Inl (ValueError (FecNTooLarge (fec_n (ac_fec c))))
      else if fec_n (ac_fec c) \<le> fec_k (ac_fec c)
        then Inl (ValueError (FecKNotBelowN (fec_k (ac_fec c)) (fec_n (ac_fec c))))
      else if MAX_SYMBOL_BYTES < symbol_bytes (ac_fec c)
        then Inl (ValueError (SymbolBytesOverBudget (symbol_bytes (ac_fec c))))
      else if binary_path (ac_senders c) = [] then Inl (ValueError BinaryPathEmpty)
      else if sender_count (ac_senders c) < 0
        then Inl (ValueError (SenderCountNegative (sender_count (ac_senders c))))
      else if \<not> (MIN_PORT \<le> base_port (ac_senders c) \<and> base_port (ac_senders c) \<le> MAX_PORT)
        then Inl (ValueError (BasePortOutOfRange (base_port (ac_senders c))))
      else Inr ())"

definition validate_config :: "file_system \<Rightarrow> app_config \<Rightarrow> unit result \<times> path list" where
  "validate_config fs c =
     (case check_watch_path fs (watch_path (ac_paths c)) of
        (Inl e, made) \<Rightarrow> (Inl e, made)
      | (Inr _, made) \<Rightarrow> (check_values c, made))"

section \<open>Loading\<close>

record config_source =
  src_data :: "(string, toml) dict result"
  src_dir :: path
  src_env :: "string \<Rightarrow> string option"
  src_text_of :: "toml \<Rightarrow> string"

definition int_or :: "toml \<Rightarrow> string \<Rightarrow> int \<Rightarrow> int result" where
  "int_or s key dflt = bindE (toml_get s key (TomlInt dflt)) py_int"

definition str_or :: "(toml \<Rightarrow> string) \<Rightarrow> toml \<Rightarrow> string \<Rightarrow> string \<Rightarrow> string result" where
  "str_or text_of s key dflt = bindE (toml_get s key (TomlStr dflt)) (\<lambda>v. Inr (py_str text_of v))"

definition required_path :: "(toml \<Rightarrow> string) \<Rightarrow> path \<Rightarrow> toml \<Rightarrow> string \<Rightarrow> path result" where
  "required_path text_of dir s key =
     bindE (require_key s [key]) (\<lambda>v. Inr (resolve_path dir (py_str text_of v)))"

definition required_int :: "toml \<Rightarrow> string \<Rightarrow> int result" where
  "required_int s key = bindE (require_key s [key]) py_int"

definition build_config :: "config_source \<Rightarrow> sections \<Rightarrow> app_config result" where
  "build_config src secs =
     (let dir = src_dir src; text_of = src_text_of src;
          paths_data = section_of secs PATHS_SECTION; pacing_data = section_of secs PACING_SECTION;
          fec_data = section_of secs FEC_SECTION; senders_data = section_of secs SENDERS_SECTION
      in bindE (required_path text_of dir paths_data WATCH_PATH_KEY) (\<lambda>watch.
         bindE (required_path text_of dir paths_data SOCKET_PATH_KEY) (\<lambda>socket.
         bindE (int_or pacing_data RATE_CEILING_BPS_KEY DEFAULT_RATE_CEILING_BPS) (\<lambda>ceil.
         bindE (int_or pacing_data RATE_FLOOR_BPS_KEY DEFAULT_RATE_FLOOR_BPS) (\<lambda>flr.
         bindE (required_int fec_data FEC_K_KEY) (\<lambda>k.
         bindE (required_int fec_data FEC_N_KEY) (\<lambda>n.
         bindE (required_int fec_data FEC_SYMBOL_BYTES_KEY) (\<lambda>sb.
         bindE (str_or text_of senders_data TARGET_HOST_KEY DEFAULT_TARGET_HOST) (\<lambda>host.
         bindE (int_or senders_data BASE_PORT_KEY DEFAULT_BASE_PORT) (\<lambda>port.
         bindE (str_or text_of senders_data BINARY_PATH_KEY DEFAULT_SENDER_BINARY_PATH) (\<lambda>bin.
         bindE (int_or senders_data SENDER_COUNT_KEY DEFAULT_SENDER_COUNT) (\<lambda>count.
           Inr \<lparr>ac_paths = \<lparr>watch_path = watch, socket_path = socket\<rparr>,
                ac_pacing = \<lparr>rate_ceiling_bps = ceil, rate_floor_bps = flr\<rparr>,
                ac_fec = \<lparr>fec_k = k, fec_n = n, symbol_bytes = sb\<rparr>,
                ac_senders = \<lparr>target_host = host, base_port = port,
                  binary_path = path_str (resolve_path dir bin), sender_count = count\<rparr>\<rparr>))))))))))))"

definition read_sections :: "config_source \<Rightarrow> sections result" where
  "read_sections src = bindE (src_data src) (\<lambda>data.
     apply_overrides (src_env src) ENV_OVERRIDES (section_data data))"

definition load_config :: "file_system \<Rightarrow> config_source \<Rightarrow> app_config result \<times> path list" where
  "load_config fs src =
     (case bindE (read_sections src) (build_config src) of
        Inl e \<Rightarrow> (Inl e, [])
      | Inr c \<Rightarrow>
          (case validate_config fs c of
             (Inl e, made) \<Rightarrow> (Inl e, made)
           | (Inr _, made) \<Rightarrow> (Inr c, made)))"

section \<open>Lemmas\<close>

lemma check_values_Inr_iff:
  "check_values c = Inr () \<longleftrightarrow> 0 < rate_floor_bps (ac_pacing c)
     \<and> rate_floor_bps (ac_pacing c) \<le> rate_ceiling_bps (ac_pacing c) \<and> fec_valid (ac_fec c)
     \<and> binary_path (ac_senders c) \<noteq> [] \<and> 0 \<le> sender_count (ac_senders c)
     \<and> 1 \<le> base_port (ac_senders c) \<and> base_port (ac_senders c) \<le> 65535"
  by (auto simp: check_values_def fec_valid_def MIN_PORT_def MAX_PORT_def)

lemma load_config_Inr:
  assumes "load_config fs src = (Inr c, made)"
  shows "\<exists>secs. read_sections src = Inr secs \<and> build_config src secs = Inr c
    \<and> check_values c = Inr () \<and> check_watch_path fs (watch_path (ac_paths c)) = (Inr (), made)"
  using assms
  by (auto simp: load_config_def validate_config_def res_simps split: sum.splits prod.splits)

lemma join_with_nonempty: "ps \<noteq> [] \<Longrightarrow> \<forall>p\<in>set ps. p \<noteq> [] \<Longrightarrow> join_with c ps \<noteq> []"
  by (induction c ps rule: join_with.induct) auto

lemma path_str_nonempty: "path_wf p \<Longrightarrow> path_str p \<noteq> []"
  using join_with_nonempty[of "path_tail p" "CHR ''/''"]
  by (auto simp: path_str_def path_wf_def part_wf_def)

lemma path_wf_resolve [intro]: "path_wf dir \<Longrightarrow> path_wf (resolve_path dir value)"
  by (auto simp: resolve_path_def Let_def)

lemma resolve_path_absolute: "is_absolute dir \<Longrightarrow> is_absolute (resolve_path dir value)"
  by (auto simp: resolve_path_def Let_def joinpath_def is_absolute_def)

lemma build_config_Inr:
  assumes "build_config src secs = Inr c"
  shows "(\<exists>w. watch_path (ac_paths c) = resolve_path (src_dir src) w)"
    and "(\<exists>w. socket_path (ac_paths c) = resolve_path (src_dir src) w)"
    and "(\<exists>w. binary_path (ac_senders c) = path_str (resolve_path (src_dir src) w))"
    and "required_path (src_text_of src) (src_dir src) (section_of secs PATHS_SECTION) WATCH_PATH_KEY
      = Inr (watch_path (ac_paths c))"
    and "required_path (src_text_of src) (src_dir src) (section_of secs PATHS_SECTION) SOCKET_PATH_KEY
      = Inr (socket_path (ac_paths c))"
    and "int_or (section_of secs PACING_SECTION) RATE_CEILING_BPS_KEY DEFAULT_RATE_CEILING_BPS
      = Inr (rate_ceiling_bps (ac_pacing c))"
    and "int_or (section_of secs PACING_SECTION) RATE_FLOOR_BPS_KEY DEFAULT_RATE_FLOOR_BPS
      = Inr (rate_floor_bps (ac_pacing c))"
    and "required_int (section_of secs FEC_SECTION) FEC_K_KEY = Inr (fec_k (ac_fec c))"
    and "required_int (section_of secs FEC_SECTION) FEC_N_KEY = Inr (fec_n (ac_fec c))"
    and "required_int (section_of secs FEC_SECTION) FEC_SYMBOL_BYTES_KEY = Inr (symbol_bytes (ac_fec c))"
    and "str_or (src_text_of src) (section_of secs SENDERS_SECTION) TARGET_HOST_KEY DEFAULT_TARGET_HOST
      = Inr (target_host (ac_senders c))"
    and "int_or (section_of secs SENDERS_SECTION) BASE_PORT_KEY DEFAULT_BASE_PORT
      = Inr (base_port (ac_senders c))"
    and "\<exists>b. str_or (src_text_of src) (section_of secs SENDERS_SECTION) BINARY_PATH_KEY
        DEFAULT_SENDER_BINARY_PATH = Inr b
      \<and> binary_path (ac_senders c) = path_str (resolve_path (src_dir src) b)"
    and "int_or (section_of secs SENDERS_SECTION) SENDER_COUNT_KEY DEFAULT_SENDER_COUNT
      = Inr (sender_count (ac_senders c))"
  using assms by (auto simp: build_config_def Let_def res_simps required_path_def)

section \<open>Overrides\<close>

lemma section_of_set: "section_of (dict_set name s secs) = (section_of secs)(name := s)"
  by (auto simp: section_of_def fun_eq_iff)

definition holds_value :: "toml \<Rightarrow> string \<Rightarrow> toml \<Rightarrow> bool" where
  "holds_value s key v \<longleftrightarrow> (\<exists>t. s = TomlTable t \<and> dict_get t key = Some v)"

lemma toml_set_Inr: "toml_set s key v = Inr s' \<Longrightarrow> \<exists>t. s = TomlTable t \<and> s' = TomlTable (dict_set key v t)"
  by (cases s) auto

lemma apply_overrides_keeps:
  assumes "apply_overrides env ovs secs = Inr secs'"
    and "(name, key) \<notin> set (map (\<lambda>(var, n, k, c). (n, k)) ovs)"
    and "holds_value (section_of secs name) key v"
  shows "holds_value (section_of secs' name) key v"
  using assms
proof (induction env ovs secs rule: apply_overrides.induct)
  case (2 env var n k c rest secs)
  show ?case
  proof (cases "env var")
    case None
    with 2 show ?thesis by simp
  next
    case (Some tx)
    from 2(3) Some obtain x s where x: "apply_cast c tx = Inr x" "toml_set (section_of secs n) k x = Inr s"
      "apply_overrides env rest (dict_set n s secs) = Inr secs'"
      by (auto simp: res_simps)
    have "holds_value (section_of (dict_set n s secs) name) key v"
      using toml_set_Inr[OF x(2)] 2(4,5) by (auto simp: section_of_set holds_value_def)
    with 2(2)[OF Some x(3)] 2(4) show ?thesis by simp
  qed
qed simp

lemma apply_overrides_value:
  assumes "apply_overrides env ovs secs = Inr secs'"
    and "distinct (map (\<lambda>(var, n, k, c). (n, k)) ovs)"
    and "(var, name, key, cast) \<in> set ovs" "env var = Some text"
  shows "\<exists>v. apply_cast cast text = Inr v \<and> holds_value (section_of secs' name) key v"
  using assms
proof (induction env ovs secs rule: apply_overrides.induct)
  case (2 env var' n k c rest secs)
  show ?case
  proof (cases "env var'")
    case None
    with 2 show ?thesis by auto
  next
    case (Some tx')
    from 2(3) Some obtain x s where x: "apply_cast c tx' = Inr x" "toml_set (section_of secs n) k x = Inr s"
      "apply_overrides env rest (dict_set n s secs) = Inr secs'"
      by (auto simp: res_simps)
    show ?thesis
    proof (cases "(var, name, key, cast) = (var', n, k, c)")
      case True
      have "holds_value (section_of (dict_set n s secs) n) k x"
        using toml_set_Inr[OF x(2)] by (auto simp: section_of_set holds_value_def)
      moreover have "(n, k) \<notin> set (map (\<lambda>(var, n, k, c). (n, k)) rest)" using 2(4) by simp
      ultimately have "holds_value (section_of secs' n) k x" by (intro apply_overrides_keeps[OF x(3)])
      with True x(1) Some 2(6) show ?thesis by auto
    next
      case False
      with 2(5) have "(var, name, key, cast) \<in> set rest" by auto
      with 2(2)[OF Some x(3)] 2(4,6) show ?thesis by simp
    qed
  qed
qed simp

lemma override_reaches:
  assumes "read_sections src = Inr secs" "(var, name, key, cast) \<in> set ENV_OVERRIDES"
    and "src_env src var = Some text"
  shows "\<exists>v. apply_cast cast text = Inr v \<and> holds_value (section_of secs name) key v"
proof -
  obtain data where "apply_overrides (src_env src) ENV_OVERRIDES (section_data data) = Inr secs"
    using assms(1) by (auto simp: read_sections_def res_simps)
  then show ?thesis
    by (rule apply_overrides_value[where env = "src_env src", OF _ _ assms(2,3)])
      (simp add: ENV_OVERRIDES_def)
qed

lemma holds_value_reads:
  assumes "holds_value s key (TomlInt i)"
  shows "int_or s key d = Inr i" "required_int s key = Inr i"
  using assms by (auto simp: holds_value_def int_or_def required_int_def require_key_def)

lemma holds_text_reads:
  assumes "holds_value s key (TomlStr t)"
  shows "str_or text_of s key d = Inr t" "required_path text_of dir s key = Inr (resolve_path dir t)"
  using assms by (auto simp: holds_value_def str_or_def required_path_def require_key_def)

lemma override_int:
  assumes "read_sections src = Inr secs" "(var, name, key, CastInt) \<in> set ENV_OVERRIDES"
    and "src_env src var = Some text"
  shows "\<exists>i. int_of_text text = Inr i \<and> holds_value (section_of secs name) key (TomlInt i)"
  using override_reaches[OF assms] by (auto simp: res_simps)

lemma override_str:
  assumes "read_sections src = Inr secs" "(var, name, key, CastStr) \<in> set ENV_OVERRIDES"
    and "src_env src var = Some text"
  shows "holds_value (section_of secs name) key (TomlStr text)"
  using override_reaches[OF assms] by (auto simp: res_simps)

text \<open>What is read back is the override.\<close>

lemma override_int_or:
  assumes "read_sections src = Inr secs" "(var, name, key, CastInt) \<in> set ENV_OVERRIDES"
    and "src_env src var = Some t" "int_or (section_of secs name) key d = Inr i"
  shows "int_of_text t = Inr i"
  using override_int[OF assms(1-3)] assms(4) holds_value_reads(1) by fastforce

lemma override_required_int:
  assumes "read_sections src = Inr secs" "(var, name, key, CastInt) \<in> set ENV_OVERRIDES"
    and "src_env src var = Some t" "required_int (section_of secs name) key = Inr i"
  shows "int_of_text t = Inr i"
  using override_int[OF assms(1-3)] assms(4) holds_value_reads(2) by fastforce

lemma override_str_or:
  assumes "read_sections src = Inr secs" "(var, name, key, CastStr) \<in> set ENV_OVERRIDES"
    and "src_env src var = Some t" "str_or text_of (section_of secs name) key d = Inr x"
  shows "x = t"
  using holds_text_reads(1)[OF override_str[OF assms(1-3)]] assms(4) by simp

lemma override_path:
  assumes "read_sections src = Inr secs" "(var, name, key, CastStr) \<in> set ENV_OVERRIDES"
    and "src_env src var = Some t" "required_path text_of dir (section_of secs name) key = Inr p"
  shows "p = resolve_path dir t"
  using holds_text_reads(2)[OF override_str[OF assms(1-3)]] assms(4) by simp

section \<open>A concrete configuration\<close>

definition example_data :: "(string, toml) dict" where
  "example_data =
     [(''paths'', TomlTable [(''watch_path'', TomlStr ''./watch''), (''socket_path'', TomlStr ''/run/nexus.sock'')]),
      (''fec'', TomlTable [(''k'', TomlInt 200), (''n'', TomlInt 255), (''symbol_bytes'', TomlInt 1400)])]"

definition example_config_source :: config_source where
  "example_config_source = \<lparr>src_data = Inr example_data, src_dir = Path ''/etc/nexus'',
     src_env = [''NEXUS_FEC_K'' \<mapsto> '' 1_00 ''], src_text_of = (\<lambda>_. [])\<rparr>"

definition example_fs :: file_system where
  "example_fs = \<lparr>fs_node = (\<lambda>_. Inr Missing), fs_mkdir = (\<lambda>_. Inr ())\<rparr>"

lemma example_load:
  "load_config example_fs example_config_source =
    (Inr \<lparr>ac_paths = \<lparr>watch_path = Path ''/etc/nexus/watch'', socket_path = Path ''/run/nexus.sock''\<rparr>,
       ac_pacing = \<lparr>rate_ceiling_bps = 20000000, rate_floor_bps = 5000000\<rparr>,
       ac_fec = \<lparr>fec_k = 100, fec_n = 255, symbol_bytes = 1400\<rparr>,
       ac_senders = \<lparr>target_host = ''127.0.0.1'', base_port = 9000,
         binary_path = ''/etc/nexus/bin/nexus-sender'', sender_count = 3\<rparr>\<rparr>,
     [Path ''/etc/nexus/watch''])"
  by code_simp

section \<open>Properties\<close>

text \<open>C34: A configuration that loads is one the service can run on: valid FEC parameters, rates in
  order, a sender count and a base port in range, absolute paths, and a watch directory that was
  there or was created.\<close>

theorem loaded_config_is_valid:
  assumes "load_config fs src = (Inr c, made)" "is_absolute (src_dir src)"
  shows "fec_valid (ac_fec c)
    \<and> 0 < rate_floor_bps (ac_pacing c) \<and> rate_floor_bps (ac_pacing c) \<le> rate_ceiling_bps (ac_pacing c)
    \<and> 0 \<le> sender_count (ac_senders c)
    \<and> 1 \<le> base_port (ac_senders c) \<and> base_port (ac_senders c) \<le> 65535
    \<and> is_absolute (watch_path (ac_paths c)) \<and> is_absolute (socket_path (ac_paths c))
    \<and> (fs_node fs (watch_path (ac_paths c)) = Inr IsDirectory \<and> made = []
       \<or> fs_node fs (watch_path (ac_paths c)) = Inr Missing \<and> made = [watch_path (ac_paths c)]
          \<and> fs_mkdir fs (watch_path (ac_paths c)) = Inr ())"
proof -
  obtain secs where secs: "build_config src secs = Inr c" "check_values c = Inr ()"
    "check_watch_path fs (watch_path (ac_paths c)) = (Inr (), made)"
    using load_config_Inr[OF assms(1)] by blast
  have "is_absolute (watch_path (ac_paths c))" "is_absolute (socket_path (ac_paths c))"
    using build_config_Inr(1,2)[OF secs(1)] resolve_path_absolute[OF assms(2)] by auto
  then show ?thesis
    using secs(2,3) by (auto simp: check_values_Inr_iff check_watch_path_def split: node.splits sum.splits)
qed

theorem loaded_config_is_valid_witness:
  "\<exists>c made. load_config example_fs example_config_source = (Inr c, made)
    \<and> fec_valid (ac_fec c) \<and> base_port (ac_senders c) \<le> 65535"
proof -
  have "is_absolute (src_dir example_config_source)"
    by (simp add: example_config_source_def is_absolute_def Path_def split_root_def)
  from loaded_config_is_valid[OF example_load this] example_load show ?thesis by blast
qed

text \<open>C32: The environment overrides the file: whenever an override variable is set and the
  configuration loads, the field it stands for has the value of the variable, whatever the file
  says.\<close>

theorem environment_overrides_file:
  assumes "load_config fs src = (Inr c, made)"
  shows "(\<forall>t. src_env src ''NEXUS_WATCH_PATH'' = Some t \<longrightarrow> watch_path (ac_paths c) = resolve_path (src_dir src) t)
    \<and> (\<forall>t. src_env src ''NEXUS_SOCKET_PATH'' = Some t \<longrightarrow> socket_path (ac_paths c) = resolve_path (src_dir src) t)
    \<and> (\<forall>t. src_env src ''NEXUS_RATE_CEILING_BPS'' = Some t \<longrightarrow> int_of_text t = Inr (rate_ceiling_bps (ac_pacing c)))
    \<and> (\<forall>t. src_env src ''NEXUS_RATE_FLOOR_BPS'' = Some t \<longrightarrow> int_of_text t = Inr (rate_floor_bps (ac_pacing c)))
    \<and> (\<forall>t. src_env src ''NEXUS_FEC_K'' = Some t \<longrightarrow> int_of_text t = Inr (fec_k (ac_fec c)))
    \<and> (\<forall>t. src_env src ''NEXUS_FEC_N'' = Some t \<longrightarrow> int_of_text t = Inr (fec_n (ac_fec c)))
    \<and> (\<forall>t. src_env src ''NEXUS_FEC_SYMBOL_BYTES'' = Some t \<longrightarrow> int_of_text t = Inr (symbol_bytes (ac_fec c)))
    \<and> (\<forall>t. src_env src ''NEXUS_SENDERS_TARGET_HOST'' = Some t \<longrightarrow> target_host (ac_senders c) = t)
    \<and> (\<forall>t. src_env src ''NEXUS_SENDERS_BASE_PORT'' = Some t \<longrightarrow> int_of_text t = Inr (base_port (ac_senders c)))
    \<and> (\<forall>t. src_env src ''NEXUS_SENDERS_BINARY_PATH'' = Some t \<longrightarrow>
          binary_path (ac_senders c) = path_str (resolve_path (src_dir src) t))
    \<and> (\<forall>t. src_env src ''NEXUS_SENDERS_SENDER_COUNT'' = Some t \<longrightarrow> int_of_text t = Inr (sender_count (ac_senders c)))"
proof -
  obtain secs where secs: "read_sections src = Inr secs" "build_config src secs = Inr c"
    using load_config_Inr[OF assms] by blast
  note fields = build_config_Inr(4-14)[OF secs(2)]
  show ?thesis
  proof (intro conjI allI impI, goal_cases)
    case (1 t)
    show ?case by (rule override_path[OF secs(1) _ 1 fields(1)]) (simp add: ENV_OVERRIDES_def)
  next
    case (2 t)
    show ?case by (rule override_path[OF secs(1) _ 2 fields(2)]) (simp add: ENV_OVERRIDES_def)
  next
    case (3 t)
    show ?case by (rule override_int_or[OF secs(1) _ 3 fields(3)]) (simp add: ENV_OVERRIDES_def)
  next
    case (4 t)
    show ?case by (rule override_int_or[OF secs(1) _ 4 fields(4)]) (simp add: ENV_OVERRIDES_def)
  next
    case (5 t)
    show ?case by (rule override_required_int[OF secs(1) _ 5 fields(5)]) (simp add: ENV_OVERRIDES_def)
  next
    case (6 t)
    show ?case by (rule override_required_int[OF secs(1) _ 6 fields(6)]) (simp add: ENV_OVERRIDES_def)
  next
    case (7 t)
    show ?case by (rule override_required_int[OF secs(1) _ 7 fields(7)]) (simp add: ENV_OVERRIDES_def)
  next
    case (8 t)
    show ?case by (rule override_str_or[OF secs(1) _ 8 fields(8)]) (simp add: ENV_OVERRIDES_def)
  next
    case (9 t)
    show ?case by (rule override_int_or[OF secs(1) _ 9 fields(9)]) (simp add: ENV_OVERRIDES_def)
  next
    case (10 t)
    obtain b where "str_or (src_text_of src) (section_of secs SENDERS_SECTION) BINARY_PATH_KEY
        DEFAULT_SENDER_BINARY_PATH = Inr b" "binary_path (ac_senders c) = path_str (resolve_path (src_dir src) b)"
      using fields(10) by blast
    with override_str_or[OF secs(1) _ 10, of "SENDERS_SECTION" "BINARY_PATH_KEY"] show ?case
      by (auto simp: ENV_OVERRIDES_def)
  next
    case (11 t)
    show ?case by (rule override_int_or[OF secs(1) _ 11 fields(11)]) (simp add: ENV_OVERRIDES_def)
  qed
qed

theorem environment_overrides_file_witness:
  "\<exists>c made. load_config example_fs example_config_source = (Inr c, made)
    \<and> int_of_text '' 1_00 '' = Inr (fec_k (ac_fec c))"
proof -
  have "src_env example_config_source ''NEXUS_FEC_K'' = Some '' 1_00 ''"
    by (simp add: example_config_source_def)
  with environment_overrides_file[OF example_load] example_load show ?thesis by blast
qed

end
