(* ===== verification/Inotify.thy ===== *)
theory Inotify imports Planner begin

unbundle bit_operations_syntax

text \<open>
  \<open>adapters/inotify_events.py\<close>: the paths the watcher is fed with. The package \<open>inotify_simple\<close> and
  the kernel are parameters: the flag values, the result of \<open>add_watch\<close> and \<open>rm_watch\<close>, and for every
  read its events, whether the adapter was closed before and after it, and what the directory holds
  when an overflow makes the adapter list it. The documented facts used of them are in
  \<open>read_regular\<close>: a file name is one path component, and \<open>iterdir\<close> lists children.
\<close>

section \<open>The adapter\<close>

record inotify_flags =
  CLOSE_WRITE :: int
  MOVED_TO :: int
  Q_OVERFLOW :: int

record inotify_event =
  ev_mask :: int
  ev_name :: string

record inotify_events =
  ie_watch_path :: path
  ie_watch_descriptor :: int
  ie_closed :: bool

definition INotifyEvents :: "inotify_flags \<Rightarrow> (string \<Rightarrow> int \<Rightarrow> int result) \<Rightarrow> path \<Rightarrow> inotify_events result" where
  "INotifyEvents F add_watch watch_path =
     bindE (add_watch (path_str watch_path) (CLOSE_WRITE F OR MOVED_TO F)) (\<lambda>descriptor.
       Inr \<lparr>ie_watch_path = watch_path, ie_watch_descriptor = descriptor, ie_closed = False\<rparr>)"

definition close_events :: "(int \<Rightarrow> unit result) \<Rightarrow> inotify_events \<Rightarrow> unit result \<times> inotify_events" where
  "close_events rm_watch s =
     (let s1 = s\<lparr>ie_closed := True\<rparr> in
      case rm_watch (ie_watch_descriptor s1) of
        Inl OSError \<Rightarrow> (Inr (), s1)
      | Inl e \<Rightarrow> (Inl e, s1)
      | Inr _ \<Rightarrow> (Inr (), s1))"

text \<open>One read: its events, each with what \<open>iterdir\<close> gives when the loop reaches it.\<close>

record inotify_read =
  rd_closed_before :: bool
  rd_events :: "(inotify_event \<times> path list result) list result"
  rd_closed_after :: bool

fun yield_events ::
  "inotify_flags \<Rightarrow> path \<Rightarrow> (inotify_event \<times> path list result) list \<Rightarrow> path list \<times> unit result" where
  "yield_events F wp [] = ([], Inr ())"
| "yield_events F wp ((event, listing) # events) =
     (if ev_mask event AND Q_OVERFLOW F \<noteq> 0
      then case listing of
          Inl e \<Rightarrow> ([], Inl e)
        | Inr items \<Rightarrow> (case yield_events F wp events of (ps, r) \<Rightarrow> (items @ ps, r))
      else if ev_mask event AND (CLOSE_WRITE F OR MOVED_TO F) \<noteq> 0
      then case yield_events F wp events of (ps, r) \<Rightarrow> (joinpath wp (Path (ev_name event)) # ps, r)
      else yield_events F wp events)"

fun listen_events :: "inotify_flags \<Rightarrow> path \<Rightarrow> inotify_read list \<Rightarrow> path list \<times> unit result" where
  "listen_events F wp [] = ([], Inr ())"
| "listen_events F wp (rd # reads) =
     (if rd_closed_before rd then ([], Inr ())
      else case rd_events rd of
          Inl e \<Rightarrow> ([], Inl e)
        | Inr events \<Rightarrow>
            if rd_closed_after rd then ([], Inr ())
            else case yield_events F wp events of
                (ps, Inl e) \<Rightarrow> (ps, Inl e)
              | (ps, Inr _) \<Rightarrow> (case listen_events F wp reads of (qs, r) \<Rightarrow> (ps @ qs, r)))"

section \<open>Children of the watched directory\<close>

definition child_of :: "path \<Rightarrow> path \<Rightarrow> bool" where
  "child_of wp p \<longleftrightarrow> (\<exists>name. part_wf name \<and> name \<noteq> ''..'' \<and> p = wp\<lparr>path_tail := path_tail wp @ [name]\<rparr>)"

definition read_regular :: "inotify_flags \<Rightarrow> path \<Rightarrow> inotify_read \<Rightarrow> bool" where
  "read_regular F wp rd \<longleftrightarrow>
     (case rd_events rd of
        Inl e \<Rightarrow> True
      | Inr events \<Rightarrow> list_all (\<lambda>(event, listing).
          (ev_mask event AND (CLOSE_WRITE F OR MOVED_TO F) \<noteq> 0 \<longrightarrow>
             part_wf (ev_name event) \<and> ev_name event \<noteq> ''..'')
          \<and> (case listing of Inl e \<Rightarrow> True | Inr items \<Rightarrow> list_all (child_of wp) items)) events)"

lemma Path_part: "part_wf name \<Longrightarrow> Path name = \<lparr>path_root = [], path_tail = [name]\<rparr>"
  using Path_path_str[of "\<lparr>path_root = [], path_tail = [name]\<rparr>"]
  by (simp add: path_wf_def path_str_def)

lemma joinpath_part:
  "part_wf name \<Longrightarrow> joinpath wp (Path name) = wp\<lparr>path_tail := path_tail wp @ [name]\<rparr>"
  by (simp add: Path_part joinpath_def is_absolute_def)

lemma child_of_relative:
  "child_of wp p \<Longrightarrow> \<exists>name. relative_to p wp = Inr \<lparr>path_root = [], path_tail = [name]\<rparr>
    \<and> part_wf name \<and> name \<noteq> ''..''"
  by (auto simp: child_of_def relative_to_def)

text \<open>What one event contributes.\<close>

definition event_paths :: "inotify_flags \<Rightarrow> path \<Rightarrow> inotify_event \<times> path list result \<Rightarrow> path list" where
  "event_paths F wp x =
     (case x of (event, listing) \<Rightarrow>
        if ev_mask event AND Q_OVERFLOW F \<noteq> 0 then (case listing of Inl e \<Rightarrow> [] | Inr items \<Rightarrow> items)
        else if ev_mask event AND (CLOSE_WRITE F OR MOVED_TO F) \<noteq> 0
        then [joinpath wp (Path (ev_name event))] else [])"

lemma yield_events_paths:
  "yield_events F wp events = (ps, r) \<Longrightarrow>
    (\<exists>rest. concat (map (event_paths F wp) events) = ps @ rest \<and> (r = Inr () \<longrightarrow> rest = []))"
  by (induction F wp events arbitrary: ps r rule: yield_events.induct)
    (fastforce simp: event_paths_def split: if_splits sum.splits prod.splits)+

lemma listen_events_paths:
  "listen_events F wp reads = (ps, r) \<Longrightarrow>
    \<exists>rest. concat (map (\<lambda>rd. case rd_events rd of Inl e \<Rightarrow> [] | Inr events \<Rightarrow>
        concat (map (event_paths F wp) events)) reads) = ps @ rest
      \<and> (r = Inr () \<longrightarrow> (\<forall>rd\<in>set reads. \<not> rd_closed_before rd \<and> \<not> rd_closed_after rd) \<longrightarrow> rest = [])"
proof (induction F wp reads arbitrary: ps r rule: listen_events.induct)
  case (2 F wp rd reads)
  show ?case
  proof (cases "rd_closed_before rd \<or> rd_closed_after rd \<or> (\<exists>e. rd_events rd = Inl e)")
    case True
    with 2(2) show ?thesis by (auto split: if_splits sum.splits)
  next
    case False
    then obtain events where ev: "rd_events rd = Inr events" by (cases "rd_events rd") auto
    obtain ps1 r1 where y: "yield_events F wp events = (ps1, r1)" by fastforce
    from yield_events_paths[OF y] obtain rest1 where
      rest1: "concat (map (event_paths F wp) events) = ps1 @ rest1" "r1 = Inr () \<longrightarrow> rest1 = []" by blast
    show ?thesis
    proof (cases r1)
      case (Inl e)
      with 2(2) False ev y rest1 show ?thesis by auto
    next
      case (Inr u)
      obtain ps2 r2 where l: "listen_events F wp reads = (ps2, r2)" by fastforce
      with Inr 2(2) False ev y have ps: "ps = ps1 @ ps2" "r = r2" by auto
      have "\<exists>rest. concat (map (\<lambda>rd. case rd_events rd of Inl e \<Rightarrow> [] | Inr events \<Rightarrow>
          concat (map (event_paths F wp) events)) reads) = ps2 @ rest
        \<and> (r2 = Inr () \<longrightarrow> (\<forall>rd\<in>set reads. \<not> rd_closed_before rd \<and> \<not> rd_closed_after rd) \<longrightarrow> rest = [])"
        using 2(1)[OF _ ev _ y[symmetric] Inr l] False by simp
      then show ?thesis unfolding ps using rest1 Inr ev by auto
    qed
  qed
qed simp

lemma event_paths_children:
  assumes "read_regular F wp rd" "rd_events rd = Inr events" "(event, listing) \<in> set events"
    and "p \<in> set (event_paths F wp (event, listing))"
  shows "child_of wp p"
proof -
  have reg: "ev_mask event AND (CLOSE_WRITE F OR MOVED_TO F) \<noteq> 0 \<Longrightarrow>
      part_wf (ev_name event) \<and> ev_name event \<noteq> ''..''"
    "\<And>items. listing = Inr items \<Longrightarrow> list_all (child_of wp) items"
    using assms(1-3) by (auto simp: read_regular_def list_all_iff)
  show ?thesis
  proof (cases "ev_mask event AND Q_OVERFLOW F = 0")
    case True
    with assms(4) reg(1) show ?thesis
      by (auto simp: event_paths_def child_of_def joinpath_part split: if_splits)
  next
    case False
    with assms(4) obtain items where "listing = Inr items" "p \<in> set items"
      by (auto simp: event_paths_def split: sum.splits)
    with reg(2) show ?thesis by (auto simp: list_all_iff)
  qed
qed

lemma children_yielded:
  assumes "listen_events F wp reads = (ps, r)" "\<forall>rd\<in>set reads. read_regular F wp rd" "p \<in> set ps"
  shows "child_of wp p"
proof -
  let ?of_read = "\<lambda>rd. case rd_events rd of Inl e \<Rightarrow> [] | Inr events \<Rightarrow> concat (map (event_paths F wp) events)"
  obtain rest where "concat (map ?of_read reads) = ps @ rest" using listen_events_paths[OF assms(1)] by blast
  with assms(3) have "p \<in> set (concat (map ?of_read reads))" by simp
  then obtain rd where rd: "rd \<in> set reads" "p \<in> set (?of_read rd)" by auto
  then obtain events where ev: "rd_events rd = Inr events" by (cases "rd_events rd") auto
  with rd(2) obtain event listing where "(event, listing) \<in> set events"
    "p \<in> set (event_paths F wp (event, listing))" by auto
  with assms(2) rd(1) ev show ?thesis by (blast intro: event_paths_children)
qed

lemma overflow_listed:
  "yield_events F wp events = (ps, Inr ()) \<Longrightarrow> (event, listing) \<in> set events \<Longrightarrow>
    ev_mask event AND Q_OVERFLOW F \<noteq> 0 \<Longrightarrow> \<exists>items. listing = Inr items"
  by (induction F wp events arbitrary: ps rule: yield_events.induct)
    (auto split: if_splits sum.splits prod.splits)

lemma listen_events_Inr:
  assumes "listen_events F wp reads = (ps, Inr ())" "rd \<in> set reads"
    and "\<forall>rd\<in>set reads. \<not> rd_closed_before rd \<and> \<not> rd_closed_after rd"
  shows "\<exists>events qs. rd_events rd = Inr events \<and> yield_events F wp events = (qs, Inr ()) \<and> set qs \<subseteq> set ps"
  using assms
proof (induction F wp reads arbitrary: ps rule: listen_events.induct)
  case (2 F wp rd' reads)
  then obtain events where ev: "rd_events rd' = Inr events" by (auto split: sum.splits)
  obtain qs u where y: "yield_events F wp events = (qs, Inr u)"
    using 2(2,4) ev by (auto split: prod.splits sum.splits)
  obtain qs' r' where l: "listen_events F wp reads = (qs', r')" by fastforce
  from 2(2,4) ev y l have ps: "ps = qs @ qs'" "r' = Inr ()" by auto
  show ?case
  proof (cases "rd = rd'")
    case True
    with ev y ps show ?thesis by auto
  next
    case False
    with 2(3) have "rd \<in> set reads" by simp
    moreover have "listen_events F wp reads = (qs', Inr ())" using l ps(2) by simp
    ultimately obtain events' qs'' where "rd_events rd = Inr events'"
      "yield_events F wp events' = (qs'', Inr ())" "set qs'' \<subseteq> set qs'"
      using 2(1)[OF _ ev _ y[symmetric] refl] 2(4) by auto
    with ps(1) show ?thesis by auto
  qed
qed simp

section \<open>Properties\<close>

text \<open>The adapter feeds the pipeline only files directly inside the watched directory, so every path it
  yields passes the path check of the planner; and while it is open and no read fails it misses no
  change: every file written or moved into the directory is yielded, or, when the kernel's queue
  overflowed, everything the directory holds is.\<close>

theorem changes_reach_the_pipeline:
  assumes "listen_events F wp reads = (ps, r)" "\<forall>rd\<in>set reads. read_regular F wp rd"
  shows "(\<forall>p\<in>set ps. \<forall>sz h. \<exists>name. relative_path \<lparr>sf_path = p, size_bytes = sz, file_hash = h\<rparr> wp
        = Inr \<lparr>path_root = [], path_tail = [name]\<rparr>)
    \<and> (r = Inr () \<longrightarrow> (\<forall>rd\<in>set reads. \<not> rd_closed_before rd \<and> \<not> rd_closed_after rd) \<longrightarrow>
        (\<forall>rd\<in>set reads. \<exists>events. rd_events rd = Inr events \<and> (\<forall>(event, listing)\<in>set events.
           if ev_mask event AND Q_OVERFLOW F \<noteq> 0
           then \<exists>items. listing = Inr items \<and> set items \<subseteq> set ps
           else ev_mask event AND (CLOSE_WRITE F OR MOVED_TO F) \<noteq> 0 \<longrightarrow>
             joinpath wp (Path (ev_name event)) \<in> set ps)))"
proof (intro conjI ballI allI impI)
  fix p sz h
  assume "p \<in> set ps"
  from child_of_relative[OF children_yielded[OF assms this]]
  show "\<exists>name. relative_path \<lparr>sf_path = p, size_bytes = sz, file_hash = h\<rparr> wp
      = Inr \<lparr>path_root = [], path_tail = [name]\<rparr>"
    by (auto simp: relative_path_Inr_iff path_parts_def)
next
  fix rd
  assume "r = Inr ()" and op: "\<forall>rd\<in>set reads. \<not> rd_closed_before rd \<and> \<not> rd_closed_after rd"
    and rd: "rd \<in> set reads"
  with assms(1) obtain events qs where ev: "rd_events rd = Inr events"
    "yield_events F wp events = (qs, Inr ())" "set qs \<subseteq> set ps"
    using listen_events_Inr[OF _ rd op] by blast
  have qs: "qs = concat (map (event_paths F wp) events)" using yield_events_paths[OF ev(2)] by simp
  have "if ev_mask event AND Q_OVERFLOW F \<noteq> 0
      then \<exists>items. listing = Inr items \<and> set items \<subseteq> set ps
      else ev_mask event AND (CLOSE_WRITE F OR MOVED_TO F) \<noteq> 0 \<longrightarrow>
        joinpath wp (Path (ev_name event)) \<in> set ps" if x: "(event, listing) \<in> set events" for event listing
  proof -
    have sub: "set (event_paths F wp (event, listing)) \<subseteq> set ps" using x qs ev(3) by auto
    show ?thesis
      using overflow_listed[OF ev(2) x] sub by (auto simp: event_paths_def)
  qed
  with ev(1) show "\<exists>events. rd_events rd = Inr events \<and> (\<forall>(event, listing)\<in>set events.
       if ev_mask event AND Q_OVERFLOW F \<noteq> 0
       then \<exists>items. listing = Inr items \<and> set items \<subseteq> set ps
       else ev_mask event AND (CLOSE_WRITE F OR MOVED_TO F) \<noteq> 0 \<longrightarrow>
         joinpath wp (Path (ev_name event)) \<in> set ps)"
    by auto
qed

text \<open>The flag values of \<open>inotify(7)\<close>, for the witness: a file written, a rename, and an overflow.\<close>

definition kernel_flags :: inotify_flags where
  "kernel_flags = \<lparr>CLOSE_WRITE = 8, MOVED_TO = 128, Q_OVERFLOW = 16384\<rparr>"

definition example_reads :: "inotify_read list" where
  "example_reads =
     [\<lparr>rd_closed_before = False, rd_events = Inr
        [(\<lparr>ev_mask = 8, ev_name = ''a''\<rparr>, Inr []), (\<lparr>ev_mask = 16384, ev_name = []\<rparr>, Inr [Path ''/w/b''])],
        rd_closed_after = False\<rparr>]"

theorem changes_reach_the_pipeline_witness:
  "listen_events kernel_flags (Path ''/w'') example_reads = ([Path ''/w/a'', Path ''/w/b''], Inr ())
    \<and> (\<exists>name. relative_path \<lparr>sf_path = Path ''/w/b'', size_bytes = 1, file_hash = []\<rparr> (Path ''/w'')
        = Inr \<lparr>path_root = [], path_tail = [name]\<rparr>)"
proof -
  have run: "listen_events kernel_flags (Path ''/w'') example_reads = ([Path ''/w/a'', Path ''/w/b''], Inr ())"
    by code_simp
  have "child_of (Path ''/w'') (Path ''/w/b'')"
    unfolding child_of_def by (rule exI[of _ "''b''"]) code_simp
  then have "\<forall>rd\<in>set example_reads. read_regular kernel_flags (Path ''/w'') rd"
    by (simp add: example_reads_def read_regular_def part_wf_def kernel_flags_def)
  from changes_reach_the_pipeline[OF run this] run show ?thesis by auto
qed

end
