(* ===== verification/Service.thy ===== *)
theory Service imports Loops Watcher Supervisor Config Inotify begin

text \<open>
  The composition root, \<open>main.py\<close>: \<open>main\<close> with its exit codes, the wiring of the components by
  \<open>run\<close>, the specifications of the child processes, and the task group \<open>run\<close> waits for. The task
  group of the standard library is modelled as far as \<open>run\<close> relies on it: a task that ends with an
  exception other than a cancellation makes the group cancel the others, and the group is left when
  every task has ended and its callback has run. A step is one callback or one stretch of a task.
  What each worker does between its start and its end is the model of its own theory; here it may
  end at any time with any result. A task that was asked to cancel is taken to end.
\<close>

section \<open>Text of a number\<close>

text \<open>\<open>str(n)\<close> of a number that is not negative.\<close>

fun str_nat :: "nat \<Rightarrow> string" where
  "str_nat n = (if n < 10 then [char_of (48 + n)] else str_nat (n div 10) @ [char_of (48 + n mod 10)])"

declare str_nat.simps [simp del]

lemma decimal_digit_char: "d < 10 \<Longrightarrow> decimal_digit (char_of (48 + d :: nat)) = Some (int d)"
  by (simp add: decimal_digit_def)

lemma parse_digits_snoc:
  "parse_digits acc ad (ds @ [c]) = (case parse_digits acc ad ds of
     None \<Rightarrow> None
   | Some m \<Rightarrow> (case decimal_digit c of Some d \<Rightarrow> Some (10 * m + d) | None \<Rightarrow> None))"
  if "ds \<noteq> []" "\<forall>x\<in>set ds. decimal_digit x \<noteq> None" "c \<noteq> CHR ''_''"
  using that
proof (induction acc ad ds rule: parse_digits.induct)
  case (2 acc ad x xs)
  then obtain d where d: "decimal_digit x = Some d" by auto
  show ?case
  proof (cases "xs = []")
    case True
    with d 2(5) show ?thesis by (auto split: option.splits)
  next
    case False
    with d 2 show ?thesis by simp
  qed
qed simp

lemma str_nat_digits: "str_nat n \<noteq> [] \<and> (\<forall>c\<in>set (str_nat n). decimal_digit c \<noteq> None)"
proof (induction n rule: str_nat.induct)
  case (1 n)
  have "n mod 10 < 10" by simp
  with 1 show ?case
    by (subst (1 2) str_nat.simps) (auto simp: decimal_digit_char)
qed

lemma underscore_no_digit: "decimal_digit CHR ''_'' = None"
  by (simp add: decimal_digit_def)

lemma char_not_underscore: "d < 10 \<Longrightarrow> char_of (48 + d :: nat) \<noteq> CHR ''_''"
  using decimal_digit_char[of d] by (metis decimal_digit_def option.distinct(1) underscore_no_digit)

lemma parse_str_nat: "parse_digits 0 False (str_nat n) = Some (int n)"
proof (induction n rule: str_nat.induct)
  case (1 n)
  show ?case
  proof (cases "n < 10")
    case True
    then show ?thesis by (simp add: str_nat.simps decimal_digit_char)
  next
    case False
    have "n mod 10 < 10" by simp
    with False 1 show ?thesis
      by (subst str_nat.simps)
        (simp add: parse_digits_snoc str_nat_digits char_not_underscore decimal_digit_char zmod_int zdiv_int)
  qed
qed

lemma digit_plain: "decimal_digit c \<noteq> None \<Longrightarrow> \<not> is_blank c \<and> c \<noteq> CHR ''-'' \<and> c \<noteq> CHR ''+''"
  by (auto simp: decimal_digit_def is_blank_def Let_def split: if_splits)

lemma int_of_str_nat: "int_of_text (str_nat n) = Inr (int n)"
proof -
  let ?s = "str_nat n"
  have d: "\<forall>c\<in>set ?s. \<not> is_blank c \<and> c \<noteq> CHR ''-'' \<and> c \<noteq> CHR ''+''" and ne: "?s \<noteq> []"
    using str_nat_digits digit_plain by blast+
  have "dropWhile is_blank ?s = ?s" "dropWhile is_blank (rev ?s) = rev ?s"
    using d by (metis dropWhile_eq_self_iff hd_in_set) (metis d dropWhile_eq_self_iff hd_in_set set_rev)
  then have "strip ?s = ?s" by (simp add: strip_def)
  moreover have "take 1 ?s \<noteq> ''-''" "take 1 ?s \<noteq> ''+''"
    using d ne by (cases ?s; auto)+
  ultimately show ?thesis by (simp add: int_of_text_def Let_def parse_str_nat)
qed

lemma str_nat_inj: "str_nat m = str_nat n \<longleftrightarrow> m = n"
  using int_of_str_nat by (metis of_nat_eq_iff sum.inject(2))

section \<open>The child processes\<close>

definition sender_spec :: "app_config \<Rightarrow> nat \<Rightarrow> child_spec" where
  "sender_spec C i =
     \<lparr>cs_name = ''sender-'' @ str_nat i,
      cs_argv = [binary_path (ac_senders C), ''--sender-id'', str_nat i], cs_env = None\<rparr>"

definition build_sender_specs :: "app_config \<Rightarrow> child_spec list" where
  "build_sender_specs C = map (sender_spec C) [0..<nat (sender_count (ac_senders C))]"

lemma sender_names_distinct: "distinct (map cs_name (build_sender_specs C))"
  by (auto simp: build_sender_specs_def sender_spec_def distinct_map str_nat_inj intro!: inj_onI)

section \<open>The wiring\<close>

definition NEXUS_CONFIG_ENV_VAR :: string where "NEXUS_CONFIG_ENV_VAR = ''NEXUS_CONFIG''"
definition DEFAULT_CONFIG_PATH :: string where "DEFAULT_CONFIG_PATH = ''config.toml''"
definition PROTO_CONTRACT_DIR_ENV_VAR :: string where
  "PROTO_CONTRACT_DIR_ENV_VAR = ''NEXUS_PROTO_CONTRACT_DIR''"
definition DEFAULT_PROTO_CONTRACT_DIR :: string where
  "DEFAULT_PROTO_CONTRACT_DIR = ''libs/nexus-proto/proto''"

definition environ_get :: "(string \<Rightarrow> string option) \<Rightarrow> string \<Rightarrow> string \<Rightarrow> string" where
  "environ_get env key dflt = (case env key of Some v \<Rightarrow> v | None \<Rightarrow> dflt)"

text \<open>What \<open>run\<close> reads of its surroundings; a path that is not a directory has no listing.\<close>

record 'h surroundings =
  su_env :: "string \<Rightarrow> string option"
  su_directory :: "path \<Rightarrow> dir_listing option"
  su_hasher :: "'h hasher"
  su_flags :: inotify_flags
  su_add_watch :: "string \<Rightarrow> int \<Rightarrow> int result"
  su_clock :: pyfloat

record parts =
  p_file_events :: inotify_events
  p_world :: "uds world"
  p_watcher :: watcher
  p_dispatcher :: dispatch_config
  p_supervisor :: supervisor

datatype run_started = ExitWith int | Started parts

definition default_supervisor_config :: "child_spec list \<Rightarrow> supervisor_config" where
  "default_supervisor_config specs =
     \<lparr>sc_specs = specs, backoff_schedule = DEFAULT_BACKOFF_SCHEDULE_SECONDS,
      crash_loop_max_restarts = CRASH_LOOP_MAX_RESTARTS,
      crash_loop_window_seconds = CRASH_LOOP_WINDOW_SECONDS,
      shutdown_timeout_seconds = SHUTDOWN_TIMEOUT_SECONDS\<rparr>"

definition run_setup :: "'h surroundings \<Rightarrow> app_config \<Rightarrow> run_started result" where
  "run_setup S C =
     (case su_directory S (Path (environ_get (su_env S) PROTO_CONTRACT_DIR_ENV_VAR DEFAULT_PROTO_CONTRACT_DIR)) of
        None \<Rightarrow> Inr (ExitWith 1)
      | Some entries \<Rightarrow>
          bindE (compute_proto_hash (su_hasher S) entries) (\<lambda>expected_proto_hash.
          bindE (INotifyEvents (su_flags S) (su_add_watch S) (watch_path (ac_paths C))) (\<lambda>file_events.
            Inr (Started
              \<lparr>p_file_events = file_events,
               p_world = \<lparr>w_registry = SenderRegistry HEARTBEAT_INTERVAL_SECONDS,
                 w_ipc = UdsIpcServer expected_proto_hash, dispatched_sessions = [], w_trace = []\<rparr>,
               p_watcher = DirectoryWatcher DEBOUNCE_SECONDS (su_clock S),
               p_dispatcher = \<lparr>dc_fec_params = ac_fec C, dc_watch_root = watch_path (ac_paths C),
                 dc_target_host = target_host (ac_senders C), dc_base_port = base_port (ac_senders C)\<rparr>,
               p_supervisor = ProcessSupervisor
                 (default_supervisor_config (build_sender_specs C)) (su_clock S)\<rparr>))))"

lemma run_setup_Started:
  assumes "run_setup S C = Inr (Started p)"
  obtains entries expected where
    "su_directory S (Path (environ_get (su_env S) PROTO_CONTRACT_DIR_ENV_VAR DEFAULT_PROTO_CONTRACT_DIR))
      = Some entries"
    "compute_proto_hash (su_hasher S) entries = Inr expected"
    "ie_watch_path (p_file_events p) = watch_path (ac_paths C)"
    "p_world p = \<lparr>w_registry = SenderRegistry HEARTBEAT_INTERVAL_SECONDS,
       w_ipc = UdsIpcServer expected, dispatched_sessions = [], w_trace = []\<rparr>"
    "p_watcher p = DirectoryWatcher DEBOUNCE_SECONDS (su_clock S)"
    "p_dispatcher p = \<lparr>dc_fec_params = ac_fec C, dc_watch_root = watch_path (ac_paths C),
       dc_target_host = target_host (ac_senders C), dc_base_port = base_port (ac_senders C)\<rparr>"
    "p_supervisor p = ProcessSupervisor (default_supervisor_config (build_sender_specs C)) (su_clock S)"
  using assms by (auto simp: run_setup_def INotifyEvents_def res_simps split: option.splits)

section \<open>The task group\<close>

datatype service_task = ServeTask | SupervisorTask | IncomingTask | DetectionTask | CancelTask

instantiation service_task :: enum
begin

definition enum_service_task :: "service_task list" where
  "enum_service_task = [ServeTask, SupervisorTask, IncomingTask, DetectionTask, CancelTask]"

definition enum_all_service_task :: "(service_task \<Rightarrow> bool) \<Rightarrow> bool" where
  "enum_all_service_task Q \<longleftrightarrow> list_all Q enum_class.enum"

definition enum_ex_service_task :: "(service_task \<Rightarrow> bool) \<Rightarrow> bool" where
  "enum_ex_service_task Q \<longleftrightarrow> list_ex Q enum_class.enum"

instance
proof
  have all: "set (enum_class.enum :: service_task list) = UNIV"
    unfolding enum_service_task_def using service_task.exhaust by auto
  then show "(UNIV :: service_task set) = set enum_class.enum" by simp
  show "distinct (enum_class.enum :: service_task list)" by (simp add: enum_service_task_def)
  show "enum_class.enum_all Q \<longleftrightarrow> Ball UNIV Q" "enum_class.enum_ex Q \<longleftrightarrow> Bex UNIV Q"
    for Q :: "service_task \<Rightarrow> bool"
    using all by (simp_all add: enum_all_service_task_def enum_ex_service_task_def list_all_iff list_ex_iff)
qed

end

datatype task_status =
    TaskRunning
  | TaskCancelRequested
  | TaskEnded "unit result"
  | TaskReaped "unit result"

fun is_reaped :: "task_status \<Rightarrow> bool" where
  "is_reaped (TaskReaped r) = True"
| "is_reaped _ = False"

datatype run_phase = InTaskGroup | StoppingChildren int | RunDone "int result"

record run_state =
  rs_task :: "service_task \<Rightarrow> task_status"
  shutdown_event :: bool
  group_errors :: "exn list"
  group_aborting :: bool
  rs_phase :: run_phase

definition worker_tasks :: "service_task list" where
  "worker_tasks = [ServeTask, SupervisorTask, IncomingTask, DetectionTask]"

definition all_tasks :: "service_task list" where
  "all_tasks = enum_class.enum"

definition run_start :: run_state where
  "run_start = \<lparr>rs_task = (\<lambda>_. TaskRunning), shutdown_event = False, group_errors = [],
     group_aborting = False, rs_phase = InTaskGroup\<rparr>"

definition set_status :: "service_task \<Rightarrow> task_status \<Rightarrow> run_state \<Rightarrow> run_state" where
  "set_status t x s = s\<lparr>rs_task := (rs_task s)(t := x)\<rparr>"

text \<open>\<open>task.cancel()\<close>: nothing happens to a task that has ended or was asked before.\<close>

definition request_cancel :: "service_task \<Rightarrow> run_state \<Rightarrow> run_state" where
  "request_cancel t s = (if rs_task s t = TaskRunning then set_status t TaskCancelRequested s else s)"

definition trigger_shutdown :: "run_state \<Rightarrow> run_state" where
  "trigger_shutdown s = s\<lparr>shutdown_event := True\<rparr>"

text \<open>\<open>_cancel_workers_on_shutdown\<close> once the event is set.\<close>

definition cancel_workers :: "run_state \<Rightarrow> run_state" where
  "cancel_workers s = set_status CancelTask (TaskEnded (Inr ())) (fold request_cancel worker_tasks s)"

text \<open>The group's callback for a task that has ended.\<close>

definition reap :: "service_task \<Rightarrow> unit result \<Rightarrow> run_state \<Rightarrow> run_state" where
  "reap t r s =
     (let s1 = set_status t (TaskReaped r) s in
      case r of
        Inr _ \<Rightarrow> s1
      | Inl CancelledError \<Rightarrow> s1
      | Inl e \<Rightarrow>
          let s2 = s1\<lparr>group_errors := group_errors s1 @ [e]\<rparr> in
          if group_aborting s2 then s2
          else fold request_cancel all_tasks (s2\<lparr>group_aborting := True\<rparr>))"

definition exit_code :: "exn list \<Rightarrow> int" where
  "exit_code errors = (if errors = [] then 0 else 1)"

text \<open>After the group: \<open>supervisor.shutdown\<close>, then the socket file is unlinked.\<close>

definition finish_run :: "unit result \<Rightarrow> unit result \<Rightarrow> int \<Rightarrow> int result" where
  "finish_run shutdown_result unlink_result code =
     bindE shutdown_result (\<lambda>_. bindE unlink_result (\<lambda>_. Inr code))"

datatype run_label =
    SignalReceived
  | CancellerWakes
  | TaskEnds service_task "unit result"
  | TaskCallback service_task
  | GroupLeft
  | ChildrenStopped "unit result" "unit result"

inductive run_step :: "run_state \<Rightarrow> run_label \<Rightarrow> run_state \<Rightarrow> bool" where
  signal_received: "run_step s SignalReceived (trigger_shutdown s)"
| canceller_wakes: "rs_task s CancelTask = TaskRunning \<Longrightarrow> shutdown_event s \<Longrightarrow>
    run_step s CancellerWakes (cancel_workers s)"
| worker_ends: "t \<in> set worker_tasks \<Longrightarrow> rs_task s t = TaskRunning \<or> rs_task s t = TaskCancelRequested \<Longrightarrow>
    run_step s (TaskEnds t r) (set_status t (TaskEnded r) s)"
| canceller_cancelled: "rs_task s CancelTask = TaskCancelRequested \<Longrightarrow>
    run_step s (TaskEnds CancelTask (Inl CancelledError))
      (set_status CancelTask (TaskEnded (Inl CancelledError)) s)"
| callback: "rs_task s t = TaskEnded r \<Longrightarrow> run_step s (TaskCallback t) (reap t r s)"
| group_left: "rs_phase s = InTaskGroup \<Longrightarrow> (\<forall>t. is_reaped (rs_task s t)) \<Longrightarrow>
    run_step s GroupLeft (s\<lparr>rs_phase := StoppingChildren (exit_code (group_errors s))\<rparr>)"
| children_stopped: "rs_phase s = StoppingChildren code \<Longrightarrow>
    run_step s (ChildrenStopped r u) (s\<lparr>rs_phase := RunDone (finish_run r u code)\<rparr>)"

section \<open>The exit code of the program\<close>

fun caught_by_main :: "exn \<Rightarrow> bool" where
  "caught_by_main (ValueError v) = True"
| "caught_by_main OSError = True"
| "caught_by_main ProcessLookupError = True"
| "caught_by_main e = False"

definition main_result ::
  "file_system \<Rightarrow> config_source \<Rightarrow> (app_config \<Rightarrow> int result) \<Rightarrow> int result" where
  "main_result fs src run =
     (case fst (load_config fs src) of
        Inl e \<Rightarrow> if caught_by_main e then Inr CONFIG_ERROR_EXIT_CODE else Inl e
      | Inr config \<Rightarrow> run config)"

text \<open>
  \<open>main\<close> takes the path of the configuration from the environment. What the file at a path holds, and
  the directory its relative paths start from, come from the file system (\<open>read_source\<close>); the
  overrides come from the same environment.
\<close>

definition main_source :: "(path \<Rightarrow> config_source) \<Rightarrow> (string \<Rightarrow> string option) \<Rightarrow> config_source" where
  "main_source read_source env =
     (read_source (Path (environ_get env NEXUS_CONFIG_ENV_VAR DEFAULT_CONFIG_PATH)))\<lparr>src_env := env\<rparr>"

definition main_program ::
  "file_system \<Rightarrow> (path \<Rightarrow> config_source) \<Rightarrow> (string \<Rightarrow> string option)
    \<Rightarrow> (app_config \<Rightarrow> int result) \<Rightarrow> int result" where
  "main_program fs read_source env run = main_result fs (main_source read_source env) run"

section \<open>The task group: invariant\<close>

lemma in_all_tasks: "t \<in> set all_tasks"
  by (simp add: all_tasks_def enum_UNIV)

lemma in_worker_tasks: "t \<in> set worker_tasks \<longleftrightarrow> t \<noteq> CancelTask"
  by (cases t) (simp_all add: worker_tasks_def)

lemma is_reaped_iff: "is_reaped x \<longleftrightarrow> (\<exists>r. x = TaskReaped r)"
  by (cases x) auto

lemma set_status_simps [simp]:
  "rs_task (set_status t x s) = (rs_task s)(t := x)" "shutdown_event (set_status t x s) = shutdown_event s"
  "group_errors (set_status t x s) = group_errors s" "group_aborting (set_status t x s) = group_aborting s"
  "rs_phase (set_status t x s) = rs_phase s"
  by (simp_all add: set_status_def)

lemma request_cancel_fields [simp]:
  "shutdown_event (request_cancel t s) = shutdown_event s" "group_errors (request_cancel t s) = group_errors s"
  "group_aborting (request_cancel t s) = group_aborting s" "rs_phase (request_cancel t s) = rs_phase s"
  by (simp_all add: request_cancel_def)

lemma fold_request_fields [simp]:
  "shutdown_event (fold request_cancel ts s) = shutdown_event s"
  "group_errors (fold request_cancel ts s) = group_errors s"
  "group_aborting (fold request_cancel ts s) = group_aborting s"
  "rs_phase (fold request_cancel ts s) = rs_phase s"
  by (induction ts arbitrary: s) simp_all

lemma fold_request_task:
  "rs_task (fold request_cancel ts s) t =
    (if t \<in> set ts \<and> rs_task s t = TaskRunning then TaskCancelRequested else rs_task s t)"
  by (induction ts arbitrary: s) (auto simp: request_cancel_def)

text \<open>What the callback does, by the result of the task.\<close>

definition is_failure :: "unit result \<Rightarrow> bool" where
  "is_failure r \<longleftrightarrow> (\<exists>e. r = Inl e \<and> e \<noteq> CancelledError)"

lemma reap_quiet: "\<not> is_failure r \<Longrightarrow> reap t r s = set_status t (TaskReaped r) s"
  by (auto simp: reap_def is_failure_def Let_def split: sum.splits exn.splits)

lemma reap_failure:
  "e \<noteq> CancelledError \<Longrightarrow> reap t (Inl e) s =
    (let s2 = set_status t (TaskReaped (Inl e)) s\<lparr>group_errors := group_errors s @ [e]\<rparr> in
     if group_aborting s then s2 else fold request_cancel all_tasks (s2\<lparr>group_aborting := True\<rparr>))"
  by (cases e) (simp_all add: reap_def Let_def set_status_def)

definition canceller_ok :: "run_state \<Rightarrow> bool" where
  "canceller_ok s \<longleftrightarrow> (case rs_task s CancelTask of
       TaskRunning \<Rightarrow> True
     | TaskCancelRequested \<Rightarrow> group_aborting s
     | TaskEnded r \<Rightarrow> r = Inl CancelledError \<and> group_aborting s
         \<or> r = Inr () \<and> shutdown_event s \<and> (\<forall>t. rs_task s t \<noteq> TaskRunning)
     | TaskReaped r \<Rightarrow> r = Inl CancelledError \<and> group_aborting s
         \<or> r = Inr () \<and> shutdown_event s \<and> (\<forall>t. rs_task s t \<noteq> TaskRunning))"

text \<open>Some task's callback has run, for this result.\<close>

definition reaped_with :: "run_state \<Rightarrow> unit result \<Rightarrow> bool" where
  "reaped_with s r \<longleftrightarrow> (\<exists>t. rs_task s t = TaskReaped r)"

definition run_inv :: "run_state \<Rightarrow> bool" where
  "run_inv s \<longleftrightarrow>
     (\<forall>e. e \<in> set (group_errors s) \<longleftrightarrow> e \<noteq> CancelledError \<and> reaped_with s (Inl e))
     \<and> (group_aborting s \<longleftrightarrow> group_errors s \<noteq> [])
     \<and> (group_aborting s \<longrightarrow> (\<forall>t. rs_task s t \<noteq> TaskRunning))
     \<and> (\<forall>t. rs_task s t = TaskCancelRequested \<longrightarrow> group_aborting s \<or> shutdown_event s)
     \<and> canceller_ok s
     \<and> (rs_phase s \<noteq> InTaskGroup \<longrightarrow> (\<forall>t. is_reaped (rs_task s t)))
     \<and> (\<forall>c. rs_phase s = StoppingChildren c \<or> rs_phase s = RunDone (Inr c) \<longrightarrow> c = exit_code (group_errors s))"

lemma run_inv_start: "run_inv run_start"
  by (simp add: run_inv_def run_start_def canceller_ok_def reaped_with_def)

lemma inv_phase_InTaskGroup: "run_inv s \<Longrightarrow> \<not> is_reaped (rs_task s t) \<Longrightarrow> rs_phase s = InTaskGroup"
  by (auto simp: run_inv_def)

lemma cancel_workers_fields:
  "shutdown_event (cancel_workers s) = shutdown_event s" "group_errors (cancel_workers s) = group_errors s"
  "group_aborting (cancel_workers s) = group_aborting s" "rs_phase (cancel_workers s) = rs_phase s"
  by (simp_all add: cancel_workers_def)

lemma inv_cancel_workers:
  assumes "run_inv s" "rs_task s CancelTask = TaskRunning" "shutdown_event s"
  shows "run_inv (cancel_workers s)"
proof -
  have ph: "rs_phase s = InTaskGroup" using assms(1,2) by (intro inv_phase_InTaskGroup[of s CancelTask]) auto
  have na: "\<not> group_aborting s" using assms(1,2) by (auto simp: run_inv_def)
  have task: "rs_task (cancel_workers s) t = (if t = CancelTask then TaskEnded (Inr ())
      else if rs_task s t = TaskRunning then TaskCancelRequested else rs_task s t)" for t
    by (simp add: cancel_workers_def fold_request_task in_worker_tasks)
  have "rs_task (cancel_workers s) t = TaskReaped r \<longleftrightarrow> rs_task s t = TaskReaped r" for t r
    using assms(2) by (simp add: task)
  then have "reaped_with (cancel_workers s) = reaped_with s" by (simp add: reaped_with_def fun_eq_iff)
  moreover have "\<forall>t. rs_task (cancel_workers s) t \<noteq> TaskRunning" by (simp add: task)
  moreover note fields = cancel_workers_fields[of s]
  ultimately show ?thesis
    using assms(1,3) ph na fields by (auto simp: run_inv_def canceller_ok_def task)
qed

text \<open>A change of one task that ran or ended, to a status that is neither running nor reaped.\<close>

lemma inv_set_status:
  assumes "run_inv s" "\<not> is_reaped (rs_task s t)" "x \<noteq> TaskRunning" "x \<noteq> TaskCancelRequested" "\<not> is_reaped x"
    and "t = CancelTask \<Longrightarrow> x = TaskEnded (Inl CancelledError) \<and> rs_task s t = TaskCancelRequested"
  shows "run_inv (set_status t x s)"
proof -
  have ph: "rs_phase s = InTaskGroup" using assms(1,2) by (rule inv_phase_InTaskGroup)
  have "rs_task (set_status t x s) t' = TaskReaped r \<longleftrightarrow> rs_task s t' = TaskReaped r" for t' r
    using assms(2,5) by (auto simp: is_reaped_iff)
  then have "reaped_with (set_status t x s) = reaped_with s" by (simp add: reaped_with_def fun_eq_iff)
  moreover have "canceller_ok (set_status t x s)"
  proof (cases "t = CancelTask")
    case True
    with assms(1,6) show ?thesis by (auto simp: canceller_ok_def run_inv_def)
  next
    case False
    with assms(1,3) show ?thesis
      by (auto simp: canceller_ok_def run_inv_def split: task_status.splits)
  qed
  moreover have "\<forall>t'. rs_task s t' \<noteq> TaskRunning \<Longrightarrow> \<forall>t'. rs_task (set_status t x s) t' \<noteq> TaskRunning"
    using assms(3) by simp
  ultimately show ?thesis
    using assms(1,3,4) ph unfolding run_inv_def by (simp del: set_status_simps(1)) (auto split: if_splits)
qed

lemma inv_reap:
  assumes "run_inv s" "rs_task s t = TaskEnded r"
  shows "run_inv (reap t r s)"
proof -
  have ph: "rs_phase s = InTaskGroup" using assms by (intro inv_phase_InTaskGroup[of s t]) auto
  have inv: "\<And>e. e \<in> set (group_errors s) \<longleftrightarrow> e \<noteq> CancelledError \<and> reaped_with s (Inl e)"
    "group_aborting s \<longleftrightarrow> group_errors s \<noteq> []" "group_aborting s \<Longrightarrow> rs_task s t' \<noteq> TaskRunning"
    "rs_task s t' = TaskCancelRequested \<Longrightarrow> group_aborting s \<or> shutdown_event s" "canceller_ok s" for t'
    using assms(1) by (auto simp: run_inv_def)
  have reaped: "reaped_with (set_status t (TaskReaped r) s) q \<longleftrightarrow> q = r \<or> reaped_with s q" for q
    using assms(2) unfolding reaped_with_def set_status_simps
    by (metis fun_upd_apply task_status.distinct(11) task_status.inject(2))
  show ?thesis
  proof (cases "is_failure r")
    case False
    have "canceller_ok (set_status t (TaskReaped r) s)"
      using inv(5) assms(2) by (cases "t = CancelTask") (auto simp: canceller_ok_def split: task_status.splits)
    then show ?thesis
      using inv False ph unfolding reap_quiet[OF False] run_inv_def
      by (auto simp: reaped is_failure_def)
  next
    case True
    then obtain e where e: "r = Inl e" "e \<noteq> CancelledError" by (auto simp: is_failure_def)
    have nt: "t \<noteq> CancelTask" using inv(5) assms(2) e by (auto simp: canceller_ok_def)
    let ?s2 = "set_status t (TaskReaped (Inl e)) s\<lparr>group_errors := group_errors s @ [e]\<rparr>"
    have eq: "reap t r s = (if group_aborting s then ?s2
        else fold request_cancel all_tasks (?s2\<lparr>group_aborting := True\<rparr>))"
      using e by (simp add: reap_failure Let_def)
    have task: "rs_task (reap t r s) u = (if u = t then TaskReaped (Inl e)
        else if rs_task s u = TaskRunning then TaskCancelRequested else rs_task s u)" for u
      using inv(3) by (simp add: eq fold_request_task in_all_tasks)
    have "rs_task (reap t r s) u = TaskReaped q
        \<longleftrightarrow> rs_task (set_status t (TaskReaped r) s) u = TaskReaped q" for u q
      unfolding task by (simp add: e(1))
    then have "reaped_with (reap t r s) q \<longleftrightarrow> q = r \<or> reaped_with s q" for q
      using reaped by (simp add: reaped_with_def)
    moreover have "group_errors (reap t r s) = group_errors s @ [e]" "group_aborting (reap t r s)"
      "rs_phase (reap t r s) = InTaskGroup" "shutdown_event (reap t r s) = shutdown_event s"
      using ph by (auto simp: eq)
    moreover have "canceller_ok (reap t r s)"
      using inv(5) nt calculation(3,5)
      by (auto simp: canceller_ok_def task split: task_status.splits)
    moreover have "\<forall>u. rs_task (reap t r s) u \<noteq> TaskRunning" by (simp add: task)
    ultimately show ?thesis using inv(1) e by (auto simp: run_inv_def)
  qed
qed

lemma run_inv_step: "run_step s l u \<Longrightarrow> run_inv s \<Longrightarrow> run_inv u"
proof (induction rule: run_step.induct)
  case (signal_received s)
  then show ?case by (auto simp: run_inv_def reaped_with_def trigger_shutdown_def canceller_ok_def split: task_status.splits)
next
  case (canceller_wakes s)
  then show ?case by (intro inv_cancel_workers)
next
  case (worker_ends t s r)
  then show ?case by (intro inv_set_status) (auto simp: in_worker_tasks)
next
  case (canceller_cancelled s)
  then show ?case by (intro inv_set_status) auto
next
  case (callback s t r)
  then show ?case by (intro inv_reap)
next
  case (group_left s)
  then show ?case
    by (auto simp: run_inv_def reaped_with_def canceller_ok_def split: task_status.splits)
next
  case (children_stopped s code r u)
  then show ?case
    by (auto simp: run_inv_def reaped_with_def canceller_ok_def finish_run_def res_simps split: task_status.splits)
qed

abbreviation run_reachable :: "run_state \<Rightarrow> bool" where
  "run_reachable \<equiv> reachable (\<lambda>s. s = run_start) (\<lambda>s u. \<exists>l. run_step s l u)"

interpretation task_group: invariant_system "\<lambda>s. s = run_start" "\<lambda>s u. \<exists>l. run_step s l u" run_inv
  by unfold_locales (auto intro: run_inv_start run_inv_step)

section \<open>The task group: termination\<close>

fun status_weight :: "task_status \<Rightarrow> nat" where
  "status_weight TaskRunning = 3"
| "status_weight TaskCancelRequested = 2"
| "status_weight (TaskEnded r) = 1"
| "status_weight (TaskReaped r) = 0"

fun phase_weight :: "run_phase \<Rightarrow> nat" where
  "phase_weight InTaskGroup = 2"
| "phase_weight (StoppingChildren c) = 1"
| "phase_weight (RunDone r) = 0"

definition run_measure :: "run_state \<Rightarrow> nat" where
  "run_measure s = (\<Sum>t\<leftarrow>all_tasks. status_weight (rs_task s t)) + phase_weight (rs_phase s)"

lemma run_measure_le: "run_measure s \<le> 17"
proof -
  have "status_weight x \<le> 3" for x by (cases x) simp_all
  moreover have "phase_weight x \<le> 2" for x by (cases x) simp_all
  ultimately have "(\<Sum>t\<leftarrow>all_tasks. status_weight (rs_task s t)) \<le> (\<Sum>t\<leftarrow>all_tasks. 3)"
    "phase_weight (rs_phase s) \<le> 2" by (auto intro: sum_list_mono)
  then show ?thesis by (simp add: run_measure_def all_tasks_def enum_service_task_def)
qed

lemma measure_set_status:
  "status_weight x < status_weight (rs_task s t) \<Longrightarrow> run_measure (set_status t x s) < run_measure s"
  by (cases t) (simp_all add: run_measure_def all_tasks_def enum_service_task_def)

lemma measure_request_cancel: "run_measure (fold request_cancel ts s) \<le> run_measure s"
proof -
  have "status_weight (rs_task (fold request_cancel ts s) t) \<le> status_weight (rs_task s t)" for t
    by (simp add: fold_request_task)
  then have "(\<Sum>t\<leftarrow>all_tasks. status_weight (rs_task (fold request_cancel ts s) t))
      \<le> (\<Sum>t\<leftarrow>all_tasks. status_weight (rs_task s t))" by (intro sum_list_mono)
  then show ?thesis by (simp add: run_measure_def)
qed

lemma measure_fields [simp]:
  "run_measure (s\<lparr>group_errors := es\<rparr>) = run_measure s" "run_measure (s\<lparr>group_aborting := b\<rparr>) = run_measure s"
  by (simp_all add: run_measure_def)

lemma measure_reap: "run_measure (reap t r s) \<le> run_measure (set_status t (TaskReaped r) s)"
proof (cases "is_failure r")
  case True
  then obtain e where "r = Inl e" "e \<noteq> CancelledError" by (auto simp: is_failure_def)
  then show ?thesis
    using measure_request_cancel[of all_tasks "set_status t (TaskReaped (Inl e)) s
      \<lparr>group_errors := group_errors s @ [e], group_aborting := True\<rparr>"]
    by (simp add: reap_failure Let_def)
qed (simp add: reap_quiet)

lemma measure_step: "run_step s l u \<Longrightarrow> l \<noteq> SignalReceived \<Longrightarrow> run_measure u < run_measure s"
proof (induction rule: run_step.induct)
  case (canceller_wakes s)
  have "run_measure (cancel_workers s) < run_measure (fold request_cancel worker_tasks s)"
    unfolding cancel_workers_def
    using canceller_wakes(1) by (intro measure_set_status) (simp add: fold_request_task in_worker_tasks)
  with measure_request_cancel[of worker_tasks s] show ?case by linarith
next
  case (worker_ends t s r)
  then show ?case by (intro measure_set_status) auto
next
  case (canceller_cancelled s)
  then show ?case by (intro measure_set_status) auto
next
  case (callback s t r)
  have "run_measure (set_status t (TaskReaped r) s) < run_measure s"
    using callback(1) by (intro measure_set_status) simp
  with measure_reap[of t r s] show ?case by linarith
qed (simp_all add: run_measure_def)

lemma measure_execution:
  "execution run_step s ls u \<Longrightarrow> SignalReceived \<notin> set ls \<Longrightarrow> run_measure u + length ls \<le> run_measure s"
  by (induction rule: execution.induct) (auto dest: measure_step)

text \<open>Once a shutdown began it stays.\<close>

definition stopping_run :: "run_state \<Rightarrow> bool" where
  "stopping_run s \<longleftrightarrow> shutdown_event s \<or> group_aborting s"

lemma reap_keeps_stopping: "stopping_run s \<Longrightarrow> stopping_run (reap t r s)"
  by (cases "is_failure r")
    (auto simp: stopping_run_def reap_quiet is_failure_def reap_failure Let_def)

lemma stopping_step: "run_step s l u \<Longrightarrow> stopping_run s \<Longrightarrow> stopping_run u"
  by (induction rule: run_step.induct)
    (auto simp: reap_keeps_stopping, auto simp: stopping_run_def trigger_shutdown_def cancel_workers_fields)

lemma stopping_execution: "execution run_step s ls u \<Longrightarrow> stopping_run s \<Longrightarrow> stopping_run u"
  by (induction rule: execution.induct) (auto intro: stopping_step)

text \<open>A step that does not depend on a task ending on its own or on a signal.\<close>

definition forced :: "run_state \<Rightarrow> run_label \<Rightarrow> bool" where
  "forced s l \<longleftrightarrow> l \<noteq> SignalReceived \<and> (\<forall>t r. l = TaskEnds t r \<longrightarrow> rs_task s t = TaskCancelRequested)"

lemma task_can_step:
  assumes "rs_task s t \<noteq> TaskRunning" "\<not> is_reaped (rs_task s t)"
  shows "\<exists>l u. forced s l \<and> run_step s l u"
proof (cases "rs_task s t")
  case TaskCancelRequested
  show ?thesis
  proof (cases "t = CancelTask")
    case True
    with TaskCancelRequested run_step.canceller_cancelled[of s] show ?thesis
      by (intro exI[of _ "TaskEnds CancelTask (Inl CancelledError)"]) (auto simp: forced_def)
  next
    case False
    with TaskCancelRequested run_step.worker_ends[of t s "Inl CancelledError"] show ?thesis
      by (intro exI[of _ "TaskEnds t (Inl CancelledError)"]) (auto simp: forced_def in_worker_tasks)
  qed
next
  case (TaskEnded r)
  with run_step.callback[of s t r] show ?thesis
    by (intro exI[of _ "TaskCallback t"]) (auto simp: forced_def)
qed (use assms in simp_all)

lemma stopping_progress:
  assumes "run_inv s" "stopping_run s"
  shows "(\<exists>res. rs_phase s = RunDone res) \<or> (\<exists>l u. forced s l \<and> run_step s l u)"
proof (cases "\<forall>t. is_reaped (rs_task s t)")
  case True
  show ?thesis
  proof (cases "rs_phase s")
    case InTaskGroup
    with True run_step.group_left[of s] have "run_step s GroupLeft
        (s\<lparr>rs_phase := StoppingChildren (exit_code (group_errors s))\<rparr>)" by simp
    then show ?thesis unfolding forced_def by blast
  next
    case (StoppingChildren c)
    from run_step.children_stopped[OF this, of "Inr ()" "Inr ()"] show ?thesis unfolding forced_def by blast
  qed simp
next
  case False
  show ?thesis
  proof (cases "rs_task s CancelTask = TaskRunning")
    case True
    with assms have "shutdown_event s" by (auto simp: run_inv_def stopping_run_def)
    from run_step.canceller_wakes[OF True this] show ?thesis unfolding forced_def by blast
  next
    case running: False
    obtain t where t: "\<not> is_reaped (rs_task s t)" using False by blast
    show ?thesis
    proof (cases "is_reaped (rs_task s CancelTask)")
      case True
      then have "rs_task s t \<noteq> TaskRunning"
        using assms(1) by (auto simp: run_inv_def canceller_ok_def is_reaped_iff)
      from task_can_step[OF this t] show ?thesis ..
    next
      case False
      from task_can_step[OF running False] show ?thesis ..
    qed
  qed
qed

text \<open>The steps as a function of the label, for concrete runs.\<close>

definition attempt :: "run_state \<Rightarrow> run_label \<Rightarrow> run_state option" where
  "attempt s l = (case l of
       SignalReceived \<Rightarrow> Some (trigger_shutdown s)
     | CancellerWakes \<Rightarrow> if rs_task s CancelTask = TaskRunning \<and> shutdown_event s then Some (cancel_workers s) else None
     | TaskEnds t r \<Rightarrow>
         if (if t = CancelTask then rs_task s t = TaskCancelRequested \<and> r = Inl CancelledError
             else rs_task s t = TaskRunning \<or> rs_task s t = TaskCancelRequested)
         then Some (set_status t (TaskEnded r) s) else None
     | TaskCallback t \<Rightarrow> (case rs_task s t of TaskEnded r \<Rightarrow> Some (reap t r s) | _ \<Rightarrow> None)
     | GroupLeft \<Rightarrow> if rs_phase s = InTaskGroup \<and> (\<forall>t. is_reaped (rs_task s t))
         then Some (s\<lparr>rs_phase := StoppingChildren (exit_code (group_errors s))\<rparr>) else None
     | ChildrenStopped r u \<Rightarrow> (case rs_phase s of
         StoppingChildren code \<Rightarrow> Some (s\<lparr>rs_phase := RunDone (finish_run r u code)\<rparr>) | _ \<Rightarrow> None))"

fun attempts :: "run_state \<Rightarrow> run_label list \<Rightarrow> run_state option" where
  "attempts s [] = Some s"
| "attempts s (l # ls) = (case attempt s l of None \<Rightarrow> None | Some u \<Rightarrow> attempts u ls)"

inductive_simps run_step_simps: "run_step s SignalReceived u" "run_step s CancellerWakes u"
  "run_step s (TaskEnds t r) u" "run_step s (TaskCallback t) u" "run_step s GroupLeft u"
  "run_step s (ChildrenStopped r q) u"

lemma attempt_iff: "attempt s l = Some u \<longleftrightarrow> run_step s l u"
  by (cases l) (auto simp: attempt_def run_step_simps in_worker_tasks split: task_status.splits run_phase.splits)

lemmas attempt_step = attempt_iff[THEN iffD1]

lemma attempts_reachable: "attempts s ls = Some u \<Longrightarrow> run_reachable s \<Longrightarrow> run_reachable u"
proof (induction s ls rule: attempts.induct)
  case (2 s l ls)
  then obtain v where v: "attempt s l = Some v" "attempts v ls = Some u" by (auto split: option.splits)
  have "run_reachable v" using attempt_step[OF v(1)] by (rule reachable_step[OF 2(3) exI])
  with 2(1)[OF v(1) v(2)] show ?case by blast
qed simp

section \<open>Which exceptions a configuration can raise\<close>

text \<open>
  What file operations raise by the documentation: \<open>OSError\<close> or a subclass of it. Reading the
  configuration raises that, or a \<open>ValueError\<close> of the decoder or the TOML parser.
\<close>

definition os_error :: "exn \<Rightarrow> bool" where
  "os_error e \<longleftrightarrow> e = OSError \<or> e = ProcessLookupError"

definition read_error :: "exn \<Rightarrow> bool" where
  "read_error e \<longleftrightarrow> os_error e \<or> (\<exists>v. e = ValueError v)"

text \<open>
  A value \<open>int(...)\<close> rejects with a ValueError at most: text, an integer, a boolean, a finite float
  or nan. The infinities are floats too, but \<open>int(inf)\<close> is an OverflowError.
\<close>

fun plain_value :: "toml \<Rightarrow> bool" where
  "plain_value (TomlStr s) = True"
| "plain_value (TomlInt i) = True"
| "plain_value (TomlFloat x) = True"
| "plain_value TomlNan = True"
| "plain_value (TomlBool b) = True"
| "plain_value _ = False"

definition integer_keys :: "string \<Rightarrow> string list" where
  "integer_keys name =
     (if name = PACING_SECTION then [RATE_CEILING_BPS_KEY, RATE_FLOOR_BPS_KEY]
      else if name = FEC_SECTION then [FEC_K_KEY, FEC_N_KEY, FEC_SYMBOL_BYTES_KEY]
      else if name = SENDERS_SECTION then [BASE_PORT_KEY, SENDER_COUNT_KEY] else [])"

definition section_ok :: "string list \<Rightarrow> toml \<Rightarrow> bool" where
  "section_ok keys s \<longleftrightarrow> (case s of
       TomlTable t \<Rightarrow> list_all (\<lambda>k. case dict_get t k of None \<Rightarrow> True | Some v \<Rightarrow> plain_value v) keys
     | _ \<Rightarrow> False)"

definition section_names :: "string list" where
  "section_names = [PATHS_SECTION, PACING_SECTION, FEC_SECTION, SENDERS_SECTION]"

definition well_typed :: "(string, toml) dict \<Rightarrow> bool" where
  "well_typed data \<longleftrightarrow> list_all (\<lambda>name. section_ok (integer_keys name) (setdefault_section data name)) section_names"

definition sections_ok :: "sections \<Rightarrow> bool" where
  "sections_ok secs \<longleftrightarrow> list_all (\<lambda>name. section_ok (integer_keys name) (section_of secs name)) section_names"

lemma section_data_ok: "well_typed data \<Longrightarrow> sections_ok (section_data data)"
  by (simp add: well_typed_def sections_ok_def section_names_def section_of_def section_data_def)

lemma int_of_text_error: "int_of_text s = Inl e \<Longrightarrow> caught_by_main e"
  by (auto simp: int_of_text_def Let_def split: option.splits)

lemma plain_py_int: "plain_value v \<Longrightarrow> py_int v = Inl e \<Longrightarrow> caught_by_main e"
  by (cases v) (auto dest: int_of_text_error)

lemma apply_cast_cases:
  "(case apply_cast c s of Inl e \<Rightarrow> caught_by_main e | Inr v \<Rightarrow> plain_value v)"
  by (cases c) (auto split: sum.splits simp: res_simps dest: int_of_text_error)

lemma section_ok_set:
  assumes "section_ok keys s" "plain_value v"
  shows "\<exists>s'. toml_set s key v = Inr s' \<and> section_ok keys s'"
  using assms by (cases s) (auto simp: section_ok_def list_all_iff)

lemma apply_overrides_ok:
  assumes "sections_ok secs" "\<forall>(var, name, key, cast)\<in>set ovs. name \<in> set section_names"
  shows "(case apply_overrides env ovs secs of Inl e \<Rightarrow> caught_by_main e | Inr secs' \<Rightarrow> sections_ok secs')"
  using assms
proof (induction env ovs secs rule: apply_overrides.induct)
  case (2 env var name key cast rest secs)
  show ?case
  proof (cases "env var")
    case None
    with 2 show ?thesis by simp
  next
    case (Some raw_value)
    show ?thesis
    proof (cases "apply_cast cast raw_value")
      case (Inl e)
      with Some apply_cast_cases[of cast raw_value] show ?thesis by simp
    next
      case (Inr v)
      have "plain_value v" using apply_cast_cases[of cast raw_value] Inr by simp
      moreover have "section_ok (integer_keys name) (section_of secs name)"
        using 2(3,4) by (auto simp: sections_ok_def list_all_iff)
      ultimately obtain s' where s': "toml_set (section_of secs name) key v = Inr s'"
        "section_ok (integer_keys name) s'" using section_ok_set by blast
      have "sections_ok (dict_set name s' secs)"
        using 2(3) s'(2) by (auto simp: sections_ok_def list_all_iff section_of_set)
      with 2(2)[OF Some, of s'] 2(4) have
        "(case apply_overrides env rest (dict_set name s' secs) of Inl e \<Rightarrow> caught_by_main e | Inr secs' \<Rightarrow> sections_ok secs')"
        by simp
      then show ?thesis using Some Inr s'(1) by simp
    qed
  qed
qed simp

lemma section_ok_int_or:
  assumes "section_ok keys s" "key \<in> set keys" "int_or s key d = Inl e"
  shows "caught_by_main e"
  using assms by (cases s) (fastforce simp: section_ok_def int_or_def list_all_iff split: option.splits dest: plain_py_int)+

lemma section_ok_required_int:
  assumes "section_ok keys s" "key \<in> set keys" "required_int s key = Inl e"
  shows "caught_by_main e"
  using assms
  by (cases s) (auto simp: section_ok_def required_int_def require_key_def list_all_iff res_simps
      split: option.splits dest: plain_py_int)

lemma section_ok_str_or: "section_ok keys s \<Longrightarrow> str_or text_of s key d \<noteq> Inl e"
  by (cases s) (auto simp: section_ok_def str_or_def res_simps)

lemma section_ok_required_path:
  "section_ok keys s \<Longrightarrow> required_path text_of dir s key = Inl e \<Longrightarrow> caught_by_main e"
  by (cases s) (auto simp: section_ok_def required_path_def require_key_def res_simps split: option.splits)

lemma build_config_error:
  assumes "sections_ok secs" "build_config src secs = Inl e"
  shows "caught_by_main e"
proof -
  have ok: "section_ok (integer_keys n) (section_of secs n)" if "n \<in> set section_names" for n
    using assms(1) that by (auto simp: sections_ok_def list_all_iff)
  have sec: "section_ok [] (section_of secs PATHS_SECTION)"
    "section_ok [RATE_CEILING_BPS_KEY, RATE_FLOOR_BPS_KEY] (section_of secs PACING_SECTION)"
    "section_ok [FEC_K_KEY, FEC_N_KEY, FEC_SYMBOL_BYTES_KEY] (section_of secs FEC_SECTION)"
    "section_ok [BASE_PORT_KEY, SENDER_COUNT_KEY] (section_of secs SENDERS_SECTION)"
    using ok[of PATHS_SECTION] ok[of PACING_SECTION] ok[of FEC_SECTION] ok[of SENDERS_SECTION]
    by (simp_all add: section_names_def integer_keys_def)
  note errors = section_ok_required_path[OF sec(1), simplified]
    section_ok_int_or[OF sec(2), of RATE_CEILING_BPS_KEY, simplified]
    section_ok_int_or[OF sec(2), of RATE_FLOOR_BPS_KEY, simplified]
    section_ok_required_int[OF sec(3), of FEC_K_KEY, simplified]
    section_ok_required_int[OF sec(3), of FEC_N_KEY, simplified]
    section_ok_required_int[OF sec(3), of FEC_SYMBOL_BYTES_KEY, simplified]
    section_ok_int_or[OF sec(4), of BASE_PORT_KEY, simplified]
    section_ok_int_or[OF sec(4), of SENDER_COUNT_KEY, simplified]
  show ?thesis
    using assms(2) section_ok_str_or[OF sec(4)]
    by (auto simp: build_config_def Let_def res_simps dest: errors)
qed

lemma load_config_error:
  assumes "case src_data src of Inl e \<Rightarrow> caught_by_main e | Inr data \<Rightarrow> well_typed data"
    and "\<And>p e. fs_mkdir fs p = Inl e \<Longrightarrow> caught_by_main e" "\<And>p e. fs_node fs p = Inl e \<Longrightarrow> caught_by_main e"
    and "fst (load_config fs src) = Inl e"
  shows "caught_by_main e"
proof (cases "src_data src")
  case (Inl e')
  with assms(1,4) show ?thesis by (simp add: load_config_def read_sections_def)
next
  case (Inr data)
  with assms(1) have "sections_ok (section_data data)" by (simp add: section_data_ok)
  moreover have "\<forall>(var, name, key, cast)\<in>set ENV_OVERRIDES. name \<in> set section_names"
    by (simp add: ENV_OVERRIDES_def section_names_def)
  ultimately have ov: "case apply_overrides (src_env src) ENV_OVERRIDES (section_data data) of
      Inl e \<Rightarrow> caught_by_main e | Inr secs \<Rightarrow> sections_ok secs"
    by (rule apply_overrides_ok)
  have vals: "check_values c = Inl e \<Longrightarrow> caught_by_main e" for c
    by (auto simp: check_values_def split: if_splits)
  have watch: "fst (check_watch_path fs p) = Inl e \<Longrightarrow> caught_by_main e" for p
    using assms(2,3) by (auto simp: check_watch_path_def split: node.splits sum.splits)
  consider "read_sections src = Inl e"
    | secs where "read_sections src = Inr secs" "build_config src secs = Inl e"
    | c where "fst (validate_config fs c) = Inl e"
    using assms(4) unfolding load_config_def
    by (auto simp: res_simps split: sum.splits prod.splits) (metis fst_conv)
  then show ?thesis
  proof cases
    case 1
    with ov Inr show ?thesis by (simp add: read_sections_def)
  next
    case (2 secs)
    with ov Inr show ?thesis by (simp add: read_sections_def build_config_error)
  next
    case (3 c)
    then show ?thesis
      using watch[of "watch_path (ac_paths c)"] vals[of c]
      by (auto simp: validate_config_def split: prod.splits sum.splits)
  qed
qed

lemma sender_argv:
  "i < nat (sender_count (ac_senders C)) \<Longrightarrow> \<exists>arg. cs_argv (build_sender_specs C ! i)
      = [binary_path (ac_senders C), ''--sender-id'', arg] \<and> int_of_text arg = Inr (int i)"
  by (simp add: build_sender_specs_def sender_spec_def int_of_str_nat)

text \<open>A value of the wrong type leaves \<open>main\<close> as a TypeError.\<close>

lemma mistyped_value_escapes_main:
  "main_result example_fs (example_config_source\<lparr>src_env := Map.empty, src_data := Inr
     [(''paths'', TomlTable [(''watch_path'', TomlStr ''./watch''), (''socket_path'', TomlStr ''s'')]),
      (''fec'', TomlTable [(''k'', TomlArray [TomlInt 1])])]\<rparr>) run = Inl TypeError"
proof -
  have "fst (load_config example_fs (example_config_source\<lparr>src_env := Map.empty, src_data := Inr
     [(''paths'', TomlTable [(''watch_path'', TomlStr ''./watch''), (''socket_path'', TomlStr ''s'')]),
      (''fec'', TomlTable [(''k'', TomlArray [TomlInt 1])])]\<rparr>)) = Inl TypeError"
    by code_simp
  then show ?thesis by (simp add: main_result_def)
qed

text \<open>An infinite float leaves \<open>main\<close> as an OverflowError.\<close>

lemma infinite_value_escapes_main:
  "main_result example_fs (example_config_source\<lparr>src_env := Map.empty, src_data := Inr
     [(''paths'', TomlTable [(''watch_path'', TomlStr ''./watch''), (''socket_path'', TomlStr ''s'')]),
      (''fec'', TomlTable [(''k'', TomlInf)])]\<rparr>) run = Inl OverflowError"
proof -
  have "fst (load_config example_fs (example_config_source\<lparr>src_env := Map.empty, src_data := Inr
     [(''paths'', TomlTable [(''watch_path'', TomlStr ''./watch''), (''socket_path'', TomlStr ''s'')]),
      (''fec'', TomlTable [(''k'', TomlInf)])]\<rparr>)) = Inl OverflowError"
    by code_simp
  then show ?thesis by (simp add: main_result_def)
qed

section \<open>Concrete runs\<close>

definition example_surroundings :: "bytes surroundings" where
  "example_surroundings = \<lparr>su_env = Map.empty, su_directory = (\<lambda>_. Some [(''ipc.proto'', RegularFile [1])]),
     su_hasher = concat_hasher, su_flags = kernel_flags, su_add_watch = (\<lambda>_ _. Inr 1), su_clock = 0\<rparr>"

text \<open>The message loop fails; the others are cancelled and the run exits with 1.\<close>

definition failing_run :: "run_label list" where
  "failing_run = [TaskEnds IncomingTask (Inl DecodeError), TaskCallback IncomingTask,
     TaskEnds CancelTask (Inl CancelledError), TaskCallback CancelTask,
     TaskEnds ServeTask (Inl CancelledError), TaskCallback ServeTask,
     TaskEnds SupervisorTask (Inl CancelledError), TaskCallback SupervisorTask,
     TaskEnds DetectionTask (Inl CancelledError), TaskCallback DetectionTask,
     GroupLeft, ChildrenStopped (Inr ()) (Inr ())]"

lemma failing_run_reachable:
  "attempts run_start (take n failing_run) = Some s \<Longrightarrow> run_reachable s"
  by (erule attempts_reachable) (rule reachable_init, rule refl)

section \<open>Properties\<close>

text \<open>C23: The components \<open>run\<close> builds from a configuration that loaded satisfy what their theorems require:
  the server, the watcher and the supervisor are in their initial states, with the hash of the contract
  directory, distinct names of the children and well-formed registry; the parameters of the dispatcher
  are valid and its root is the directory the adapter watches; and there is one child for every sender,
  started with its number as the argument of \<open>--sender-id\<close>.\<close>

theorem service_starts_well_formed:
  assumes "load_config fs src = (Inr C, made)" "is_absolute (src_dir src)"
    and "run_setup S C = Inr (Started p)"
  shows "(\<exists>entries expected. su_directory S (Path (environ_get (su_env S) PROTO_CONTRACT_DIR_ENV_VAR
            DEFAULT_PROTO_CONTRACT_DIR)) = Some entries
        \<and> compute_proto_hash (su_hasher S) entries = Inr expected
        \<and> uds_reachable pb expected (w_ipc (p_world p)))
    \<and> registry_wf (w_registry (p_world p))
    \<and> watch_reachable DEBOUNCE_SECONDS (p_watcher p)
    \<and> supervisor_reachable (sv_config (p_supervisor p)) (p_supervisor p)
    \<and> fec_valid (dc_fec_params (p_dispatcher p)) \<and> 0 < dc_base_port (p_dispatcher p)
    \<and> is_absolute (dc_watch_root (p_dispatcher p))
    \<and> ie_watch_path (p_file_events p) = dc_watch_root (p_dispatcher p)
    \<and> int (length (sc_specs (sv_config (p_supervisor p)))) = sender_count (ac_senders C)
    \<and> (\<forall>i < length (sc_specs (sv_config (p_supervisor p))). \<exists>arg.
         cs_argv (sc_specs (sv_config (p_supervisor p)) ! i) = [binary_path (ac_senders C), ''--sender-id'', arg]
         \<and> int_of_text arg = Inr (int i))"
proof -
  let ?D = "default_supervisor_config (build_sender_specs C)"
  obtain secs where cfg: "build_config src secs = Inr C" "check_values C = Inr ()"
    using load_config_Inr[OF assms(1)] by blast
  then have "is_absolute (watch_path (ac_paths C))"
    using build_config_Inr(1)[OF cfg(1)] resolve_path_absolute[OF assms(2)] by auto
  moreover have "fec_valid (ac_fec C)" "0 < base_port (ac_senders C)" "0 \<le> sender_count (ac_senders C)"
    using cfg(2) by (auto simp: check_values_Inr_iff)
  moreover have "supervisor_reachable ?D (ProcessSupervisor ?D (su_clock S))"
    by (rule reachable_init)
      (auto simp: supervisor_init_def names_distinct_def default_supervisor_config_def sender_names_distinct)
  moreover have "watch_reachable DEBOUNCE_SECONDS (DirectoryWatcher DEBOUNCE_SECONDS (su_clock S))"
    by (rule reachable_init) (auto simp: watch_init_def)
  moreover have "uds_reachable pb expected (UdsIpcServer expected)" for expected
    by (rule reachable_init) (simp add: uds_init_def)
  moreover have "sv_config (ProcessSupervisor ?D (su_clock S)) = ?D" "sc_specs ?D = build_sender_specs C"
    by (simp_all add: ProcessSupervisor_def default_supervisor_config_def)
  moreover have "length (build_sender_specs C) = nat (sender_count (ac_senders C))"
    by (simp add: build_sender_specs_def)
  ultimately show ?thesis
    by - (rule run_setup_Started[OF assms(3)], auto intro: sender_argv)
qed

theorem service_starts_well_formed_witness:
  "\<exists>C made p. load_config example_fs example_config_source = (Inr C, made)
    \<and> run_setup example_surroundings C = Inr (Started p)
    \<and> registry_wf (w_registry (p_world p)) \<and> 0 < dc_base_port (p_dispatcher p)"
proof -
  have abs: "is_absolute (src_dir example_config_source)"
    by (simp add: example_config_source_def is_absolute_def Path_def split_root_def)
  have "\<exists>p. run_setup example_surroundings C = Inr (Started p)" for C
    by (simp add: run_setup_def example_surroundings_def compute_proto_hash_def glob_proto_def
        INotifyEvents_def res_simps)
  then obtain p where "run_setup example_surroundings (case fst (load_config example_fs example_config_source) of
      Inr C \<Rightarrow> C) = Inr (Started p)" by blast
  then have p: "run_setup example_surroundings \<lparr>ac_paths = \<lparr>watch_path = Path ''/etc/nexus/watch'', socket_path = Path ''/run/nexus.sock''\<rparr>,
       ac_pacing = \<lparr>rate_ceiling_bps = 20000000, rate_floor_bps = 5000000\<rparr>,
       ac_fec = \<lparr>fec_k = 100, fec_n = 255, symbol_bytes = 1400\<rparr>,
       ac_senders = \<lparr>target_host = ''127.0.0.1'', base_port = 9000,
         binary_path = ''/etc/nexus/bin/nexus-sender'', sender_count = 3\<rparr>\<rparr> = Inr (Started p)"
    by (simp add: example_load)
  from service_starts_well_formed[OF example_load abs this] example_load p show ?thesis by blast
qed

text \<open>C30: When \<open>run\<close> returns an exit code, every task has ended and the code tells whether one of them failed:
  1 if a task ended with an exception other than a cancellation, else 0.\<close>

theorem exit_code_reports_failures:
  assumes "run_reachable s" "rs_phase s = RunDone (Inr code)"
  shows "(\<forall>t. \<exists>r. rs_task s t = TaskReaped r)
    \<and> code = (if \<exists>t e. rs_task s t = TaskReaped (Inl e) \<and> e \<noteq> CancelledError then 1 else 0)"
proof -
  have inv: "run_inv s" by (rule task_group.inv_reachable[OF assms(1)])
  have "group_errors s = [] \<longleftrightarrow> \<not> (\<exists>t e. rs_task s t = TaskReaped (Inl e) \<and> e \<noteq> CancelledError)"
    using inv unfolding run_inv_def reaped_with_def by (metis empty_iff empty_set list.set_intros(1) neq_Nil_conv)
  with inv assms(2) show ?thesis
    by (auto simp: run_inv_def is_reaped_iff exit_code_def)
qed

theorem exit_code_reports_failures_witness:
  "\<exists>s. attempts run_start failing_run = Some s \<and> rs_phase s = RunDone (Inr 1)
    \<and> (\<exists>r. rs_task s ServeTask = TaskReaped r)"
proof -
  have run: "map_option rs_phase (attempts run_start failing_run) = Some (RunDone (Inr 1))" by code_simp
  then obtain s where s: "attempts run_start failing_run = Some s" "rs_phase s = RunDone (Inr 1)" by auto
  have "run_reachable s" using failing_run_reachable[of 12 s] s(1) by (simp add: failing_run_def)
  from exit_code_reports_failures[OF this s(2)] s show ?thesis by blast
qed

text \<open>C29: One failing task stops the service: after the callback of a task that failed, no task runs without
  having been asked to cancel; no task is cancelled without a failure or a signal; and the children are
  stopped only when every task has ended, the one that restarts them among them.\<close>

theorem one_failure_cancels_every_task:
  assumes "run_reachable s"
  shows "((\<exists>t e. rs_task s t = TaskReaped (Inl e) \<and> e \<noteq> CancelledError) \<longrightarrow> (\<forall>t. rs_task s t \<noteq> TaskRunning))
    \<and> (\<forall>t. rs_task s t = TaskCancelRequested \<longrightarrow>
        shutdown_event s \<or> (\<exists>t e. rs_task s t = TaskReaped (Inl e) \<and> e \<noteq> CancelledError))
    \<and> (rs_phase s \<noteq> InTaskGroup \<longrightarrow> (\<forall>t. \<exists>r. rs_task s t = TaskReaped r))"
proof -
  have inv: "run_inv s" by (rule task_group.inv_reachable[OF assms])
  have "group_aborting s \<longleftrightarrow> (\<exists>t e. rs_task s t = TaskReaped (Inl e) \<and> e \<noteq> CancelledError)"
    using inv unfolding run_inv_def reaped_with_def by (metis empty_iff empty_set list.set_intros(1) neq_Nil_conv)
  with inv show ?thesis unfolding run_inv_def is_reaped_iff by blast
qed

theorem one_failure_cancels_every_task_witness:
  "\<exists>s. attempts run_start (take 2 failing_run) = Some s \<and> rs_task s IncomingTask = TaskReaped (Inl DecodeError)
    \<and> rs_task s DetectionTask \<noteq> TaskRunning"
proof -
  have "map_option (\<lambda>s. rs_task s IncomingTask) (attempts run_start (take 2 failing_run))
      = Some (TaskReaped (Inl DecodeError))" by code_simp
  then obtain s where s: "attempts run_start (take 2 failing_run) = Some s"
    "rs_task s IncomingTask = TaskReaped (Inl DecodeError)" by auto
  from one_failure_cancels_every_task[OF failing_run_reachable[OF s(1)]] s show ?thesis by blast
qed

text \<open>C24: Once a signal arrived or a task failed, \<open>run\<close> ends: at most 17 further steps are possible, and as
  long as it has not returned or raised one of them is due that needs neither a signal nor a task that
  ends without having been cancelled.\<close>

theorem run_ends_after_signal_or_failure:
  assumes "run_reachable s" "shutdown_event s \<or> group_aborting s"
    and "execution run_step s ls u" "SignalReceived \<notin> set ls"
  shows "length ls \<le> 17
    \<and> ((\<exists>res. rs_phase u = RunDone res)
       \<or> (\<exists>l v. run_step u l v \<and> l \<noteq> SignalReceived \<and> (\<forall>t r. l = TaskEnds t r \<longrightarrow> rs_task u t = TaskCancelRequested)))"
proof -
  have "run_inv u" by (rule task_group.inv_reachable[OF execution_reachable[OF assms(3,1)]])
  moreover have "stopping_run u"
    by (rule stopping_execution[OF assms(3)]) (use assms(2) in \<open>simp add: stopping_run_def\<close>)
  ultimately have "(\<exists>res. rs_phase u = RunDone res) \<or> (\<exists>l v. forced u l \<and> run_step u l v)"
    by (rule stopping_progress)
  then show ?thesis
    using measure_execution[OF assms(3,4)] run_measure_le[of s] unfolding forced_def by auto
qed

theorem run_ends_after_signal_or_failure_witness:
  "\<exists>u. run_step (trigger_shutdown run_start) CancellerWakes u
    \<and> ((\<exists>res. rs_phase u = RunDone res) \<or> (\<exists>l v. run_step u l v \<and> l \<noteq> SignalReceived))"
proof -
  have step: "run_step (trigger_shutdown run_start) CancellerWakes (cancel_workers (trigger_shutdown run_start))"
    by (rule run_step.canceller_wakes) (simp_all add: trigger_shutdown_def run_start_def)
  have reach: "run_reachable (trigger_shutdown run_start)"
    by (rule attempts_reachable[of run_start "[SignalReceived]"]) (simp_all add: attempt_def reachable_init)
  have stop: "shutdown_event (trigger_shutdown run_start) \<or> group_aborting (trigger_shutdown run_start)"
    by (simp add: trigger_shutdown_def)
  have exec: "execution run_step (trigger_shutdown run_start) [CancellerWakes]
      (cancel_workers (trigger_shutdown run_start))"
    using execution_snoc[of run_step _ "[]", OF execution_nil step] by simp
  from run_ends_after_signal_or_failure[OF reach stop exec] step show ?thesis by auto
qed

text \<open>C33: A bad configuration file never takes \<open>main\<close> down with an exception, as long as its sections are
  tables and no integer setting is an infinity, a date, an array or a table: whatever file the
  environment selects, whether or not it can be read and parsed, whatever the values in it, whatever the
  environment overrides and whatever the file system answers, either the configuration loads and the
  service runs on it, or the program exits with code 78. Reading fails with an \<open>OSError\<close> or a \<open>ValueError\<close>,
  looking at the watch path and creating it with an \<open>OSError\<close>.\<close>

theorem bad_configuration_exits_78:
  assumes "\<And>p. case src_data (read_source p) of Inl e \<Rightarrow> read_error e | Inr data \<Rightarrow> well_typed data"
    and "\<And>p e. fs_mkdir fs p = Inl e \<Longrightarrow> os_error e" "\<And>p e. fs_node fs p = Inl e \<Longrightarrow> os_error e"
  shows "(case fst (load_config fs (main_source read_source env)) of
      Inl e \<Rightarrow> main_program fs read_source env run = Inr 78
    | Inr C \<Rightarrow> main_program fs read_source env run = run C)"
proof (cases "fst (load_config fs (main_source read_source env))")
  case (Inl e)
  have os: "caught_by_main e" if "os_error e" for e using that by (auto simp: os_error_def)
  have "caught_by_main e" if "read_error e" for e using that os by (auto simp: read_error_def)
  then have "case src_data (main_source read_source env) of
      Inl e \<Rightarrow> caught_by_main e | Inr data \<Rightarrow> well_typed data"
    using assms(1)[of "Path (environ_get env NEXUS_CONFIG_ENV_VAR DEFAULT_CONFIG_PATH)"]
    by (auto simp: main_source_def split: sum.splits)
  from load_config_error[OF this os[OF assms(2)] os[OF assms(3)] Inl] Inl show ?thesis
    by (simp add: main_program_def main_result_def CONFIG_ERROR_EXIT_CODE_def)
qed (simp add: main_program_def main_result_def)

text \<open>A directory with one configuration file, which the environment of the witness selects.\<close>

definition example_files :: "path \<Rightarrow> config_source" where
  "example_files p = example_config_source
     \<lparr>src_data := if p = Path ''/etc/nexus/config.toml'' then Inr example_data else Inl OSError\<rparr>"

theorem bad_configuration_exits_78_witness:
  "main_program example_fs example_files
      [''NEXUS_CONFIG'' \<mapsto> ''/etc/nexus/config.toml'', ''NEXUS_FEC_K'' \<mapsto> ''many''] (\<lambda>_. Inr 0) = Inr 78
    \<and> main_program example_fs example_files Map.empty (\<lambda>_. Inr 0) = Inr 78
    \<and> main_program example_fs example_files [''NEXUS_CONFIG'' \<mapsto> ''/etc/nexus/config.toml''] (\<lambda>_. Inr 0)
      = Inr 0"
proof -
  let ?named = "[''NEXUS_CONFIG'' \<mapsto> ''/etc/nexus/config.toml'']"
  have "well_typed example_data" by code_simp
  then have "case src_data (example_files p) of Inl e \<Rightarrow> read_error e | Inr data \<Rightarrow> well_typed data" for p
    by (simp add: example_files_def read_error_def os_error_def)
  from bad_configuration_exits_78[of example_files, OF this, of example_fs _ "\<lambda>_. Inr 0"] have
    main: "case fst (load_config example_fs (main_source example_files env)) of
      Inl e \<Rightarrow> main_program example_fs example_files env (\<lambda>_. Inr 0) = Inr 78
    | Inr C \<Rightarrow> main_program example_fs example_files env (\<lambda>_. Inr 0) = Inr 0" for env
    by (simp add: example_fs_def)
  have "fst (load_config example_fs (main_source example_files (?named(''NEXUS_FEC_K'' \<mapsto> ''many''))))
      = Inl (ValueError LibraryValueError)"
    "fst (load_config example_fs (main_source example_files Map.empty)) = Inl OSError"
    "\<not> isl (fst (load_config example_fs (main_source example_files ?named)))"
    by code_simp+
  with main[of "?named(''NEXUS_FEC_K'' \<mapsto> ''many'')"] main[of Map.empty] main[of ?named] show ?thesis
    by (auto simp: isl_def split: sum.splits)
qed

end
