(* ===== verification/Lifecycle.thy ===== *)
theory Lifecycle imports Service begin

text \<open>
  The task group of \<open>main.py\<close> and the supervisor on one state. The supervisor's tasks are cancelled when
  the group cancels \<open>supervisor.run()\<close>, that task ends only when they have all ended, and
  \<open>supervisor.shutdown()\<close> runs after the group. The lemmas follow the sender processes through the end of
  the service.
\<close>

section \<open>The composed system\<close>

type_synonym service = "run_state \<times> supervisor"

datatype service_label = Run run_label | Sup supervisor_label

text \<open>
  How \<open>ProcessSupervisor.run\<close> ends: never before its children's tasks; with a cancellation only if it was
  cancelled, with another exception exactly when a child's task raised.
\<close>

definition supervisor_result :: "run_state \<Rightarrow> supervisor \<Rightarrow> unit result \<Rightarrow> bool" where
  "supervisor_result s v r \<longleftrightarrow> (case run_ended v of
       None \<Rightarrow> False
     | Some errors \<Rightarrow>
         if errors \<noteq> [] then \<exists>e. r = Inl e \<and> e \<noteq> CancelledError
         else r = Inr () \<or> r = Inl CancelledError \<and> rs_task s SupervisorTask = TaskCancelRequested)"

text \<open>The children's tasks are cancelled when \<open>run\<close> is, or when one of them raised.\<close>

definition cancels_children :: "run_state \<Rightarrow> supervisor \<Rightarrow> bool" where
  "cancels_children s v \<longleftrightarrow> rs_task s SupervisorTask = TaskCancelRequested
     \<or> (\<exists>ch\<in>set (children v). \<exists>e. ch_phase ch = ChildRaised e)"

inductive service_step :: "service \<Rightarrow> service_label \<Rightarrow> service \<Rightarrow> bool" where
  task: "run_step s l s' \<Longrightarrow> (\<forall>r. l \<noteq> TaskEnds SupervisorTask r) \<Longrightarrow> (\<forall>r u. l \<noteq> ChildrenStopped r u) \<Longrightarrow>
    service_step (s, v) (Run l) (s', v)"
| supervisor_ends: "run_step s (TaskEnds SupervisorTask r) s' \<Longrightarrow> supervisor_result s v r \<Longrightarrow>
    service_step (s, v) (Run (TaskEnds SupervisorTask r)) (s', v)"
| supervises: "supervisor_step v l v' \<Longrightarrow> l \<noteq> BeginShutdown \<Longrightarrow>
    (\<forall>i. l = CancelChild i \<longrightarrow> cancels_children s v) \<Longrightarrow> service_step (s, v) (Sup l) (s, v')"
| shuts_down: "rs_phase s = StoppingChildren code \<Longrightarrow> supervisor_step v BeginShutdown v' \<Longrightarrow>
    service_step (s, v) (Sup BeginShutdown) (s, v')"
| children_stopped: "sv_shutdown v = ShutdownDone \<Longrightarrow> run_step s (ChildrenStopped (Inr ()) unlinked) s' \<Longrightarrow>
    service_step (s, v) (Run (ChildrenStopped (Inr ()) unlinked)) (s', v)"

definition service_init :: "'h surroundings \<Rightarrow> app_config \<Rightarrow> service \<Rightarrow> bool" where
  "service_init S C w \<longleftrightarrow> (\<exists>p. run_setup S C = Inr (Started p) \<and> w = (run_start, p_supervisor p))"

abbreviation service_reachable :: "'h surroundings \<Rightarrow> app_config \<Rightarrow> service \<Rightarrow> bool" where
  "service_reachable S C \<equiv> reachable (service_init S C) (\<lambda>w w'. \<exists>l. service_step w l w')"

section \<open>When every child's task is over\<close>

definition children_over :: "supervisor \<Rightarrow> bool" where
  "children_over v \<longleftrightarrow> list_all (task_over \<circ> ch_phase) (children v)"

lemma children_over_nth: "children_over v \<Longrightarrow> i < length (children v) \<Longrightarrow> task_over (ch_phase (children v ! i))"
  by (simp add: children_over_def list_all_length)

lemma supervisor_result_over: "supervisor_result s v r \<Longrightarrow> children_over v"
  by (simp add: supervisor_result_def run_ended_def children_over_def split: if_splits)

text \<open>The steps that are left: the environment's, the shutdown's, and cancelling a cancelled task.\<close>

lemma over_step_cases:
  assumes "supervisor_step v l w" "children_over v"
  obtains (exits) h where "l = ProcessExits h" "h < length (os_running v)" "w = v\<lparr>os_running := (os_running v)[h := False]\<rparr>"
    | (cancel) i where "l = CancelChild i" "w = set_phase i ChildCancelled v"
    | (starts) "l = BeginShutdown" "w = begin_shutdown v"
    | (kill) hs deadline where "l = ExitWaitOver" "sv_shutdown v = WaitingForExit hs deadline"
        "(\<forall>h\<in>set hs. \<not> os_running v ! h) \<or> deadline \<le> sv_now v" "w = kill_remaining v"
    | (killed) hs where "l = KillWaitOver" "sv_shutdown v = WaitingForKilled hs" "w = v\<lparr>sv_shutdown := ShutdownDone\<rparr>"
    | (pass) t where "l = Pass t" "sv_now v \<le> t" "w = v\<lparr>sv_now := t\<rparr>"
  using assms
proof (cases rule: supervisor_step.cases)
  case (start_child i)
  with children_over_nth[OF assms(2)] show ?thesis by force
next
  case (process_born i)
  with children_over_nth[OF assms(2)] show ?thesis by force
next
  case (spawn_returns i)
  with children_over_nth[OF assms(2)] show ?thesis by force
next
  case (spawn_killed i)
  with children_over_nth[OF assms(2)] show ?thesis by force
next
  case (cancel_child i)
  have "cancel_child_task i v = set_phase i ChildCancelled v"
    using children_over_nth[OF assms(2) cancel_child(3)] by (cases "ch_phase (children v ! i)") (simp_all add: cancel_child_task_def)
  with cancel_child show ?thesis using cancel by simp
next
  case (spawn_fails i)
  with children_over_nth[OF assms(2)] show ?thesis by force
next
  case (spawn_raises i)
  with children_over_nth[OF assms(2)] show ?thesis by force
next
  case (wait_returns i)
  with children_over_nth[OF assms(2)] show ?thesis by force
next
  case (wait_raises i)
  with children_over_nth[OF assms(2)] show ?thesis by force
next
  case (backoff_over i)
  with children_over_nth[OF assms(2)] show ?thesis by force
qed (use that in blast)+

lemma children_over_simps [simp]:
  "children_over (begin_shutdown v) = children_over v" "children_over (kill_remaining v) = children_over v"
  "children_over (v\<lparr>os_running := os\<rparr>) = children_over v" "children_over (v\<lparr>sv_shutdown := ph\<rparr>) = children_over v"
  "children_over (v\<lparr>sv_now := t\<rparr>) = children_over v"
  by (simp_all add: children_over_def)

text \<open>No spawn is under way then.\<close>

lemma over_unreturned: "children_over v \<Longrightarrow> unreturned v = {}"
proof -
  have "task_over ph \<Longrightarrow> \<not> spawn_holds ph h" for ph h by (cases ph) auto
  then show "children_over v \<Longrightarrow> unreturned v = {}" by (auto simp: children_over_def list_all_length unreturned_def)
qed

lemma over_cancelled: "children_over v \<Longrightarrow> children_over (set_phase i ChildCancelled v)"
  by (auto simp: children_over_def list_all_length set_phase_def children_set_child nth_list_update)

lemma over_step: "supervisor_step v l w \<Longrightarrow> children_over v \<Longrightarrow> children_over w"
  by (cases rule: over_step_cases[of v l w]) (simp_all add: over_cancelled)

section \<open>No process is started once the shutdown began\<close>

lemma child_ended_shutdown [simp]:
  "late_spawns (child_ended i r v) = late_spawns v" "sv_shutdown (child_ended i r v) = sv_shutdown v"
  by (simp_all add: child_ended_def set_phase_def split: sum.splits)

lemma child_operations_shutdown [simp]:
  "late_spawns (set_phase i ph v) = late_spawns v" "sv_shutdown (set_phase i ph v) = sv_shutdown v"
  "late_spawns (loop_top i v) = late_spawns v" "sv_shutdown (loop_top i v) = sv_shutdown v"
  "late_spawns (process_waited i r v) = late_spawns v" "sv_shutdown (process_waited i r v) = sv_shutdown v"
  "late_spawns (process_born i started v) = late_spawns v" "sv_shutdown (process_born i started v) = sv_shutdown v"
  "late_spawns (cancel_child_task i v) = late_spawns v" "sv_shutdown (cancel_child_task i v) = sv_shutdown v"
  by (simp_all add: set_phase_def loop_top_def process_waited_def process_born_def spawner_spawn_def
      cancel_child_task_def split: child_phase.splits)

lemma late_spawns_spawned: "sv_shutdown v = NoShutdown \<Longrightarrow> late_spawns (spawned i started h v) = late_spawns v"
  by (simp add: spawned_def)

lemma late_spawns_shutdown [simp]:
  "late_spawns (begin_shutdown v) = late_spawns v" "late_spawns (kill_remaining v) = late_spawns v"
  by (simp_all add: begin_shutdown_def kill_remaining_def send_signals_def Let_def)

lemma shutdown_stays_off:
  "supervisor_step v l w \<Longrightarrow> l \<noteq> BeginShutdown \<Longrightarrow> sv_shutdown v = NoShutdown \<Longrightarrow> sv_shutdown w = NoShutdown"
  by (induction rule: supervisor_step.induct) simp_all

lemma shutdown_done_stays:
  "supervisor_step v l w \<Longrightarrow> sv_shutdown v = ShutdownDone \<Longrightarrow> stopping v \<Longrightarrow> sv_shutdown w = ShutdownDone"
  by (induction rule: supervisor_step.induct) (simp_all add: begin_shutdown_def)

lemma late_spawns_step:
  "supervisor_step v l w \<Longrightarrow> sv_shutdown v = NoShutdown \<Longrightarrow> late_spawns w = late_spawns v"
  by (induction rule: supervisor_step.induct) (simp_all add: late_spawns_spawned)

lemma late_spawns_over: "supervisor_step v l w \<Longrightarrow> children_over v \<Longrightarrow> late_spawns w = late_spawns v"
  by (cases rule: over_step_cases[of v l w]) simp_all

text \<open>
  The table holds handles the spawner gave out, the shutdown waits for the processes in it, and those
  it still waits for at the end were killed.
\<close>

definition table_inv :: "supervisor \<Rightarrow> bool" where
  "table_inv v \<longleftrightarrow> (\<forall>h\<in>set (process_list v). h < length (os_running v))
     \<and> (\<forall>hs. (\<exists>d. sv_shutdown v = WaitingForExit hs d) \<or> sv_shutdown v = WaitingForKilled hs \<longrightarrow> hs = process_list v)
     \<and> (sv_shutdown v = NoShutdown \<longrightarrow> signals v = [])
     \<and> (\<forall>hs. sv_shutdown v = WaitingForKilled hs \<longrightarrow> (\<forall>h\<in>set hs. os_running v ! h \<longrightarrow> Kill h \<in> set (signals v)))"

lemma value_dict_set: "h \<in> set (map snd (dict_set k x d)) \<Longrightarrow> h = x \<or> h \<in> set (map snd d)"
  by (induction d) (auto split: if_splits)

lemma value_dict_pop: "h \<in> set (map snd (dict_pop k d)) \<Longrightarrow> h \<in> set (map snd d)"
  by (auto simp: AList.delete_eq)

lemma signals_off:
  "supervisor_step v l w \<Longrightarrow> l \<noteq> BeginShutdown \<Longrightarrow> sv_shutdown v = NoShutdown \<Longrightarrow> signals w = signals v"
  by (induction rule: supervisor_step.induct)
    (simp_all add: loop_top_def set_phase_def set_child_def process_waited_def process_born_def spawner_spawn_def
      cancel_child_task_def child_ended_def split: sum.splits child_phase.splits)

lemma table_inv_off:
  assumes "sv_shutdown w = NoShutdown" "signals w = []" "\<And>h. h \<in> set (process_list w) \<Longrightarrow> h < length (os_running w)"
  shows "table_inv w"
  using assms by (simp add: table_inv_def)

lemma table_inv_children:
  assumes "supervisor_step v l w" "l \<noteq> BeginShutdown" "sv_shutdown v = NoShutdown" "table_inv v" "handles_ok v"
  shows "table_inv w"
proof (rule table_inv_off[OF shutdown_stays_off[OF assms(1-3)]])
  show "signals w = []" using signals_off[OF assms(1-3)] assms(3,4) by (simp add: table_inv_def)
next
  have old: "h \<in> set (process_list v) \<Longrightarrow> h < length (os_running v)" for h
    using assms(4) by (simp add: table_inv_def)
  show "h < length (os_running w)" if "h \<in> set (process_list w)" for h
    using assms(1-3) old that assms(5)
  proof (induction rule: supervisor_step.induct)
    case (process_born i v started)
    have list: "process_list (process_born i started v) = process_list v"
      "length (os_running (process_born i started v)) = Suc (length (os_running v))"
      by (simp_all add: process_list_def process_born_def spawner_spawn_def set_phase_def)
    show ?case using process_born(5,6) list by (auto intro: less_SucI)
  next
    case (spawn_returns i v started h')
    have list: "process_list (spawned i started h' v) = map snd (dict_set (spec_name v i) h' (processes v))"
      by (simp add: process_list_def)
    have "h = h' \<or> h \<in> set (process_list v)"
      using value_dict_set[OF spawn_returns(6)[unfolded list]] by (simp add: process_list_def)
    moreover have "h' < length (os_running v)"
      using spawn_returns(1,2,7) unreturned_nth[of i v h'] by (simp add: handles_ok_def)
    ultimately show ?case using spawn_returns(5) by auto
  next
    case (cancel_child i v)
    have "process_list (cancel_child_task i v) = process_list v" "os_running (cancel_child_task i v) = os_running v"
      by (simp_all add: process_list_def cancel_child_task_def set_phase_def split: child_phase.splits)
    with cancel_child show ?case by simp
  next
    case (wait_returns i v started h' r)
    have list: "process_list (process_waited i r (v\<lparr>sv_now := cr_window_read r\<rparr>))
        = map snd (dict_pop (spec_name v i) (processes v))"
      by (simp add: process_list_def process_waited_def spec_name_def)
    have "h \<in> set (process_list v)"
      using value_dict_pop[OF wait_returns(8)[unfolded list]] by (simp add: process_list_def)
    with wait_returns(7) show ?case by (simp add: process_waited_def)
  qed (simp_all add: process_list_def loop_top_def set_phase_def)
qed

lemma over_step_table:
  "supervisor_step v l w \<Longrightarrow> children_over v \<Longrightarrow> processes w = processes v \<and> length (os_running w) = length (os_running v)"
  by (cases rule: over_step_cases[of v l w]) (simp_all add: set_phase_def)

lemma waits_over:
  assumes "supervisor_step v l w" "children_over v"
  shows "(\<exists>d. sv_shutdown w = WaitingForExit hs d) \<or> sv_shutdown w = WaitingForKilled hs \<Longrightarrow>
    hs = process_list v \<or> (\<exists>d. sv_shutdown v = WaitingForExit hs d) \<or> sv_shutdown v = WaitingForKilled hs"
  using assms
  by (cases rule: over_step_cases[of v l w])
    (auto simp: begin_shutdown_def kill_remaining_def Let_def process_list_def send_signals_def split: if_splits)

lemma shutdown_stays_on: "supervisor_step v l w \<Longrightarrow> sv_shutdown v \<noteq> NoShutdown \<Longrightarrow> sv_shutdown w \<noteq> NoShutdown"
  by (induction rule: supervisor_step.induct)
    (simp_all add: begin_shutdown_def kill_remaining_def send_signals_def Let_def)

lemma waits_for_killed:
  assumes "supervisor_step v l w" "children_over v" "table_inv v" "sv_shutdown w = WaitingForKilled hs" "h \<in> set hs"
    and "os_running w ! h"
  shows "Kill h \<in> set (signals w)"
proof -
  have old: "Kill h \<in> set (signals v)" if "sv_shutdown v = WaitingForKilled hs" "os_running v ! h"
    using assms(3,5) that by (auto simp: table_inv_def)
  have dead: "os_running v ! h" if "os_running ((v\<lparr>os_running := (os_running v)[g := False]\<rparr>)) ! h" "g < length (os_running v)" for g
    using that by (cases "g = h") auto
  show ?thesis
    using assms(1,2)
  proof (cases rule: over_step_cases)
    case (exits g)
    with old dead[of g] assms(4,6) show ?thesis by simp
  next
    case starts
    with old assms(4-6) show ?thesis
      by (auto simp: begin_shutdown_def Let_def kill_remaining_def send_signals_def process_list_def split: if_splits)
  next
    case (kill gs d)
    with assms(4-6) show ?thesis by (auto simp: kill_remaining_def send_signals_def process_list_def)
  qed (use old assms(4-6) in \<open>auto simp: set_phase_def set_child_def\<close>)
qed

lemma table_inv_over:
  assumes "supervisor_step v l w" "children_over v" "table_inv v"
  shows "table_inv w"
proof -
  have "signals w = []" if off: "sv_shutdown w = NoShutdown"
  proof -
    have v: "sv_shutdown v = NoShutdown" using shutdown_stays_on[OF assms(1)] off by blast
    then have "signals v = []" using assms(3) by (simp add: table_inv_def)
    with assms(1) v off show ?thesis
      by (cases rule: over_step_cases[OF assms(1,2)])
        (auto simp: set_phase_def set_child_def begin_shutdown_def kill_remaining_def send_signals_def Let_def
          split: if_splits)
  qed
  moreover
  have "process_list w = process_list v" "length (os_running w) = length (os_running v)"
    using over_step_table[OF assms(1,2)] by (simp_all add: process_list_def)
  moreover have "hs = process_list w" if "(\<exists>d. sv_shutdown w = WaitingForExit hs d) \<or> sv_shutdown w = WaitingForKilled hs" for hs
    using waits_over[OF assms(1,2) that] assms(3) calculation(2) by (auto simp: table_inv_def)
  moreover have "\<forall>h\<in>set (process_list v). h < length (os_running v)" using assms(3) by (simp add: table_inv_def)
  ultimately show ?thesis using waits_for_killed[OF assms] by (simp add: table_inv_def)
qed

lemma reap_task:
  "rs_task (reap t r s) u = (if u = t then TaskReaped r
     else if is_failure r \<and> \<not> group_aborting s \<and> rs_task s u = TaskRunning then TaskCancelRequested
     else rs_task s u)"
  "rs_phase (reap t r s) = rs_phase s"
  by (cases "is_failure r"; auto simp: reap_quiet is_failure_def reap_failure Let_def fold_request_task in_all_tasks)+

definition supervising :: "run_state \<Rightarrow> bool" where
  "supervising s \<longleftrightarrow> rs_task s SupervisorTask = TaskRunning \<or> rs_task s SupervisorTask = TaskCancelRequested"

lemma supervising_step:
  "run_step s l s' \<Longrightarrow> (\<forall>r. l \<noteq> TaskEnds SupervisorTask r) \<Longrightarrow> supervising s \<Longrightarrow> supervising s'"
  by (induction rule: run_step.induct)
    (auto simp: supervising_def trigger_shutdown_def cancel_workers_def fold_request_task reap_task)

lemma run_phase_step: "run_step s l s' \<Longrightarrow> rs_phase s \<noteq> InTaskGroup \<Longrightarrow> rs_phase s' \<noteq> InTaskGroup"
  by (induction rule: run_step.induct) (auto simp: trigger_shutdown_def cancel_workers_fields reap_task)

lemma run_done_step:
  "run_step s l s' \<Longrightarrow> (\<forall>r u. l \<noteq> ChildrenStopped r u) \<Longrightarrow> rs_phase s' = RunDone res \<Longrightarrow> rs_phase s = RunDone res"
  by (induction rule: run_step.induct) (auto simp: trigger_shutdown_def cancel_workers_fields reap_task)

lemma group_over: "run_inv s \<Longrightarrow> rs_phase s \<noteq> InTaskGroup \<Longrightarrow> \<not> supervising s"
proof -
  assume "run_inv s" "rs_phase s \<noteq> InTaskGroup"
  then have "is_reaped (rs_task s SupervisorTask)" by (simp add: run_inv_def)
  then show ?thesis by (auto simp: supervising_def)
qed

definition service_inv :: "service \<Rightarrow> bool" where
  "service_inv w \<longleftrightarrow> (case w of (s, v) \<Rightarrow> run_inv s \<and> supervisor_inv v \<and> late_spawns v = []
     \<and> (supervising s \<or> children_over v)
     \<and> (sv_shutdown v \<noteq> NoShutdown \<longrightarrow> rs_phase s \<noteq> InTaskGroup)
     \<and> (\<forall>res. rs_phase s = RunDone res \<longrightarrow> sv_shutdown v = ShutdownDone) \<and> table_inv v \<and> handles_ok v)"

lemma service_inv_D:
  assumes "service_inv (s, v)"
  shows "run_inv s" "supervisor_inv v" "late_spawns v = []" "supervising s \<or> children_over v"
    and "sv_shutdown v \<noteq> NoShutdown \<Longrightarrow> rs_phase s \<noteq> InTaskGroup"
    and "rs_phase s = RunDone res \<Longrightarrow> sv_shutdown v = ShutdownDone" and "table_inv v" and "handles_ok v"
  using assms by (simp_all add: service_inv_def)

lemma service_inv_I:
  assumes "run_inv s" "supervisor_inv v" "late_spawns v = []" "supervising s \<or> children_over v"
    and "sv_shutdown v \<noteq> NoShutdown \<Longrightarrow> rs_phase s \<noteq> InTaskGroup"
    and "\<And>res. rs_phase s = RunDone res \<Longrightarrow> sv_shutdown v = ShutdownDone" "table_inv v" "handles_ok v"
  shows "service_inv (s, v)"
  using assms by (auto simp: service_inv_def)

lemma service_inv_init: "service_init S C w \<Longrightarrow> service_inv w"
proof -
  assume "service_init S C w"
  then obtain p where p: "run_setup S C = Inr (Started p)" "w = (run_start, p_supervisor p)"
    by (auto simp: service_init_def)
  have "names_distinct (default_supervisor_config (build_sender_specs C))"
    by (simp add: names_distinct_def default_supervisor_config_def sender_names_distinct)
  note inv = inv_supervisor_init[OF this]
  show ?thesis
    by (rule run_setup_Started[OF p(1)])
      (use inv p(2) run_inv_start in \<open>simp add: service_inv_def run_start_def ProcessSupervisor_def supervising_def
        table_inv_def process_list_def handles_ok_def unreturned_def new_child_def\<close>)
qed

lemma service_inv_step: "service_step w l w' \<Longrightarrow> service_inv w \<Longrightarrow> service_inv w'"
proof (induction rule: service_step.induct)
  case (task s l s' v)
  then show ?case
    using run_inv_step[OF task(1)] supervising_step[OF task(1,2)] run_done_step[OF task(1,3)] run_phase_step[OF task(1)]
    by (auto simp: service_inv_def)
next
  case (supervisor_ends s r s' v)
  note run = supervisor_ends(1)
  from supervisor_ends show ?case
    using run_inv_step[OF run] run_done_step[OF run] run_phase_step[OF run] supervisor_result_over
    by (auto simp: service_inv_def)
next
  case (supervises v l v' s)
  note inv = service_inv_D[OF supervises(4)] and sup = supervises(1)
  show ?case
  proof (cases "sv_shutdown v = NoShutdown")
    case True
    have "supervising s \<or> children_over v'" using inv(4) over_step[OF sup] by blast
    moreover have "\<forall>res. rs_phase s \<noteq> RunDone res" using inv(6) True by fastforce
    ultimately show ?thesis
      by (intro service_inv_I[OF inv(1)]) (simp_all add: inv_supervisor_step[OF sup inv(2)] late_spawns_step[OF sup True]
          inv(3) shutdown_stays_off[OF sup supervises(2) True] table_inv_children[OF sup supervises(2) True inv(7,8)]
          handles_step[OF sup inv(8)])
  next
    case False
    have ph: "rs_phase s \<noteq> InTaskGroup" by (rule inv(5)[OF False])
    then have over: "children_over v" using inv(4) group_over[OF inv(1)] by blast
    have "stopping v" using inv(2) False by (simp add: supervisor_inv_def)
    then have "sv_shutdown v' = ShutdownDone" if "rs_phase s = RunDone res" for res
      using inv(6)[OF that] shutdown_done_stays[OF sup] by blast
    with ph show ?thesis
      by (intro service_inv_I[OF inv(1)]) (simp_all add: inv_supervisor_step[OF sup inv(2)] late_spawns_over[OF sup over]
          inv(3) over_step[OF sup over] table_inv_over[OF sup over inv(7)] handles_step[OF sup inv(8)])
  qed
next
  case (shuts_down s code v v')
  note inv = service_inv_D[OF shuts_down(3)] and sup = shuts_down(2)
  have over: "children_over v" using inv(4) group_over[OF inv(1)] shuts_down(1) by auto
  show ?case
    using shuts_down(1)
    by (intro service_inv_I[OF inv(1)]) (simp_all add: inv_supervisor_step[OF sup inv(2)] late_spawns_over[OF sup over]
        inv(3) over_step[OF sup over] table_inv_over[OF sup over inv(7)] handles_step[OF sup inv(8)])
next
  case (children_stopped v s unlinked s')
  note run = children_stopped(2)
  have "rs_phase s \<noteq> InTaskGroup" using run by (cases rule: run_step.cases) auto
  with children_stopped show ?case
    using run_inv_step[OF run] run_phase_step[OF run] group_over[of s] by (auto simp: service_inv_def)
qed

interpretation service: invariant_system "service_init S C" "\<lambda>w w'. \<exists>l. service_step w l w'" service_inv
  for S :: "'h surroundings" and C
  by unfold_locales (auto intro: service_inv_init service_inv_step)

lemma service_supervisor:
  assumes "service_reachable S C (s, v)"
  shows "supervisor_reachable (default_supervisor_config (build_sender_specs C)) v"
proof -
  let ?D = "default_supervisor_config (build_sender_specs C)"
  have "supervisor_reachable ?D (snd w)" if "service_reachable S C w" for w
    using that
  proof (induction rule: reachable.induct)
    case (reachable_init w)
    then obtain p where p: "run_setup S C = Inr (Started p)" "w = (run_start, p_supervisor p)"
      by (auto simp: service_init_def)
    have "names_distinct ?D" by (simp add: names_distinct_def default_supervisor_config_def sender_names_distinct)
    then have "supervisor_init ?D (p_supervisor p)"
      by - (rule run_setup_Started[OF p(1)], auto simp: supervisor_init_def)
    then show ?case unfolding p(2) by (simp add: reachable.reachable_init)
  next
    case (reachable_step w w')
    then obtain l where "service_step w l w'" by blast
    then have "snd w' = snd w \<or> (\<exists>l. supervisor_step (snd w) l (snd w'))"
      by (cases rule: service_step.cases) auto
    with reachable_step.IH show ?case
      by (auto intro: reachable.reachable_step[where init = "supervisor_init ?D"])
  qed
  from this[OF assms] show ?thesis by simp
qed

section \<open>Asked before killed\<close>

text \<open>The shutdown that asked the processes in \<open>asked\<close> to terminate kills none before \<open>t\<close>, and none else.\<close>

definition graceful :: "nat set \<Rightarrow> pyfloat \<Rightarrow> supervisor \<Rightarrow> bool" where
  "graceful asked t v \<longleftrightarrow> stopping v \<and> table_inv v \<and> children_over v
     \<and> (\<forall>h. Kill h \<in> set (signals v) \<longrightarrow> h \<in> asked \<and> t \<le> sv_now v)
     \<and> (\<forall>hs d. sv_shutdown v = WaitingForExit hs d \<longrightarrow> d = t)
     \<and> (\<forall>h\<in>set (process_list v). os_running v ! h \<longrightarrow> h \<in> asked)"

lemma graceful_step:
  assumes "supervisor_step v l w" "graceful asked t v"
  shows "graceful asked t w"
proof -
  have v: "children_over v" "table_inv v" "stopping v"
    "\<And>h. Kill h \<in> set (signals v) \<Longrightarrow> h \<in> asked \<and> t \<le> sv_now v"
    "\<And>hs d. sv_shutdown v = WaitingForExit hs d \<Longrightarrow> d = t"
    "\<And>h. h \<in> set (process_list v) \<Longrightarrow> os_running v ! h \<Longrightarrow> h \<in> asked"
    using assms(2) by (auto simp: graceful_def)
  note over = over_step[OF assms(1) v(1)] and table = table_inv_over[OF assms(1) v(1,2)]
  show ?thesis
    using assms(1) v(1)
  proof (cases rule: over_step_cases)
    case (exits h)
    then show ?thesis
      using v over table by (auto simp: graceful_def process_list_def nth_list_update split: if_splits)
  next
    case (cancel i)
    then show ?thesis using v over table by (auto simp: graceful_def process_list_def set_phase_def set_child_def)
  next
    case starts
    then have "w = v" using v(3) by (simp add: begin_shutdown_def)
    then show ?thesis using assms(2) by simp
  next
    case (kill hs deadline)
    have "hs = process_list v" "deadline = t"
      using v(2) v(5)[OF kill(2)] kill(2) by (auto simp: table_inv_def)
    then have "h \<in> asked \<and> t \<le> sv_now v" if "h \<in> set (process_list v)" "os_running v ! h" for h
      using v(6)[OF that] kill(3) that by auto
    then show ?thesis
      using v(3,4,6) over table kill(4)
      by (auto simp: graceful_def process_list_def kill_remaining_def send_signals_def)
  next
    case (killed hs)
    then show ?thesis using v over table by (auto simp: graceful_def process_list_def)
  next
    case (pass t')
    then show ?thesis using v over table by (fastforce simp: graceful_def process_list_def)
  qed
qed

lemma graceful_execution:
  "execution service_step w ls w' \<Longrightarrow> graceful asked t (snd w) \<Longrightarrow> graceful asked t (snd w')"
proof (induction rule: execution.induct)
  case (execution_snoc w ls w1 l w2)
  then have "graceful asked t (snd w1)" by blast
  with execution_snoc.hyps(2) show ?case by (cases rule: service_step.cases) (auto intro: graceful_step)
qed simp

lemma graceful_start:
  assumes "supervisor_step v BeginShutdown w" "\<not> stopping v" "children_over v" "table_inv v" "sv_shutdown v = NoShutdown"
  shows "graceful {h. Terminate h \<in> set (signals w)} (sv_now v + shutdown_timeout_seconds (sv_config v)) w"
proof -
  have w: "w = begin_shutdown v" using assms(1) by (cases rule: supervisor_step.cases) auto
  have "signals v = []" using assms(4,5) by (simp add: table_inv_def)
  then show ?thesis
    using over_step[OF assms(1,3)] table_inv_over[OF assms(1,3,4)] assms(2) unfolding w
    by (auto simp: graceful_def begin_shutdown_def Let_def kill_remaining_def send_signals_def process_list_def)
qed

section \<open>The service can always stop\<close>

text \<open>The process was sent a kill signal, by the shutdown or by the spawn that was cancelled.\<close>

definition was_killed :: "nat \<Rightarrow> supervisor \<Rightarrow> bool" where
  "was_killed h v \<longleftrightarrow> Kill h \<in> set (signals v) \<or> h \<in> set (spawn_kills v)"

text \<open>
  The steps of a service that gets no further signal and whose processes obey nothing but a kill:
  a process exits only after it was killed. \<open>leads w w'\<close>: such steps lead from \<open>w\<close> to \<open>w'\<close>.
\<close>

definition stubborn_step :: "service \<Rightarrow> service_label \<Rightarrow> service \<Rightarrow> bool" where
  "stubborn_step w l w' \<longleftrightarrow> service_step w l w' \<and> l \<noteq> Run SignalReceived
     \<and> (\<forall>h. l = Sup (ProcessExits h) \<longrightarrow> was_killed h (snd w))"

lemma stubborn_service: "execution stubborn_step w ls w' \<Longrightarrow> execution service_step w ls w'"
  by (induction rule: execution.induct) (auto simp: stubborn_step_def intro: execution_nil execution_snoc)

definition leads :: "service \<Rightarrow> service \<Rightarrow> bool" where
  "leads w w' \<longleftrightarrow> (\<exists>ls. execution stubborn_step w ls w')"

lemma leads_refl [intro]: "leads w w"
  unfolding leads_def by (rule exI[of _ "[]"]) (simp add: execution_nil)

lemma leads_one: "leads w w1 \<Longrightarrow> stubborn_step w1 l w2 \<Longrightarrow> leads w w2"
  unfolding leads_def by (auto intro: execution_snoc)

lemma leads_step:
  "leads w w1 \<Longrightarrow> service_step w1 l w2 \<Longrightarrow> l \<noteq> Run SignalReceived \<Longrightarrow> (\<forall>h. l \<noteq> Sup (ProcessExits h)) \<Longrightarrow> leads w w2"
  by (rule leads_one) (auto simp: stubborn_step_def)

lemma leads_exit:
  assumes "leads w (s, v)" "h < length (os_running v)" "was_killed h v"
  shows "leads w (s, v\<lparr>os_running := (os_running v)[h := False]\<rparr>)"
proof -
  have "service_step (s, v) (Sup (ProcessExits h)) (s, v\<lparr>os_running := (os_running v)[h := False]\<rparr>)"
    by (rule service_step.supervises[OF supervisor_step.process_exits[OF assms(2)]]) simp_all
  then show ?thesis using assms(3) by (intro leads_one[OF assms(1)]) (auto simp: stubborn_step_def)
qed

lemma leads_trans: "leads w w1 \<Longrightarrow> leads w1 w2 \<Longrightarrow> leads w w2"
  unfolding leads_def by (elim exE, rule exI, erule execution_append)

lemma leads_service: "leads w w' \<Longrightarrow> \<exists>ls. execution service_step w ls w'"
  unfolding leads_def by (elim exE, rule exI, erule stubborn_service)

lemma leads_inv: "leads w w' \<Longrightarrow> service_inv w \<Longrightarrow> service_inv w'"
proof -
  have "execution service_step w ls w' \<Longrightarrow> service_inv w \<Longrightarrow> service_inv w'" for ls
    by (induction rule: execution.induct) (auto intro: service_inv_step)
  then show "leads w w' \<Longrightarrow> service_inv w \<Longrightarrow> service_inv w'" using leads_service by blast
qed

text \<open>Cancelling one child's task: a spawn under way kills its process and waits for it first.\<close>

lemma child_can_be_cancelled:
  assumes inv: "service_inv (s, v)" and cr: "rs_task s SupervisorTask = TaskCancelRequested"
    and i: "i < length (children v)"
  shows "\<exists>v'. leads (s, v) (s, v') \<and> length (children v') = length (children v)
    \<and> (\<forall>j < length (children v). j = i \<or> task_over (ch_phase (children v ! j)) \<longrightarrow> task_over (ch_phase (children v' ! j)))"
proof -
  have cancelled: "\<exists>v'. leads (s, v) (s, v') \<and> length (children v') = length (children v)
      \<and> (\<forall>j < length (children v). j = i \<or> task_over (ch_phase (children v ! j)) \<longrightarrow> task_over (ch_phase (children v' ! j)))"
    if l: "leads (s, v) (s, v1)" and same: "length (children v1) = length (children v)"
      "\<forall>j. j \<noteq> i \<longrightarrow> children v1 ! j = children v ! j" and k: "ch_phase (children v1 ! i) = KillingSpawn h" for v1 h
  proof -
    have inv1: "handles_ok v1" by (rule service_inv_D(8)[OF leads_inv[OF l inv]])
    have h: "h < length (os_running v1)" "os_running v1 ! h \<Longrightarrow> was_killed h v1"
      using inv1 unreturned_nth[of i v1 h] i same(1) k by (auto simp: handles_ok_def was_killed_def)
    obtain v2 where v2: "leads (s, v) (s, v2)" "children v2 = children v1" "\<not> os_running v2 ! h"
    proof (cases "os_running v1 ! h")
      case True
      from leads_exit[OF l h(1) h(2)[OF True]] show ?thesis by (rule that) (simp_all add: h(1))
    qed (use l in \<open>auto intro: that\<close>)
    have "service_step (s, v2) (Sup (SpawnKilled i)) (s, set_phase i ChildCancelled v2)"
      by (rule service_step.supervises[OF supervisor_step.spawn_killed[where h = h]]) (use i same k v2 in simp_all)
    from leads_step[OF v2(1) this] v2(2) i same show ?thesis
      by (intro exI[of _ "set_phase i ChildCancelled v2"]) (auto simp: set_phase_def children_set_child)
  qed
  show ?thesis
  proof (cases "task_over (ch_phase (children v ! i))")
    case True
    then show ?thesis by (intro exI[of _ v]) (auto simp: leads_refl)
  next
    case False
    show ?thesis
    proof (cases "\<exists>h. ch_phase (children v ! i) = KillingSpawn h")
      case True
      then show ?thesis using cancelled[OF leads_refl] by blast
    next
      case no: False
      have "service_step (s, v) (Sup (CancelChild i)) (s, cancel_child_task i v)"
        by (rule service_step.supervises[OF supervisor_step.cancel_child[OF i]])
          (use False no in \<open>auto simp: cancels_children_def cr\<close>)
      then have l: "leads (s, v) (s, cancel_child_task i v)" by (rule leads_step[OF leads_refl]) simp_all
      have child: "length (children (cancel_child_task i v)) = length (children v)"
        "\<forall>j. j \<noteq> i \<longrightarrow> children (cancel_child_task i v) ! j = children v ! j"
        "ch_phase (children (cancel_child_task i v) ! i)
          = (case ch_phase (children v ! i) of Born st h \<Rightarrow> KillingSpawn h | _ \<Rightarrow> ChildCancelled)"
        using i by (auto simp: cancel_child_task_def set_phase_def children_set_child split: child_phase.splits)
      show ?thesis
      proof (cases "\<exists>st h. ch_phase (children v ! i) = Born st h")
        case True
        then show ?thesis using cancelled[OF l child(1,2)] child(3) by auto
      next
        case False
        then have "ch_phase (children (cancel_child_task i v) ! i) = ChildCancelled"
          unfolding child(3) by (auto split: child_phase.splits)
        then have "task_over (ch_phase (children (cancel_child_task i v) ! j))"
          if "j = i \<or> task_over (ch_phase (children v ! j))" for j
          using that child(2) by (cases "j = i") auto
        with l child(1) show ?thesis by (intro exI[of _ "cancel_child_task i v"]) auto
      qed
    qed
  qed
qed

text \<open>Cancelling the children's tasks one after the other.\<close>

lemma children_can_be_cancelled:
  assumes "service_inv (s, v)" "rs_task s SupervisorTask = TaskCancelRequested"
  shows "\<exists>v'. leads (s, v) (s, v') \<and> children_over v'"
proof -
  have "n \<le> length (children v) \<Longrightarrow> \<exists>v'. leads (s, v) (s, v') \<and> length (children v') = length (children v)
      \<and> (\<forall>i < n. task_over (ch_phase (children v' ! i)))" for n
  proof (induction n)
    case 0
    then show ?case by (intro exI[of _ v]) (simp add: leads_refl)
  next
    case (Suc n)
    then obtain v' where v': "leads (s, v) (s, v')" "length (children v') = length (children v)"
      "\<forall>i < n. task_over (ch_phase (children v' ! i))" by auto
    have n: "n < length (children v')" using Suc.prems v'(2) by simp
    from child_can_be_cancelled[OF leads_inv[OF v'(1) assms(1)] assms(2) n] obtain v2 where
      v2: "leads (s, v') (s, v2)" "length (children v2) = length (children v')"
      "\<forall>j < length (children v'). j = n \<or> task_over (ch_phase (children v' ! j)) \<longrightarrow> task_over (ch_phase (children v2 ! j))"
      by blast
    then show ?case
      using leads_trans[OF v'(1) v2(1)] v'(2,3) n by (intro exI[of _ v2]) (auto simp: less_Suc_eq)
  qed
  from this[of "length (children v)"] show ?thesis by (auto simp: children_over_def list_all_length)
qed

text \<open>The processes that were killed exit, and nothing else happens.\<close>

lemma killed_can_exit:
  assumes "\<forall>h\<in>set hs. h < length (os_running v) \<and> (os_running v ! h \<longrightarrow> Kill h \<in> set (signals v))"
  shows "\<exists>v'. leads (s, v) (s, v') \<and> sv_shutdown v' = sv_shutdown v \<and> (\<forall>h\<in>set hs. \<not> os_running v' ! h)"
proof -
  have "\<exists>v'. leads (s, v) (s, v') \<and> sv_shutdown v' = sv_shutdown v \<and> signals v' = signals v
      \<and> length (os_running v') = length (os_running v) \<and> (\<forall>h. os_running v' ! h \<longrightarrow> h < length (os_running v) \<longrightarrow> os_running v ! h)
      \<and> (\<forall>h\<in>set hs. \<not> os_running v' ! h)"
    using assms
  proof (induction hs)
    case Nil
    then show ?case by (intro exI[of _ v]) (simp add: leads_refl)
  next
    case (Cons h hs)
    then obtain v' where v': "leads (s, v) (s, v')" "sv_shutdown v' = sv_shutdown v" "signals v' = signals v"
      "length (os_running v') = length (os_running v)"
      "\<forall>h. os_running v' ! h \<longrightarrow> h < length (os_running v) \<longrightarrow> os_running v ! h" "\<forall>h\<in>set hs. \<not> os_running v' ! h" by auto
    show ?case
    proof (cases "os_running v' ! h")
      case True
      let ?w = "v'\<lparr>os_running := (os_running v')[h := False]\<rparr>"
      have h: "h < length (os_running v')" "was_killed h v'"
        using True Cons.prems v'(3-5) by (auto simp: was_killed_def)
      have old: "os_running ?w ! g \<Longrightarrow> os_running v' ! g" for g using h(1) by (auto simp: nth_list_update split: if_splits)
      have "\<not> os_running ?w ! h" using h(1) by simp
      with leads_exit[OF v'(1) h] v'(2-6) old show ?thesis by (intro exI[of _ ?w]) auto
    qed (use v' in auto)
  qed
  then show ?thesis by blast
qed

lemma shutdown_can_complete:
  assumes "service_inv (s, v)" "rs_phase s = StoppingChildren code"
  shows "\<exists>v'. leads (s, v) (s, v') \<and> sv_shutdown v' = ShutdownDone"
proof -
  have killed: "\<exists>v'. leads (s, v1) (s, v') \<and> sv_shutdown v' = ShutdownDone"
    if inv: "service_inv (s, v1)" and w: "sv_shutdown v1 = WaitingForKilled hs" for v1 hs
  proof -
    have "\<forall>h\<in>set hs. h < length (os_running v1) \<and> (os_running v1 ! h \<longrightarrow> Kill h \<in> set (signals v1))"
      using service_inv_D(7)[OF inv] w by (auto simp: table_inv_def)
    from killed_can_exit[OF this, of s] w obtain v2 where v2: "leads (s, v1) (s, v2)" "sv_shutdown v2 = WaitingForKilled hs"
      "\<forall>h\<in>set hs. \<not> os_running v2 ! h" by auto
    then have "supervisor_step v2 KillWaitOver (v2\<lparr>sv_shutdown := ShutdownDone\<rparr>)"
      by (intro supervisor_step.kill_wait_over[OF v2(2)])
    then have "service_step (s, v2) (Sup KillWaitOver) (s, v2\<lparr>sv_shutdown := ShutdownDone\<rparr>)"
      by (rule service_step.supervises) simp_all
    from leads_step[OF v2(1) this] show ?thesis by fastforce
  qed
  have asked: "\<exists>v'. leads (s, v1) (s, v') \<and> sv_shutdown v' = ShutdownDone"
    if inv: "service_inv (s, v1)" and w: "sv_shutdown v1 = WaitingForExit hs deadline" for v1 hs deadline
  proof -
    let ?v2 = "v1\<lparr>sv_now := max (sv_now v1) deadline\<rparr>"
    have "supervisor_step v1 (Pass (max (sv_now v1) deadline)) ?v2" by (rule supervisor_step.pass) simp
    then have "service_step (s, v1) (Sup (Pass (max (sv_now v1) deadline))) (s, ?v2)"
      by (rule service_step.supervises) simp_all
    from leads_step[OF leads_refl this] have l2: "leads (s, v1) (s, ?v2)" by simp
    have "supervisor_step ?v2 ExitWaitOver (kill_remaining ?v2)"
      by (rule supervisor_step.exit_wait_over[of _ hs deadline]) (simp_all add: w)
    then have "service_step (s, ?v2) (Sup ExitWaitOver) (s, kill_remaining ?v2)"
      by (rule service_step.supervises) simp_all
    from leads_step[OF l2 this] have l3: "leads (s, v1) (s, kill_remaining ?v2)" by simp
    have "sv_shutdown (kill_remaining ?v2) = WaitingForKilled (process_list ?v2)"
      by (simp add: kill_remaining_def process_list_def)
    with killed[OF leads_inv[OF l3 inv]] leads_trans[OF l3] show ?thesis by blast
  qed
  show ?thesis
  proof (cases "sv_shutdown v")
    case NoShutdown
    have "\<not> stopping v" using service_inv_D(2)[OF assms(1)] NoShutdown by (simp add: supervisor_inv_def)
    then have "(\<exists>hs d. sv_shutdown (begin_shutdown v) = WaitingForExit hs d)
        \<or> (\<exists>hs. sv_shutdown (begin_shutdown v) = WaitingForKilled hs)"
      by (simp add: begin_shutdown_def Let_def kill_remaining_def)
    moreover have "leads (s, v) (s, begin_shutdown v)"
      using leads_step[OF leads_refl service_step.shuts_down[OF assms(2) supervisor_step.begin_shutdown]] by simp
    ultimately show ?thesis using killed asked leads_inv[OF _ assms(1)] leads_trans by blast
  qed (use assms(1) killed asked leads_refl in blast)+
qed

lemma service_can_progress:
  assumes "service_inv (s, v)" "stopping_run s" "\<forall>res. rs_phase s \<noteq> RunDone res"
  shows "\<exists>s' v'. leads (s, v) (s', v') \<and> stopping_run s' \<and> run_measure s' < run_measure s"
proof -
  obtain l s1 where l: "forced s l" "run_step s l s1"
    using stopping_progress[OF service_inv_D(1)[OF assms(1)] assms(2)] assms(3) by blast
  then have ns: "l \<noteq> SignalReceived" by (simp add: forced_def)
  have lift: ?thesis if "leads (s, v) (s, v1)" "service_step (s, v1) (Run l') (s2, v1)" "run_step s l' s2"
    "l' \<noteq> SignalReceived" for l' s2 v1
    using leads_step[OF that(1,2)] stopping_step[OF that(3) assms(2)] measure_step[OF that(3,4)] that(4) by blast
  consider r where "l = TaskEnds SupervisorTask r" | r u where "l = ChildrenStopped r u"
    | "\<forall>r. l \<noteq> TaskEnds SupervisorTask r" "\<forall>r u. l \<noteq> ChildrenStopped r u" by blast
  then show ?thesis
  proof cases
    case 1
    have cr: "rs_task s SupervisorTask = TaskCancelRequested" using l(1) 1 by (simp add: forced_def)
    obtain v1 where v1: "leads (s, v) (s, v1)" "children_over v1" using children_can_be_cancelled[OF assms(1) cr] by blast
    obtain errors where e: "run_ended v1 = Some errors" using v1(2) by (auto simp: run_ended_def children_over_def)
    let ?r = "Inl (if errors = [] then CancelledError else RuntimeError)"
    have step: "run_step s (TaskEnds SupervisorTask ?r) (set_status SupervisorTask (TaskEnded ?r) s)"
      by (rule run_step.worker_ends) (simp_all add: worker_tasks_def cr)
    have "service_step (s, v1) (Run (TaskEnds SupervisorTask ?r)) (set_status SupervisorTask (TaskEnded ?r) s, v1)"
      by (rule service_step.supervisor_ends[OF step]) (simp add: supervisor_result_def e cr)
    from lift[OF v1(1) this step] show ?thesis by simp
  next
    case 2
    obtain code where code: "rs_phase s = StoppingChildren code"
      using l(2)[unfolded 2] by (cases rule: run_step.cases) auto
    obtain v1 where v1: "leads (s, v) (s, v1)" "sv_shutdown v1 = ShutdownDone"
      using shutdown_can_complete[OF assms(1) code] by blast
    have step: "run_step s (ChildrenStopped (Inr ()) (Inr ())) (s\<lparr>rs_phase := RunDone (finish_run (Inr ()) (Inr ()) code)\<rparr>)"
      by (rule run_step.children_stopped[OF code])
    from lift[OF v1(1) service_step.children_stopped[OF v1(2) step] step] show ?thesis by simp
  next
    case 3
    from lift[OF leads_refl service_step.task[OF l(2) 3] l(2) ns] show ?thesis .
  qed
qed

lemma service_can_end:
  assumes "service_inv (s, v)" "stopping_run s"
  shows "\<exists>s' v' res. leads (s, v) (s', v') \<and> rs_phase s' = RunDone res"
  using assms
proof (induction "run_measure s" arbitrary: s v rule: less_induct)
  case less
  show ?case
  proof (cases "\<exists>res. rs_phase s = RunDone res")
    case False
    then obtain s1 v1 where s1: "leads (s, v) (s1, v1)" "stopping_run s1" "run_measure s1 < run_measure s"
      using service_can_progress[OF less.prems] by blast
    from less.hyps[OF s1(3) leads_inv[OF s1(1) less.prems(1)] s1(2)] leads_trans[OF s1(1)] show ?thesis by blast
  qed blast
qed

section \<open>A service with one sender that is stopped by a signal\<close>

definition lone_config :: app_config where
  "lone_config = \<lparr>ac_paths = \<lparr>watch_path = Path ''/w'', socket_path = Path ''/s''\<rparr>,
     ac_pacing = \<lparr>rate_ceiling_bps = 2, rate_floor_bps = 1\<rparr>,
     ac_fec = \<lparr>fec_k = 1, fec_n = 2, symbol_bytes = 1\<rparr>,
     ac_senders = \<lparr>target_host = ''h'', base_port = 9000, binary_path = ''b'', sender_count = 1\<rparr>\<rparr>"

definition lone_start :: supervisor where
  "lone_start = ProcessSupervisor (default_supervisor_config (build_sender_specs lone_config)) 0"

definition lone_running :: supervisor where
  "lone_running = spawned 0 0 0 (process_born 0 0 (loop_top 0 lone_start))"

definition lone_cancelled :: supervisor where
  "lone_cancelled = cancel_child_task 0 lone_running"

definition cancelled_run :: run_state where
  "cancelled_run = cancel_workers (trigger_shutdown run_start)"

definition tasks_gone :: "run_label list" where
  "tasks_gone = [TaskCallback SupervisorTask, TaskEnds ServeTask (Inl CancelledError), TaskCallback ServeTask,
     TaskEnds IncomingTask (Inl CancelledError), TaskCallback IncomingTask,
     TaskEnds DetectionTask (Inl CancelledError), TaskCallback DetectionTask, TaskCallback CancelTask, GroupLeft]"

abbreviation lone_reachable :: "service \<Rightarrow> bool" where
  "lone_reachable \<equiv> service_reachable example_surroundings lone_config"

lemma lone_fields:
  "children lone_cancelled = [new_child\<lparr>ch_phase := ChildCancelled\<rparr>]" "os_running lone_cancelled = [True]"
  "processes lone_cancelled = [(''sender-0'', 0)]" "stopping lone_cancelled = False" "sv_now lone_cancelled = 0"
  "signals lone_cancelled = []" "shutdown_timeout_seconds (sv_config lone_cancelled) = 5"
  by code_simp+

lemma lone_init: "service_init example_surroundings lone_config (run_start, lone_start)"
proof -
  have "\<exists>p. run_setup example_surroundings lone_config = Inr (Started p)"
    by (simp add: run_setup_def example_surroundings_def compute_proto_hash_def glob_proto_def INotifyEvents_def
        res_simps)
  then obtain p where p: "run_setup example_surroundings lone_config = Inr (Started p)" ..
  have "p_supervisor p = lone_start"
    by (rule run_setup_Started[OF p]) (simp add: lone_start_def example_surroundings_def)
  with p show ?thesis by (auto simp: service_init_def)
qed

lemma lone_step: "lone_reachable w \<Longrightarrow> service_step w l w' \<Longrightarrow> lone_reachable w'"
  by (rule reachable_step) auto

lemma lone_supervises:
  "lone_reachable (s, v) \<Longrightarrow> supervisor_step v l v' \<Longrightarrow> l \<noteq> BeginShutdown \<Longrightarrow>
    (\<forall>i. l = CancelChild i \<longrightarrow> cancels_children s v) \<Longrightarrow> lone_reachable (s, v')"
  by (rule lone_step, assumption, rule service_step.supervises)

lemma reachable_attempts:
  "attempts s ls = Some s' \<Longrightarrow> list_all (\<lambda>l. \<forall>r u. l \<noteq> TaskEnds SupervisorTask r \<and> l \<noteq> ChildrenStopped r u) ls \<Longrightarrow>
    lone_reachable (s, v) \<Longrightarrow> lone_reachable (s', v)"
proof (induction s ls rule: attempts.induct)
  case (2 s l ls)
  then obtain s1 where s1: "attempt s l = Some s1" "attempts s1 ls = Some s'" by (auto split: option.splits)
  have "service_step (s, v) (Run l) (s1, v)"
    by (rule service_step.task[OF attempt_step[OF s1(1)]]) (use 2(3) in auto)
  from lone_step[OF 2(4) this] 2(1)[OF s1] 2(3) show ?case by simp
qed simp

lemma lone_cancelled_reachable: "lone_reachable (cancelled_run, lone_cancelled)"
proof -
  have "lone_reachable (run_start, lone_start)" by (rule reachable_init) (rule lone_init)
  moreover have "supervisor_step lone_start (StartChild 0) (loop_top 0 lone_start)"
    by (rule supervisor_step.start_child) code_simp+
  ultimately have "lone_reachable (run_start, loop_top 0 lone_start)" by (rule lone_supervises) simp_all
  moreover have "supervisor_step (loop_top 0 lone_start) (ProcessBorn 0) (process_born 0 0 (loop_top 0 lone_start))"
    by (rule supervisor_step.process_born) code_simp+
  ultimately have "lone_reachable (run_start, process_born 0 0 (loop_top 0 lone_start))" by (rule lone_supervises) simp_all
  moreover have "supervisor_step (process_born 0 0 (loop_top 0 lone_start)) (SpawnReturns 0) lone_running"
    unfolding lone_running_def by (rule supervisor_step.spawn_returns) code_simp+
  ultimately have running: "lone_reachable (run_start, lone_running)" by (rule lone_supervises) simp_all
  have "attempts run_start [SignalReceived, CancellerWakes] = Some cancelled_run"
    by (simp add: attempt_def cancelled_run_def run_start_def trigger_shutdown_def)
  from reachable_attempts[OF this _ running] have "lone_reachable (cancelled_run, lone_running)" by simp
  moreover have cr: "rs_task cancelled_run SupervisorTask = TaskCancelRequested" by code_simp
  have "supervisor_step lone_running (CancelChild 0) lone_cancelled"
    unfolding lone_cancelled_def
  proof (rule supervisor_step.cancel_child)
    show "0 < length (children lone_running)" by code_simp
    have "ch_phase (children lone_running ! 0) = Awaiting 0 0" by code_simp
    then show "ch_phase (children lone_running ! 0) \<notin> {Returned} \<union> range ChildRaised \<union> range KillingSpawn" by auto
  qed
  ultimately show ?thesis by (rule lone_supervises) (simp_all add: cancels_children_def cr)
qed

lemma lone_stopping:
  "\<exists>s. lone_reachable (s, lone_cancelled) \<and> rs_phase s = StoppingChildren 0 \<and> shutdown_event s"
proof -
  let ?s = "set_status SupervisorTask (TaskEnded (Inl CancelledError)) cancelled_run"
  have cr: "rs_task cancelled_run SupervisorTask = TaskCancelRequested" by code_simp
  then have "run_step cancelled_run (TaskEnds SupervisorTask (Inl CancelledError)) ?s"
    by (intro run_step.worker_ends) (simp_all add: worker_tasks_def)
  then have "service_step (cancelled_run, lone_cancelled) (Run (TaskEnds SupervisorTask (Inl CancelledError)))
      (?s, lone_cancelled)"
    by (rule service_step.supervisor_ends) (simp add: supervisor_result_def run_ended_def lone_fields cr)
  from lone_step[OF lone_cancelled_reachable this] have r: "lone_reachable (?s, lone_cancelled)" .
  have "map_option (\<lambda>s. (rs_phase s, shutdown_event s)) (attempts ?s tasks_gone) = Some (StoppingChildren 0, True)"
    by code_simp
  then obtain s where s: "attempts ?s tasks_gone = Some s" "rs_phase s = StoppingChildren 0" "shutdown_event s" by auto
  have "lone_reachable (s, lone_cancelled)" by (rule reachable_attempts[OF s(1) _ r]) (simp add: tasks_gone_def)
  with s show ?thesis by blast
qed

lemma lone_leads: "leads w w' \<Longrightarrow> lone_reachable w \<Longrightarrow> lone_reachable w'"
  by (drule leads_service) (elim exE, erule execution_reachable)

lemma os_running_grows: "supervisor_step v l w \<Longrightarrow> length (os_running v) \<le> length (os_running w)"
  by (induction rule: supervisor_step.induct)
    (simp_all add: loop_top_def set_phase_def process_waited_def process_born_def spawner_spawn_def cancel_child_task_def
      split: child_phase.splits)

lemma leads_running: "leads w w' \<Longrightarrow> length (os_running (snd w)) \<le> length (os_running (snd w'))"
proof -
  have "execution service_step w ls w' \<Longrightarrow> length (os_running (snd w)) \<le> length (os_running (snd w'))" for ls
  proof (induction rule: execution.induct)
    case (execution_snoc w ls w1 l w2)
    have "length (os_running (snd w1)) \<le> length (os_running (snd w2))"
      using execution_snoc.hyps(2) by (cases rule: service_step.cases) (simp_all add: os_running_grows)
    with execution_snoc.IH show ?case by linarith
  qed simp
  then show "leads w w' \<Longrightarrow> length (os_running (snd w)) \<le> length (os_running (snd w'))" using leads_service by blast
qed

text \<open>Its process does not react to the terminate signal and is killed.\<close>

definition lone_killed :: supervisor where
  "lone_killed = kill_remaining ((begin_shutdown lone_cancelled)\<lparr>sv_now := 5\<rparr>)"

lemma lone_killed_fields:
  "signals (begin_shutdown lone_cancelled) = [Terminate 0]" "signals lone_killed = [Terminate 0, Kill 0]"
  "sv_now lone_killed = 5" "sv_shutdown (begin_shutdown lone_cancelled) = WaitingForExit [0] 5"
  "sv_now (begin_shutdown lone_cancelled) = 0"
  by code_simp+

lemma lone_killed_execution:
  "execution service_step (s, begin_shutdown lone_cancelled) [Sup (Pass 5), Sup ExitWaitOver] (s, lone_killed)"
proof -
  let ?v1 = "begin_shutdown lone_cancelled"
  have "supervisor_step ?v1 (Pass 5) (?v1\<lparr>sv_now := 5\<rparr>)"
    by (rule supervisor_step.pass) (simp add: lone_killed_fields)
  then have waits: "service_step (s, ?v1) (Sup (Pass 5)) (s, ?v1\<lparr>sv_now := 5\<rparr>)"
    by (rule service_step.supervises) simp_all
  have "supervisor_step (?v1\<lparr>sv_now := 5\<rparr>) ExitWaitOver lone_killed"
    unfolding lone_killed_def
    by (rule supervisor_step.exit_wait_over[of _ "[0]" 5]) (simp_all add: lone_killed_fields)
  then have kills: "service_step (s, ?v1\<lparr>sv_now := 5\<rparr>) (Sup ExitWaitOver) (s, lone_killed)"
    by (rule service_step.supervises) simp_all
  show ?thesis by (rule execution_Cons, rule waits, rule execution_Cons, rule kills, rule execution_nil)
qed

section \<open>A task that failed decides the exit code\<close>

lemma ended_step:
  "run_step s l s' \<Longrightarrow> rs_task s t = TaskEnded r \<or> rs_task s t = TaskReaped r \<Longrightarrow>
    rs_task s' t = TaskEnded r \<or> rs_task s' t = TaskReaped r"
  by (induction rule: run_step.induct)
    (auto simp: trigger_shutdown_def cancel_workers_def fold_request_task reap_task)

lemma failed_task_exit_code:
  assumes "execution run_step s ls s'" "run_reachable s" "rs_task s t = TaskEnded (Inl e)" "e \<noteq> CancelledError"
    and "rs_phase s' = RunDone (Inr code)"
  shows "code = 1"
proof -
  have inv: "run_inv s'" by (rule task_group.inv_reachable[OF execution_reachable[OF assms(1,2)]])
  have "rs_task s' t = TaskEnded (Inl e) \<or> rs_task s' t = TaskReaped (Inl e)"
    using assms(1,3) by (induction rule: execution.induct) (auto dest: ended_step)
  moreover have "is_reaped (rs_task s' t)" using inv assms(5) by (simp add: run_inv_def)
  ultimately have "reaped_with s' (Inl e)" by (auto simp: reaped_with_def)
  then have "e \<in> set (group_errors s')" using inv assms(4) by (auto simp: run_inv_def)
  with inv assms(5) show ?thesis by (auto simp: run_inv_def exit_code_def)
qed

lemma attempts_execution: "attempts s ls = Some s' \<Longrightarrow> execution run_step s ls s'"
proof (induction s ls rule: attempts.induct)
  case (2 s l ls)
  then obtain s1 where "attempt s l = Some s1" "attempts s1 ls = Some s'" by (auto split: option.splits)
  with 2 show ?case by (auto intro: execution_Cons[of run_step] attempt_step)
qed (simp add: execution_nil)

section \<open>Properties\<close>

text \<open>C5: No sender process outlives the service: from the moment the task group is left no process is
  started and every one that runs is in the table the shutdown reads, and when \<open>run\<close> has returned or
  raised none of the processes it ever started runs, whatever signals, failures, crashes, restarts and
  timeouts came before and however the tasks interleaved.\<close>

theorem no_sender_outlives_the_service:
  assumes "service_reachable S C (s, v)" "rs_phase s \<noteq> InTaskGroup"
  shows "(\<forall>l w. service_step (s, v) l w \<longrightarrow> length (os_running (snd w)) = length (os_running v))
    \<and> (\<forall>h. runs v h \<longrightarrow> h \<in> set (process_list v) \<and> (\<forall>res. rs_phase s \<noteq> RunDone res))"
proof (intro conjI allI impI)
  have inv: "service_inv (s, v)" by (rule service.inv_reachable[OF assms(1)])
  have over: "children_over v" using service_inv_D(4)[OF inv] group_over[OF service_inv_D(1)[OF inv] assms(2)] by blast
  show "length (os_running (snd w)) = length (os_running v)" if "service_step (s, v) l w" for l w
  proof -
    have "supervisor_step v l' v' \<Longrightarrow> length (os_running v') = length (os_running v)" for l' v'
      using over_step_table over by blast
    with that show ?thesis by (cases rule: service_step.cases) simp_all
  qed
  show "h \<in> set (process_list v)" if "runs v h" for h
    by (rule running_registered[OF service_inv_D(2)[OF inv] that]) (simp add: over_unreturned[OF over])
  show "rs_phase s \<noteq> RunDone res" if "runs v h" for h res
  proof
    assume "rs_phase s = RunDone res"
    from service_inv_D(6)[OF inv this] service_inv_D(2,3)[OF inv] that over_unreturned[OF over] show False
      by (simp add: supervisor_inv_def)
  qed
qed

theorem no_sender_outlives_the_service_witness:
  "\<exists>s v res. lone_reachable (s, v) \<and> rs_phase s = RunDone res \<and> 0 < length (os_running v) \<and> \<not> runs v 0"
proof -
  obtain s where s: "lone_reachable (s, lone_cancelled)" "shutdown_event s" using lone_stopping by blast
  have "service_inv (s, lone_cancelled)" by (rule service.inv_reachable[OF s(1)])
  then obtain s' v' res where e: "leads (s, lone_cancelled) (s', v')" "rs_phase s' = RunDone res"
    using service_can_end s(2) by (fastforce simp: stopping_run_def)
  have "rs_phase s' \<noteq> InTaskGroup" using e(2) by simp
  from no_sender_outlives_the_service[OF lone_leads[OF e(1) s(1)] this] e(2) have "\<not> runs v' 0" by blast
  moreover have "0 < length (os_running v')" using leads_running[OF e(1)] by (simp add: lone_fields Suc_le_eq)
  ultimately show ?thesis using lone_leads[OF e(1) s(1)] e(2) by blast
qed

text \<open>C13: A process is asked before it is killed: when \<open>shutdown\<close> begins it sends a terminate signal to what
  runs, and a process is killed later only if it was sent that signal and the five seconds of grace have
  passed.\<close>

theorem killed_only_after_grace:
  assumes "service_reachable S C (s0, v0)" "\<not> stopping v0"
    and "service_step (s0, v0) (Sup BeginShutdown) (s0, v1)"
    and "execution service_step (s0, v1) ls (s, v)" "Kill h \<in> set (signals v)"
  shows "Terminate h \<in> set (signals v1) \<and> sv_now v0 + SHUTDOWN_TIMEOUT_SECONDS \<le> sv_now v"
proof -
  have inv: "service_inv (s0, v0)" by (rule service.inv_reachable[OF assms(1)])
  have step: "supervisor_step v0 BeginShutdown v1" and ph: "rs_phase s0 \<noteq> InTaskGroup"
    using assms(3) by (cases rule: service_step.cases; auto)+
  have over: "children_over v0" using service_inv_D(4)[OF inv] group_over[OF service_inv_D(1)[OF inv] ph] by blast
  have off: "sv_shutdown v0 = NoShutdown"
    using service_inv_D(2)[OF inv] assms(2) by (simp add: supervisor_inv_def)
  have "sv_config v0 = default_supervisor_config (build_sender_specs C)"
    using supervisor_reachable_inv[OF service_supervisor[OF assms(1)]] by blast
  then have T: "shutdown_timeout_seconds (sv_config v0) = SHUTDOWN_TIMEOUT_SECONDS"
    by (simp add: default_supervisor_config_def)
  note start = graceful_start[OF step assms(2) over service_inv_D(7)[OF inv] off]
  have "graceful {h. Terminate h \<in> set (signals v1)} (sv_now v0 + SHUTDOWN_TIMEOUT_SECONDS) (snd (s, v))"
    by (rule graceful_execution[OF assms(4)]) (use start T in simp)
  with assms(5) show ?thesis by (simp add: graceful_def)
qed

theorem killed_only_after_grace_witness:
  "Kill 0 \<in> set (signals lone_killed) \<and> Terminate 0 \<in> set (signals (begin_shutdown lone_cancelled))
    \<and> sv_now lone_cancelled + SHUTDOWN_TIMEOUT_SECONDS \<le> sv_now lone_killed"
proof -
  obtain s where s: "lone_reachable (s, lone_cancelled)" "rs_phase s = StoppingChildren 0" using lone_stopping by blast
  have step: "service_step (s, lone_cancelled) (Sup BeginShutdown) (s, begin_shutdown lone_cancelled)"
    by (rule service_step.shuts_down[OF s(2) supervisor_step.begin_shutdown])
  have go: "\<not> stopping lone_cancelled" and kill: "Kill 0 \<in> set (signals lone_killed)"
    by (simp_all add: lone_fields lone_killed_fields)
  from killed_only_after_grace[OF s(1) go step lone_killed_execution kill] kill show ?thesis by blast
qed

text \<open>C12: The service can always be stopped, even with processes that react to nothing but a kill: once a
  signal arrived or a task failed, from every state it can be in, the steps of its tasks and the passing
  of time lead to the end of \<open>run\<close> with no sender process left, without another signal and with no process
  exiting that was not killed before, by the shutdown or by the spawn that was cancelled.\<close>

theorem service_can_always_stop:
  assumes "service_reachable S C (s, v)" "shutdown_event s \<or> group_aborting s"
  shows "\<exists>ls s' v' res. execution (\<lambda>w l w'. service_step w l w' \<and> l \<noteq> Run SignalReceived
        \<and> (\<forall>h. l = Sup (ProcessExits h) \<longrightarrow> was_killed h (snd w))) (s, v) ls (s', v')
    \<and> rs_phase s' = RunDone res \<and> (\<forall>h. \<not> runs v' h)"
proof -
  have inv: "service_inv (s, v)" by (rule service.inv_reachable[OF assms(1)])
  obtain s' v' res where e: "leads (s, v) (s', v')" "rs_phase s' = RunDone res"
    using service_can_end[OF inv] assms(2) by (auto simp: stopping_run_def)
  note inv' = leads_inv[OF e(1) inv]
  have "unreturned v' = {}"
    using service_inv_D(4)[OF inv'] group_over[OF service_inv_D(1)[OF inv']] e(2) over_unreturned by auto
  then have "\<not> runs v' h" for h
    using service_inv_D(6)[OF inv' e(2)] service_inv_D(2,3)[OF inv'] by (simp add: supervisor_inv_def)
  with e show ?thesis unfolding leads_def stubborn_step_def by blast
qed

theorem service_can_always_stop_witness:
  "runs lone_cancelled 0 \<and> signals lone_cancelled = [] \<and> (\<exists>ls s' v' res.
    execution (\<lambda>w l w'. service_step w l w' \<and> l \<noteq> Run SignalReceived
        \<and> (\<forall>h. l = Sup (ProcessExits h) \<longrightarrow> was_killed h (snd w))) (cancelled_run, lone_cancelled) ls (s', v')
    \<and> rs_phase s' = RunDone res \<and> \<not> runs v' 0)"
proof -
  have "shutdown_event cancelled_run" by code_simp
  then have "shutdown_event cancelled_run \<or> group_aborting cancelled_run" ..
  moreover have "runs lone_cancelled 0" "signals lone_cancelled = []" by (simp_all add: runs_def lone_fields)
  ultimately show ?thesis using service_can_always_stop[OF lone_cancelled_reachable] by blast
qed

text \<open>C36: One malformed message of a connected sender ends the service: when the server has taken a message
  that does not decode, the message loop raises after the messages before it, whatever comes later, and
  once its task has ended so, \<open>run\<close> cannot return anything but the exit code 1.\<close>

theorem undecodable_message_ends_service:
  assumes "c < length (conns u)" "c_phase (conns u ! c) = Reading" "c_sender (conns u ! c) = Some sender"
    and "length (incoming u) < INCOMING_QUEUE_MAXSIZE" "sock_recv packet \<noteq> []"
    and "decode pb (sock_recv packet) = Inl e" "e \<noteq> CancelledError"
    and "run_incoming_dispatch_loop pb (arrivals_of t (incoming u)) w = (Inr (), w1)"
    and "run_reachable s"
  shows "\<exists>u'. uds_step pb u (Recv c packet) u'
    \<and> (\<forall>later. run_incoming_dispatch_loop pb (arrivals_of t (incoming u' @ later)) w = (Inl e, w1))
    \<and> (\<forall>s1 ls s2 code. run_step s (TaskEnds IncomingTask (Inl e)) s1 \<and> execution run_step s1 ls s2
        \<and> rs_phase s2 = RunDone (Inr code) \<longrightarrow> code = 1)"
proof -
  obtain u' where u': "uds_step pb u (Recv c packet) u'"
    "\<forall>later. run_incoming_dispatch_loop pb (arrivals_of t (incoming u' @ later)) w = (Inl e, w1)"
    using undecodable_message_ends_incoming_loop[OF assms(1-6,8)] by blast
  have "code = 1" if "run_step s (TaskEnds IncomingTask (Inl e)) s1" "execution run_step s1 ls s2"
    "rs_phase s2 = RunDone (Inr code)" for s1 ls s2 code
  proof -
    have "run_reachable s1" by (rule reachable_step[OF assms(9)]) (use that(1) in blast)
    moreover have "rs_task s1 IncomingTask = TaskEnded (Inl e)" using that(1) by (cases rule: run_step.cases) auto
    ultimately show ?thesis using failed_task_exit_code[OF that(2) _ _ assms(7) that(3)] by blast
  qed
  with u' show ?thesis by blast
qed

theorem undecodable_message_ends_service_witness:
  "\<exists>u' s1 s2. uds_step unary_protobuf connected_once (Recv 0 (pb_serialize unary_protobuf None)) u'
    \<and> run_step run_start (TaskEnds IncomingTask (Inl (ValueError EnvelopeEmpty))) s1
    \<and> execution run_step s1 (tl failing_run) s2 \<and> rs_phase s2 = RunDone (Inr 1)"
proof -
  let ?w = "\<lparr>w_registry = SenderRegistry 5, w_ipc = (), dispatched_sessions = [], w_trace = []\<rparr>"
  let ?packet = "pb_serialize unary_protobuf None" and ?r = "Inl (ValueError EnvelopeEmpty)"
  let ?s1 = "set_status IncomingTask (TaskEnded ?r) run_start"
  obtain w1 where run: "run_incoming_dispatch_loop unary_protobuf (arrivals_of 3 (incoming connected_once)) ?w
      = (Inr (), w1)"
    by (simp add: connected_once_eq arrivals_of_def handle_incoming_def decode_hello_bytes handlers_get
        handle_sender_hello_def)
  have raw: "sock_recv ?packet \<noteq> []" "decode unary_protobuf (sock_recv ?packet) = ?r"
    by (simp_all add: sock_recv_def RECV_BUFFER_BYTES_def decode_def unary_protobuf_def)
  have conn: "0 < length (conns connected_once)" "c_phase (conns connected_once ! 0) = Reading"
    "c_sender (conns connected_once ! 0) = Some 7" "length (incoming connected_once) < INCOMING_QUEUE_MAXSIZE"
    by (simp_all add: connected_once_eq INCOMING_QUEUE_MAXSIZE_def)
  have e: "ValueError EnvelopeEmpty \<noteq> CancelledError" by simp
  have start: "run_reachable run_start" by (rule reachable_init) (rule refl)
  have step: "run_step run_start (TaskEnds IncomingTask ?r) ?s1"
    by (rule run_step.worker_ends) (simp_all add: worker_tasks_def run_start_def)
  have "map_option rs_phase (attempts ?s1 (tl failing_run)) = Some (RunDone (Inr 1))" by code_simp
  then obtain s2 code where s2: "attempts ?s1 (tl failing_run) = Some s2" "rs_phase s2 = RunDone (Inr code)" by auto
  note exec = attempts_execution[OF s2(1)]
  from undecodable_message_ends_service[OF conn raw e run start] step exec s2(2) show ?thesis by metis
qed

end
