(* ===== verification/Intake.thy ===== *)
theory Intake imports Inotify Watcher Loops begin

text \<open>
  The way of a file from the directory to the dispatcher: the inotify adapter feeds
  \<open>DirectoryWatcher._consume_raw_events\<close>, whose yields \<open>_run_detection_pipeline\<close> of \<open>main.py\<close> reads.
  The events of the adapter are the \<open>RawEvent\<close> steps of the watcher, in the order of the adapter's
  yields, and the items of the pipeline are the paths the watcher has yielded.
\<close>

section \<open>What the adapter yields is what the watcher saw\<close>

fun raw_paths :: "watch_label list \<Rightarrow> path list" where
  "raw_paths [] = []"
| "raw_paths (RawEvent p # ls) = p # raw_paths ls"
| "raw_paths (_ # ls) = raw_paths ls"

fun seen_paths :: "watch_event list \<Rightarrow> path list" where
  "seen_paths [] = []"
| "seen_paths (Seen p t # es) = p # seen_paths es"
| "seen_paths (Emitted p t # es) = seen_paths es"

lemma raw_paths_append [simp]: "raw_paths (xs @ ys) = raw_paths xs @ raw_paths ys"
  by (induction xs rule: raw_paths.induct) simp_all

lemma seen_paths_append [simp]: "seen_paths (xs @ ys) = seen_paths xs @ seen_paths ys"
  by (induction xs rule: seen_paths.induct) simp_all

lemma seen_step:
  "watch_step w l w' \<Longrightarrow> seen_paths (watch_log w') = seen_paths (watch_log w) @ raw_paths [l]"
  by (induction rule: watch_step.induct)
    (simp_all add: emit_when_stable_def consumer_done_def Let_def split: consumer_state.splits)

lemma seen_execution:
  "execution watch_step w ls w' \<Longrightarrow> seen_paths (watch_log w') = seen_paths (watch_log w) @ raw_paths ls"
  by (induction rule: execution.induct) (simp_all add: seen_step)

lemma listen_events_yields:
  assumes "listen_events F wp reads = (ps, Inr ())"
    and "\<forall>rd\<in>set reads. \<not> rd_closed_before rd \<and> \<not> rd_closed_after rd"
    and "rd \<in> set reads" "rd_events rd = Inr events" "(event, listing) \<in> set events"
    and "ev_mask event AND Q_OVERFLOW F = 0" "ev_mask event AND (CLOSE_WRITE F OR MOVED_TO F) \<noteq> 0"
  shows "joinpath wp (Path (ev_name event)) \<in> set ps"
proof -
  obtain qs where qs: "yield_events F wp events = (qs, Inr ())" "set qs \<subseteq> set ps"
    using listen_events_Inr[OF assms(1,3,2)] assms(4) by auto
  have "qs = concat (map (event_paths F wp) events)" using yield_events_paths[OF qs(1)] by simp
  moreover have "joinpath wp (Path (ev_name event)) \<in> set (event_paths F wp (event, listing))"
    using assms(6,7) by (simp add: event_paths_def)
  ultimately show ?thesis using assms(5) qs(2) by auto
qed

section \<open>Emissions and their place in the order\<close>

lemma emitted_at:
  "emitted_paths evs = ys @ rest \<Longrightarrow> i < length ys \<Longrightarrow>
    \<exists>pre t post. evs = pre @ Emitted (ys ! i) t # post \<and> length (emitted_paths pre) = i"
proof (induction evs arbitrary: ys i)
  case (Cons e evs)
  show ?case
  proof (cases e)
    case (Seen q u)
    with Cons obtain pre t post where "evs = pre @ Emitted (ys ! i) t # post" "length (emitted_paths pre) = i"
      by fastforce
    with Seen show ?thesis by (intro exI[of _ "e # pre"]) auto
  next
    case (Emitted q u)
    with Cons.prems obtain ys' where ys: "ys = q # ys'" "emitted_paths evs = ys' @ rest"
      by (cases ys) auto
    show ?thesis
    proof (cases i)
      case 0
      with Emitted ys show ?thesis by (intro exI[of _ "[]"]) auto
    next
      case (Suc j)
      with Cons ys obtain pre t post where "evs = pre @ Emitted (ys' ! j) t # post" "length (emitted_paths pre) = j"
        by fastforce
      with Emitted ys Suc show ?thesis by (intro exI[of _ "e # pre"]) auto
    qed
  qed
qed simp

text \<open>A path whose last event was followed by an emission.\<close>

definition settled :: "path \<Rightarrow> watch_event list \<Rightarrow> bool" where
  "settled p evs \<longleftrightarrow> (\<exists>pre t post. evs = pre @ Emitted p t # post \<and> p \<notin> set (seen_paths post))"

lemma seen_settled_or_open:
  "p \<in> set (seen_paths evs) \<Longrightarrow> settled p evs \<or> open_burst p evs \<noteq> None"
proof (induction evs rule: rev_induct)
  case (snoc e evs)
  show ?case
  proof (cases "open_burst p (evs @ [e]) = None")
    case closed: True
    show ?thesis
    proof (cases "\<exists>t. e = Emitted p t")
      case True
      then obtain t where "evs @ [e] = evs @ Emitted p t # []" by auto
      then have "settled p (evs @ [e])" unfolding settled_def by fastforce
      then show ?thesis by blast
    next
      case False
      with closed have "open_burst p evs = None" "p \<notin> set (seen_paths [e])"
        by (cases e; auto split: if_splits)+
      with snoc obtain pre t post where "evs = pre @ Emitted p t # post" "p \<notin> set (seen_paths (post @ [e]))"
        by (auto simp: settled_def)
      then have "evs @ [e] = pre @ Emitted p t # (post @ [e])" "p \<notin> set (seen_paths (post @ [e]))" by simp_all
      then have "settled p (evs @ [e])" unfolding settled_def by blast
      then show ?thesis by blast
    qed
  qed blast
qed simp

section \<open>The listener drains its queue\<close>

fun internal :: "watch_label \<Rightarrow> bool" where
  "internal (RawEvent p) = False"
| "internal (ConsumerStops c) = False"
| "internal NoticeConsumer = False"
| "internal CloseListen = False"
| "internal l = True"

definition listening_on :: "watcher \<Rightarrow> bool" where
  "listening_on w \<longleftrightarrow> watch_inv w \<and> consumer w = ConsumerRunning \<and> \<not> is_stopped w"

lemma listening_internal:
  assumes "watch_step w l w'" "internal l" "listening_on w"
  shows "listening_on w'"
proof -
  have "watch_inv w'" using inv_watch_step[OF assms(1)] assms(3) by (simp add: listening_on_def)
  with assms show ?thesis
    by (cases rule: watch_step.cases)
      (auto simp: listening_on_def is_stopped_def emit_when_stable_def Let_def)
qed

lemma listening_execution:
  "execution watch_step w ls w' \<Longrightarrow> list_all internal ls \<Longrightarrow> listening_on w \<Longrightarrow> listening_on w'"
  by (induction rule: execution.induct) (auto intro: listening_internal)

lemma yield_steps:
  "listen_at w = Holding p \<Longrightarrow> consumer w = ConsumerRunning \<Longrightarrow>
    execution watch_step w [YieldPath, ResumeListen] (w\<lparr>yielded := yielded w @ [p], listen_at := Waiting\<rparr>)"
  using watch_step.resume_listen[of "w\<lparr>yielded := yielded w @ [p], listen_at := Suspended\<rparr>"]
  by (auto intro!: execution_Cons execution_nil watch_step.yield_path)

lemma resume_step:
  "listen_at w = Suspended \<Longrightarrow> execution watch_step w [ResumeListen] (w\<lparr>listen_at := Waiting\<rparr>)"
  by (auto intro!: execution_Cons execution_nil watch_step.resume_listen)

lemma listener_drains:
  assumes "listening_on w" "listen_at w = Waiting"
  shows "\<exists>ls w'. execution watch_step w ls w' \<and> list_all internal ls \<and> watch_log w' = watch_log w
    \<and> yielded w' = yielded w @ stable_paths w"
  using assms
proof (induction "stable_paths w" arbitrary: w)
  case Nil
  then show ?case by (auto intro!: exI[of _ "[]"] exI[of _ w] execution_nil)
next
  case (Cons p ps)
  let ?w1 = "w\<lparr>stable_paths := ps, listen_at := Holding p\<rparr>"
  let ?w2 = "?w1\<lparr>yielded := yielded w @ [p], listen_at := Waiting\<rparr>"
  have take: "watch_step w TakePath ?w1"
    by (rule watch_step.take_path) (use Cons.hyps(2) Cons.prems(2) in simp_all)
  have "execution watch_step ?w1 [YieldPath, ResumeListen] ?w2"
    using yield_steps[of ?w1 p] Cons.prems(1) by (simp add: listening_on_def)
  note run = execution_Cons[OF take this]
  have "listening_on ?w2" by (rule listening_execution[OF run _ Cons.prems(1)]) simp
  then obtain ls w' where "execution watch_step ?w2 ls w'" "list_all internal ls" "watch_log w' = watch_log w"
    "yielded w' = (yielded w @ [p]) @ ps"
    using Cons.hyps(1)[of ?w2] by auto
  with execution_append[OF this(1) run] Cons.hyps(2)[symmetric] show ?case
    by (intro exI[of _ "[TakePath, YieldPath, ResumeListen] @ ls"] exI[of _ w']) simp
qed

lemma can_yield_emitted:
  assumes "listening_on w"
  shows "\<exists>ls w'. execution watch_step w ls w' \<and> list_all internal ls \<and> watch_log w' = watch_log w
    \<and> yielded w' = emitted_paths (watch_log w)"
proof -
  have inv: "watch_inv w" and run: "consumer w = ConsumerRunning" using assms by (simp_all add: listening_on_def)
  note handed = inv_handed[OF inv]
  obtain ls1 w1 where w1: "execution watch_step w ls1 w1" "list_all internal ls1" "watch_log w1 = watch_log w"
    "listen_at w1 = Waiting" "yielded w1 @ stable_paths w1 = emitted_paths (watch_log w)"
  proof (cases "listen_at w")
    case Waiting
    with handed show ?thesis by (intro that[of "[]" w]) (simp_all add: execution_nil)
  next
    case (Holding p)
    with handed yield_steps[OF Holding run] show ?thesis
      by (intro that[of "[YieldPath, ResumeListen]" "w\<lparr>yielded := yielded w @ [p], listen_at := Waiting\<rparr>"])
        simp_all
  next
    case Suspended
    with handed resume_step[OF Suspended] show ?thesis
      by (intro that[of "[ResumeListen]" "w\<lparr>listen_at := Waiting\<rparr>"]) simp_all
  qed (use assms in \<open>simp add: listening_on_def is_stopped_def\<close>)
  obtain ls2 w2 where "execution watch_step w1 ls2 w2" "list_all internal ls2" "watch_log w2 = watch_log w1"
    "yielded w2 = yielded w1 @ stable_paths w1"
    using listener_drains[OF listening_execution[OF w1(1,2) assms] w1(4)] by blast
  with w1 execution_append[OF this(1) w1(1)] show ?thesis
    by (intro exI[of _ "ls1 @ ls2"] exI[of _ w2]) simp
qed

lemma can_settle:
  assumes "listening_on w" "0 \<le> debounce_seconds w" "p \<in> set (seen_paths (watch_log w))"
  shows "\<exists>ls w'. execution watch_step w ls w' \<and> list_all internal ls \<and> settled p (watch_log w')"
proof (cases "open_burst p (watch_log w) = None")
  case True
  with seen_settled_or_open[OF assms(3)] have "settled p (watch_log w)" by blast
  then show ?thesis by (intro exI[of _ "[]"] exI[of _ w]) (simp add: execution_nil)
next
  case False
  have inv: "watch_inv w" and run: "\<not> is_stopped w" using assms(1) by (simp_all add: listening_on_def)
  obtain i where pend: "dict_get (pending w) p = Some i" using inv run False by (auto simp: watch_inv_def)
  have i: "i < length (tasks w)" "fst (tasks w ! i) = p" "live_task (snd (tasks w ! i))"
    using inv_pending_task[OF inv pend] inv run pend by (auto simp: watch_inv_def)
  obtain ls w' where w': "execution watch_step w ls w'" "set ls \<subseteq> {StartTask i, Fire i} \<union> range Tick"
    "watch_log w' = watch_log w @ [Emitted p (now w')]"
    using pending_can_fire[OF inv assms(2) i(1,3)] i(2) by auto
  have "list_all internal ls" unfolding list_all_iff using w'(2) by fastforce
  moreover have "settled p (watch_log w')" unfolding settled_def w'(3)
    by (rule exI[of _ "watch_log w"], rule exI[of _ "now w'"], rule exI[of _ "[]"]) simp
  ultimately show ?thesis using w'(1) by blast
qed

lemma can_hand_over:
  assumes "listening_on w" "0 \<le> debounce_seconds w" "p \<in> set (seen_paths (watch_log w))"
  shows "\<exists>ls w' pre t post. execution watch_step w ls w' \<and> list_all internal ls
    \<and> watch_log w' = pre @ Emitted p t # post \<and> p \<notin> set (seen_paths post)
    \<and> length (emitted_paths pre) < length (yielded w') \<and> yielded w' ! length (emitted_paths pre) = p"
proof -
  obtain ls1 w1 where w1: "execution watch_step w ls1 w1" "list_all internal ls1" "settled p (watch_log w1)"
    using can_settle[OF assms] by blast
  obtain ls2 w2 where w2: "execution watch_step w1 ls2 w2" "list_all internal ls2"
    "watch_log w2 = watch_log w1" "yielded w2 = emitted_paths (watch_log w1)"
    using can_yield_emitted[OF listening_execution[OF w1(1,2) assms(1)]] by blast
  obtain pre t post where log: "watch_log w1 = pre @ Emitted p t # post" "p \<notin> set (seen_paths post)"
    using w1(3) by (auto simp: settled_def)
  show ?thesis
    using execution_append[OF w2(1) w1(1)] w1(2) w2(2-4) log
    by (intro exI[of _ "ls1 @ ls2"] exI[of _ w2] exI[of _ pre] exI[of _ t] exI[of _ post]) simp
qed

section \<open>Properties\<close>

text \<open>C15: A change in the watched directory is not lost on its way: once the adapter has delivered the
  events of its reads, each file that was written or moved in is, in whatever order tasks and timers
  run, either already emitted after its last event and yielded to the pipeline or can still be, by the
  watcher's own steps alone, as long as nothing stops it.\<close>

theorem changed_file_reaches_pipeline:
  assumes "listen_events F wp reads = (ps, Inr ())"
    and "\<forall>rd\<in>set reads. \<not> rd_closed_before rd \<and> \<not> rd_closed_after rd"
    and "rd \<in> set reads" "rd_events rd = Inr events" "(event, listing) \<in> set events"
    and "ev_mask event AND Q_OVERFLOW F = 0" "ev_mask event AND (CLOSE_WRITE F OR MOVED_TO F) \<noteq> 0"
    and "execution watch_step (DirectoryWatcher d t0) ls w" "raw_paths ls = ps"
    and "0 \<le> d" "consumer w = ConsumerRunning" "\<not> is_stopped w"
    and "p = joinpath wp (Path (ev_name event))"
  shows "\<exists>ls' w' pre t post. execution watch_step w ls' w' \<and> list_all internal ls'
    \<and> watch_log w' = pre @ Emitted p t # post \<and> p \<notin> set (seen_paths post)
    \<and> length (emitted_paths pre) < length (yielded w') \<and> yielded w' ! length (emitted_paths pre) = p"
proof (rule can_hand_over)
  have "watch_reachable d w"
    by (rule execution_reachable[OF assms(8)], rule reachable_init) (auto simp: watch_init_def)
  then have "watch_inv w \<and> debounce_seconds w = d" by (rule watch_reachable_inv)
  then show "listening_on w" "0 \<le> debounce_seconds w" using assms(10-12) by (simp_all add: listening_on_def)
  have "p \<in> set ps"
    using listen_events_yields[OF assms(1-7)] assms(13) by simp
  then show "p \<in> set (seen_paths (watch_log w))"
    using seen_execution[OF assms(8)] assms(9) by (simp add: DirectoryWatcher_def)
qed

definition one_change :: "inotify_read list" where
  "one_change = [\<lparr>rd_closed_before = False, rd_events = Inr [(\<lparr>ev_mask = 128, ev_name = ''a''\<rparr>, Inr [])],
     rd_closed_after = False\<rparr>]"

theorem changed_file_reaches_pipeline_witness:
  "\<exists>ls' w'. execution watch_step example_pending ls' w' \<and> Path ''/w/a'' \<in> set (yielded w')"
proof -
  have adapter: "listen_events kernel_flags (Path ''/w'') one_change = ([Path ''/w/a''], Inr ())"
    by code_simp
  have p: "Path ''/w/a'' = joinpath (Path ''/w'') (Path (ev_name \<lparr>ev_mask = 128, ev_name = ''a''\<rparr>))"
    by code_simp
  have run: "execution watch_step (DirectoryWatcher 2 0) [RawEvent (Path ''/w/a'')] example_pending"
    unfolding example_pending_def
    by (auto intro!: execution_Cons execution_nil watch_step.raw_event simp: DirectoryWatcher_def)
  have on: "consumer example_pending = ConsumerRunning" "\<not> is_stopped example_pending"
    by (simp_all add: example_pending_def DirectoryWatcher_def is_stopped_def)
  have "\<exists>ls' w' pre t post. execution watch_step example_pending ls' w' \<and> list_all internal ls'
      \<and> watch_log w' = pre @ Emitted (Path ''/w/a'') t # post \<and> Path ''/w/a'' \<notin> set (seen_paths post)
      \<and> length (emitted_paths pre) < length (yielded w')
      \<and> yielded w' ! length (emitted_paths pre) = Path ''/w/a''"
    by (rule changed_file_reaches_pipeline[OF adapter _ _ _ _ _ _ run _ _ on p,
          where rd = "hd one_change" and events = "[(\<lparr>ev_mask = 128, ev_name = ''a''\<rparr>, Inr [])]" and listing = "Inr []"])
      (simp_all add: one_change_def kernel_flags_def)
  then show ?thesis by (metis nth_mem)
qed

text \<open>C9: Only settled files are dispatched, in the order they settled: the pipeline's \<open>i\<close>-th dispatch is for
  the watcher's \<open>i\<close>-th emission, which came at least the debounce time after the last event on the
  file; and a dispatch that raises costs the service that file only, since the pipeline records the
  failure and goes on with the next.\<close>

theorem settled_files_are_dispatched:
  assumes "watch_reachable d w" "map snd items = yielded w"
    and "run_detection_pipeline P C items fin world = (r, world')" "r \<noteq> Inl CancelledError"
  shows "r = fin \<and> (\<exists>ws. length ws = Suc (length items) \<and> ws ! 0 = world \<and> ws ! length items = world'
    \<and> (\<forall>i < length items. \<exists>p pre t post s q w1. watch_log w = pre @ Emitted p t # post
        \<and> length (emitted_paths pre) = i \<and> open_burst p pre = Some s \<and> s + d \<le> t
        \<and> dispatch P C p (fst (items ! i) (ws ! i)) = (q, w1)
        \<and> q \<noteq> Inl CancelledError \<and> ws ! Suc i = after_dispatch p q w1))"
proof -
  have inv: "watch_inv w" "debounce_seconds w = d" using watch_reachable_inv[OF assms(1)] by auto
  have deb: "debounced d (watch_log w)" using inv by (auto simp: watch_inv_def)
  obtain rest where rest: "emitted_paths (watch_log w) = yielded w @ rest"
    using inv_handed[OF inv(1)] by (cases "listen_at w") auto
  have path: "snd (items ! i) = yielded w ! i" "i < length (yielded w)" if "i < length items" for i
    using that assms(2)[symmetric] by simp_all
  have settled_at: "\<exists>pre t post s. watch_log w = pre @ Emitted (snd (items ! i)) t # post
      \<and> length (emitted_paths pre) = i \<and> open_burst (snd (items ! i)) pre = Some s \<and> s + d \<le> t"
    if "i < length items" for i
    using emitted_at[OF rest path(2)[OF that]] deb unfolding path(1)[OF that] debounced_def by blast
  obtain ws where ws: "r = fin" "length ws = Suc (length items)" "ws ! 0 = world" "ws ! length items = world'"
    "\<forall>i < length items. \<exists>q w1. dispatch P C (snd (items ! i)) (fst (items ! i) (ws ! i)) = (q, w1)
        \<and> q \<noteq> Inl CancelledError \<and> ws ! Suc i = after_dispatch (snd (items ! i)) q w1"
    using pipeline_worlds[OF assms(3,4)] by blast
  then show ?thesis using settled_at by (intro conjI exI[of _ ws]) (auto, metis)
qed

definition example_yielded :: watcher where
  "example_yielded = example_watcher\<lparr>stable_paths := [], yielded := [Path ''/w/a''], listen_at := Suspended\<rparr>"

lemma example_yielded_reachable: "watch_reachable 2 example_yielded"
proof -
  let ?w = "example_watcher\<lparr>stable_paths := [], listen_at := Holding (Path ''/w/a'')\<rparr>"
  have w: "listen_at example_watcher = Waiting" "stable_paths example_watcher = [Path ''/w/a'']"
    "consumer example_watcher = ConsumerRunning" "yielded example_watcher = []"
    by (simp_all add: example_watcher_def emit_when_stable_def Let_def DirectoryWatcher_def
        start_sleep_def set_task_def debounce_def cancel_task_def)
  have "watch_reachable 2 ?w"
    by (rule reachable_step[OF example_watcher_reachable]) (blast intro: watch_step.take_path[OF w(1,2)])
  moreover have "watch_step ?w YieldPath (?w\<lparr>yielded := yielded ?w @ [Path ''/w/a''], listen_at := Suspended\<rparr>)"
    by (rule watch_step.yield_path) (simp_all add: w(3))
  ultimately show ?thesis
    unfolding example_yielded_def by (elim reachable_step) (auto simp: w(4))
qed

theorem settled_files_are_dispatched_witness:
  "\<exists>world' ws. run_detection_pipeline (example_ports\<lparr>dp_stat := (\<lambda>_. Inl OSError)\<rparr>) example_config
      [(id, Path ''/w/a'')] (Inr ()) example_world = (Inr (), world')
    \<and> length ws = 2 \<and> ws ! 1 = world'"
proof -
  obtain world' where run: "run_detection_pipeline (example_ports\<lparr>dp_stat := (\<lambda>_. Inl OSError)\<rparr>) example_config
      [(id, Path ''/w/a'')] (Inr ()) example_world = (Inr (), world')"
    by (simp add: dispatch_def)
  have "map snd [(id :: unit world \<Rightarrow> unit world, Path ''/w/a'')] = yielded example_yielded"
    by (simp add: example_yielded_def)
  from settled_files_are_dispatched[OF example_yielded_reachable this run] run
  show ?thesis by (auto simp: numeral_2_eq_2)
qed

end
