(* ===== verification/Interference.thy ===== *)
theory Interference imports Dispatcher begin

text \<open>
  What other tasks may do while a dispatch of \<open>services/dispatcher.py\<close> waits, for the hash and before a
  retry: an invariant that every port call, log record and registry operation keeps holds until the
  dispatch records its session. The table of sessions is the first use; the server and the registry
  follow in \<open>Delivery\<close> and \<open>Ingress\<close>.
\<close>

section \<open>Invariants of a dispatch\<close>

definition kept_by_ports :: "'i dispatch_ports \<Rightarrow> ('i world \<Rightarrow> bool) \<Rightarrow> bool" where
  "kept_by_ports P I \<longleftrightarrow>
     (\<forall>w s p. I w \<longrightarrow> I (snd (ipc_send P s p w)))
     \<and> (\<forall>w d. I w \<longrightarrow> I (snd (clock_sleep P d w)))
     \<and> (\<forall>w path. I w \<longrightarrow> I (snd (hasher_compute_hash P path w)))
     \<and> (\<forall>w x. I w \<longrightarrow> I (emit (Logged x) w))
     \<and> (\<forall>w s. I w \<longrightarrow> I (w\<lparr>w_registry := remove s (w_registry w)\<rparr>))
     \<and> (\<forall>w t. I w \<longrightarrow> I (w\<lparr>w_registry := snd (active_senders t (w_registry w))\<rparr>))"

lemma holds_remove: "kept_by_ports P I \<Longrightarrow> I w \<Longrightarrow> I (w\<lparr>w_registry := remove s (w_registry w)\<rparr>)"
  by (simp add: kept_by_ports_def)

lemma holds_active:
  "kept_by_ports P I \<Longrightarrow> I w \<Longrightarrow> active_senders t (w_registry w) = (active, reg) \<Longrightarrow>
    I (w\<lparr>w_registry := reg\<rparr>)"
  unfolding kept_by_ports_def by (metis snd_conv)

lemma holds_emit: "kept_by_ports P I \<Longrightarrow> I w \<Longrightarrow> I (emit (Logged x) w)"
  by (simp add: kept_by_ports_def)

lemma holds_send: "kept_by_ports P I \<Longrightarrow> I w \<Longrightarrow> ipc_send P s p w = (r, w') \<Longrightarrow> I w'"
  unfolding kept_by_ports_def by (metis snd_conv)

lemma holds_sleep: "kept_by_ports P I \<Longrightarrow> I w \<Longrightarrow> clock_sleep P d w = (r, w') \<Longrightarrow> I w'"
  unfolding kept_by_ports_def by (metis snd_conv)

lemma holds_hash: "kept_by_ports P I \<Longrightarrow> I w \<Longrightarrow> hasher_compute_hash P path w = (r, w') \<Longrightarrow> I w'"
  unfolding kept_by_ports_def by (metis snd_conv)

lemma holds_deliver_attempts:
  assumes "kept_by_ports P I" "I w" "deliver_attempts P sid a payload attempts w = (r, w')"
  shows "I w'"
  using assms(2,3)
proof (induction attempts arbitrary: w)
  case (Cons attempt attempts)
  let ?s = "sa_sender_id a"
  obtain r1 w1 where send: "ipc_send P ?s payload w = (r1, w1)" by fastforce
  have h1: "I w1" by (rule holds_send[OF assms(1) Cons.prems(1) send])
  note log = holds_emit[OF assms(1) h1]
  show ?case
  proof (cases r1)
    case (Inr u)
    with Cons.prems(2) send h1 show ?thesis by simp
  next
    case (Inl e)
    then show ?thesis
    proof (cases e rule: send_error_cases)
      case (unknown s)
      with Cons.prems(2) send Inl holds_remove[OF assms(1) log] show ?thesis by (auto simp: Let_def)
    next
      case (full s)
      let ?w2 = "emit (Logged (DispatchSendFailed sid ?s ''send_queue_full'')) w1"
      show ?thesis
      proof (cases "attempt < MAX_DISPATCH_ATTEMPTS - 1")
        case True
        obtain r3 w3 where sleep: "clock_sleep P DISPATCH_RETRY_DELAY_SECONDS ?w2 = (r3, w3)" by fastforce
        have "I w3" by (rule holds_sleep[OF assms(1) log sleep])
        with Cons.prems(2) Cons.IH[of w3] send Inl full True sleep show ?thesis
          by (cases r3) (simp_all add: Let_def)
      next
        case False
        with Cons.prems(2) Cons.IH[OF log] send Inl full show ?thesis by (simp add: Let_def)
      qed
    next
      case other
      with Cons.prems(2) send Inl h1 deliver_attempts_other[of P a payload w e w1] show ?thesis by simp
    qed
  qed
qed simp

lemma holds_send_loop:
  assumes "kept_by_ports P I" "I w" "send_loop P C sid sf as succ lost w = (r, w')"
  shows "I w'"
  using assms(2,3)
proof (induction as arbitrary: succ lost w)
  case (Cons a as)
  show ?case
  proof (cases "assignment_payload (dp_runtime P) C sid sf a")
    case (Inl e)
    with Cons.prems show ?thesis by simp
  next
    case (Inr payload)
    obtain r1 w1 where d: "deliver P sid a payload w = (r1, w1)" by fastforce
    have h1: "I w1"
      by (rule holds_deliver_attempts[OF assms(1) Cons.prems(1) d[unfolded deliver_def]])
    show ?thesis
    proof (cases r1)
      case (Inl e)
      with Cons.prems(2) Inr d h1 show ?thesis by simp
    next
      case r1: (Inr b)
      with Cons.prems(2) Cons.IH[OF h1] Cons.IH[OF holds_emit[OF assms(1) h1]] Inr d
      show ?thesis by (cases b) simp_all
    qed
  qed
qed simp

text \<open>The last thing a dispatch does is to record its session.\<close>

definition recorded :: "SessionId option result \<Rightarrow> 'i world \<Rightarrow> 'i world \<Rightarrow> bool" where
  "recorded r w w' \<longleftrightarrow>
     (case r of
        Inr (Some sid) \<Rightarrow> \<exists>ss. w' = w\<lparr>dispatched_sessions := dict_set sid ss (dispatched_sessions w)\<rparr>
      | _ \<Rightarrow> w' = w)"

lemma holds_dispatch:
  assumes "kept_by_ports P I" "I w" "dispatch P C path w = (r, w')"
  shows "\<exists>w3. I w3 \<and> recorded r w3 w'"
proof -
  have to_senders: "I w3"
    if "I w2" "send_to_senders P C sid sf tb active w2 = (q, w3)" for w2 sid sf tb active q w3
    using that holds_send_loop[OF assms(1) that(1)] holds_emit[OF assms(1)]
    by (auto simp: send_to_senders_def log_partial_failure_eq split: sum.splits prod.splits if_splits)
  show ?thesis
  proof (cases rule: dispatch_inputs_cases[of P path C w])
    case (stat e)
    with assms(2,3) show ?thesis by (auto simp: recorded_def)
  next
    case (hash sz e w1)
    with holds_hash[OF assms(1,2)] assms(3) show ?thesis by (auto simp: recorded_def)
  next
    case (ready sz h w1 active reg)
    have "I (w1\<lparr>w_registry := reg\<rparr>)"
      by (rule holds_active[OF assms(1) holds_hash[OF assms(1,2) ready(2)] ready(3)])
    note held = this holds_emit[OF assms(1) this] to_senders[OF this]
    let ?w2 = "w1\<lparr>w_registry := reg\<rparr>"
    let ?sid = "generate_session_id (dp_token_bytes P (w_trace ?w2))"
    let ?sf = "\<lparr>sf_path = path, size_bytes = sz, file_hash = h\<rparr>"
    show ?thesis
    proof (cases "active = []")
      case True
      with assms(3) ready held(2) show ?thesis by (auto simp: dispatch_def Let_def recorded_def)
    next
      case False
      show ?thesis
      proof (cases "calculate_block_count sz (dc_fec_params C)")
        case (Inl e)
        with False assms(3) ready held(1) show ?thesis by (auto simp: dispatch_def Let_def recorded_def)
      next
        case (Inr tb)
        obtain q w3 where send: "send_to_senders P C ?sid ?sf tb active ?w2 = (q, w3)" by fastforce
        have "recorded r w3 w'"
          using False Inr assms(3) ready send
          by (auto simp: dispatch_def Let_def recorded_def split: sum.splits option.splits)
        with held(3)[OF send] show ?thesis by blast
      qed
    qed
  qed
qed

lemma holds_dispatch_same:
  assumes "kept_by_ports P I" "I w" "dispatch P C path w = (r, w')"
    and "\<And>w d. I (w\<lparr>dispatched_sessions := d\<rparr>) = I w"
  shows "I w'"
proof -
  obtain w3 where "I w3" "recorded r w3 w'" using holds_dispatch[OF assms(1-3)] by blast
  then have "w' = w3 \<or> (\<exists>d. w' = w3\<lparr>dispatched_sessions := d\<rparr>)"
    by (auto simp: recorded_def split: sum.splits option.splits)
  with \<open>I w3\<close> assms(4) show ?thesis by auto
qed

section \<open>The table of sessions\<close>

text \<open>
  While a dispatch waits the other tasks only take sessions off the table: \<open>complete_session\<close> is
  the one other operation on it.
\<close>

definition fewer_sessions ::
  "(SessionId, SenderId list) dict \<Rightarrow> (SessionId, SenderId list) dict \<Rightarrow> bool" where
  "fewer_sessions d d' \<longleftrightarrow> (\<forall>sid. dict_get d' sid = None \<or> dict_get d' sid = dict_get d sid)"

definition only_completes :: "'i dispatch_ports \<Rightarrow> bool" where
  "only_completes P \<longleftrightarrow>
     (\<forall>d tr x. fewer_sessions (fst (snd x)) (fst (snd (snd (dp_sleep P d tr x)))))
     \<and> (\<forall>path tr x. fewer_sessions (fst (snd x)) (fst (snd (snd (dp_compute_hash P path tr x)))))"

lemma fewer_refl [simp, intro]: "fewer_sessions d d"
  by (simp add: fewer_sessions_def)

lemma fewer_trans: "fewer_sessions d e \<Longrightarrow> fewer_sessions e f \<Longrightarrow> fewer_sessions d f"
  unfolding fewer_sessions_def by metis

lemma only_completes_kept:
  assumes "only_completes P"
  shows "kept_by_ports P (\<lambda>w. fewer_sessions ds (dispatched_sessions w))"
proof -
  have "fewer_sessions ds (dispatched_sessions (snd (clock_sleep P d w)))"
    if "fewer_sessions ds (dispatched_sessions w)" for d w
  proof -
    obtain r reg ds' i where s: "dp_sleep P d (w_trace w) (shared_part w) = (r, reg, ds', i)"
      by (metis prod_cases4)
    have "fewer_sessions (fst (snd (shared_part w))) (fst (snd (snd (dp_sleep P d (w_trace w) (shared_part w)))))"
      using assms unfolding only_completes_def by blast
    then have "fewer_sessions (dispatched_sessions w) ds'" by (simp add: s, simp add: shared_part_def)
    with fewer_trans[OF that] show ?thesis by (simp add: clock_sleep_def s set_shared_def emit_def)
  qed
  moreover have "fewer_sessions ds (dispatched_sessions (snd (hasher_compute_hash P path w)))"
    if "fewer_sessions ds (dispatched_sessions w)" for path w
  proof -
    obtain r reg ds' i where s: "dp_compute_hash P path (w_trace w) (shared_part w) = (r, reg, ds', i)"
      by (metis prod_cases4)
    have "fewer_sessions (fst (snd (shared_part w))) (fst (snd (snd (dp_compute_hash P path (w_trace w) (shared_part w)))))"
      using assms unfolding only_completes_def by blast
    then have "fewer_sessions (dispatched_sessions w) ds'" by (simp add: s, simp add: shared_part_def)
    with fewer_trans[OF that] show ?thesis by (simp add: hasher_compute_hash_def s set_shared_def)
  qed
  ultimately show ?thesis
    by (simp add: kept_by_ports_def ipc_send_def emit_def split: prod.splits)
qed

section \<open>Properties\<close>

text \<open>C35: The sessions on record are those some sender accepted: a dispatch that returns a session id
  records it with exactly the senders that accepted it, in order, and one that returns nothing was
  accepted by nobody; beyond that a dispatch adds nothing to the table, while sessions that others
  complete meanwhile go.\<close>

theorem dispatch_records_accepted_senders:
  assumes "only_completes P" "dispatch P C path w = (r, w')"
  shows "\<exists>new. w_trace w' = w_trace w @ new
    \<and> (case r of
         Inr (Some sid) \<Rightarrow> accepted_sends new \<noteq> []
           \<and> dict_get (dispatched_sessions w') sid = Some (map fst (accepted_sends new))
           \<and> fewer_sessions (dict_set sid (map fst (accepted_sends new)) (dispatched_sessions w))
               (dispatched_sessions w')
       | Inr None \<Rightarrow> accepted_sends new = [] \<and> fewer_sessions (dispatched_sessions w) (dispatched_sessions w')
       | Inl e \<Rightarrow> fewer_sessions (dispatched_sessions w) (dispatched_sessions w'))"
proof -
  obtain w3 where w3: "fewer_sessions (dispatched_sessions w) (dispatched_sessions w3)" "recorded r w3 w'"
    using holds_dispatch[OF only_completes_kept[OF assms(1)] fewer_refl assms(2)] by blast
  then have table: "case r of
      Inr (Some sid) \<Rightarrow> \<forall>ss. dict_get (dispatched_sessions w') sid = Some ss \<longrightarrow>
        fewer_sessions (dict_set sid ss (dispatched_sessions w)) (dispatched_sessions w')
    | _ \<Rightarrow> fewer_sessions (dispatched_sessions w) (dispatched_sessions w')"
    by (auto simp: recorded_def fewer_sessions_def split: sum.splits option.splits)
  from assms(2) show ?thesis
  proof (cases rule: dispatch_cases)
    case (sent sf active sid tb w2 as)
    from dispatch_run[OF assms(2) sent] table show ?thesis
      by (elim exE conjE, rule_tac x = new in exI)
        (auto simp: map_fst_wire simp del: map_map split: sum.splits if_splits)
  next
    case (unsent new)
    with table show ?thesis by (intro exI[of _ new]) auto
  qed
qed

theorem dispatch_records_accepted_senders_witness:
  "\<exists>q w' new. dispatch example_ports example_config example_path example_world = (Inr q, w')
    \<and> w_trace w' = w_trace example_world @ new \<and> (q = None \<longleftrightarrow> accepted_sends new = [])"
proof -
  obtain q w' where run: "dispatch example_ports example_config example_path example_world
      = (Inr q, w')"
    using example_dispatch by blast
  have "only_completes example_ports" by (simp add: only_completes_def example_ports_def)
  from dispatch_records_accepted_senders[OF this run] run show ?thesis
    by (cases q) auto
qed

end
