(* ===== verification/Delivery.thy ===== *)
theory Delivery imports Uds Interference begin

text \<open>
  The dispatcher over the Unix-socket server: \<open>services/dispatcher.py\<close> composed with \<open>ipc/uds.py\<close>.
  The dispatcher's port \<open>send\<close> is the server's, and while the dispatcher waits (for the hash, for the
  retry) the server takes any of its steps. The first part shows what no step of the server undoes: the
  sender of a connection and the payloads accepted for it.
\<close>

section \<open>What no step of the server undoes\<close>

definition keeps_accepted :: "uds \<Rightarrow> uds \<Rightarrow> bool" where
  "keeps_accepted u u' \<longleftrightarrow> length (conns u) \<le> length (conns u')
     \<and> (\<forall>c < length (conns u). (\<forall>s. c_sender (conns u ! c) = Some s \<longrightarrow> c_sender (conns u' ! c) = Some s)
          \<and> prefix (c_accepted (conns u ! c)) (c_accepted (conns u' ! c)))"

lemma keeps_refl [simp, intro]: "keeps_accepted u u"
  by (simp add: keeps_accepted_def)

lemma keeps_trans: "keeps_accepted u v \<Longrightarrow> keeps_accepted v w \<Longrightarrow> keeps_accepted u w"
  unfolding keeps_accepted_def
  by (elim conjE, intro conjI allI impI) (simp, simp, meson order.strict_trans2 prefix_order.trans)

lemma keeps_upd_conn:
  "(\<And>s. c_sender (conns u ! c) = Some s \<Longrightarrow> c_sender (f (conns u ! c)) = Some s) \<Longrightarrow>
   prefix (c_accepted (conns u ! c)) (c_accepted (f (conns u ! c))) \<Longrightarrow>
   keeps_accepted u (upd_conn c f u)"
  by (auto simp: keeps_accepted_def conns_upd_conn)

lemma keeps_same_conns: "conns u' = conns u \<Longrightarrow> keeps_accepted u u'"
  by (simp add: keeps_accepted_def)

lemma keeps_cleanup: "keeps_accepted u (cleanup c u)"
  unfolding cleanup_eq
  by (rule keeps_trans[OF keeps_same_conns keeps_upd_conn]) simp_all

lemma keeps_put_incoming: "keeps_accepted u (put_incoming c s raw u)"
proof (cases "length (incoming u) < INCOMING_QUEUE_MAXSIZE")
  case True
  then show ?thesis
    unfolding put_incoming_def by (simp, intro keeps_trans[OF keeps_same_conns keeps_upd_conn]) simp_all
next
  case False
  then show ?thesis unfolding put_incoming_def by (simp add: keeps_upd_conn)
qed

lemma keeps_fail_peer: "keeps_accepted u (fail_peer c e u)"
  unfolding fail_peer_def by (rule keeps_trans[OF _ keeps_cleanup]) (simp add: keeps_upd_conn)

lemma keeps_handle_recv: "keeps_accepted u (handle_recv pb c raw u)"
proof -
  have hs: "conns u1 = conns u" if "complete_handshake pb c raw u = (r, u1)" for r u1
    using that by (auto simp: complete_handshake_def split: sum.splits if_splits message.splits prod.splits)
  obtain r u1 where u1: "complete_handshake pb c raw u = (r, u1)" by fastforce
  note step = keeps_trans[OF keeps_same_conns[OF hs[OF u1]]]
  have "keeps_accepted u (put_incoming c s raw (upd_conn c (\<lambda>k. k\<lparr>c_sender := Some s, c_writer := WriterIdle\<rparr>) u1))"
    if "c_sender (conns u ! c) = None" for s
    by (rule step[OF keeps_trans[OF keeps_upd_conn keeps_put_incoming]]) (simp_all add: hs[OF u1] that)
  then show ?thesis
    using u1 step[OF keeps_fail_peer]
    by (cases r) (auto simp: handle_recv_def keeps_cleanup keeps_put_incoming split: option.splits)
qed

lemma keeps_cancel_peer: "keeps_accepted u (cancel_peer c u)"
  by (auto simp: cancel_peer_def keeps_cleanup keeps_upd_conn split: phase.splits)

lemma keeps_fold: "(\<And>x u. keeps_accepted u (f x u)) \<Longrightarrow> keeps_accepted u (fold f xs u)"
  by (induction xs arbitrary: u) (auto intro: keeps_trans)

lemma keeps_step: "uds_step pb u l u' \<Longrightarrow> keeps_accepted u u'"
proof (induction rule: uds_step.induct)
  case (accept u)
  then show ?case by (simp add: accept_peer_def keeps_accepted_def nth_append)
next
  case (fails c u payload)
  then show ?case
    unfolding writer_fails_eq by (intro keeps_trans[OF keeps_same_conns keeps_upd_conn]) simp_all
next
  case (send u s payload)
  then show ?case by (auto simp: uds_send_def keeps_upd_conn split: option.splits)
next
  case (shutdown u)
  show ?case unfolding serve_shutdown_def
    by (rule keeps_trans[OF keeps_same_conns keeps_fold[OF keeps_cancel_peer]]) simp
qed (simp_all add: keeps_handle_recv keeps_fail_peer keeps_put_incoming keeps_cancel_peer keeps_upd_conn
    writer_take_def writer_sent_def keeps_same_conns)

lemma keeps_execution: "execution (uds_step pb) u ls u' \<Longrightarrow> keeps_accepted u u'"
  by (induction rule: execution.induct) (auto intro: keeps_trans keeps_step)

section \<open>Dispatching over the server\<close>

text \<open>While the dispatcher waits, the server runs; nothing else touches its state.\<close>

definition over_server :: "protobuf \<Rightarrow> uds dispatch_ports \<Rightarrow> bool" where
  "over_server pb P \<longleftrightarrow> dp_send P = uds_send
     \<and> (\<forall>d tr x. \<exists>ls. execution (uds_step pb) (snd (snd x)) ls (snd (snd (snd (dp_sleep P d tr x)))))
     \<and> (\<forall>path tr x. \<exists>ls. execution (uds_step pb) (snd (snd x)) ls (snd (snd (snd (dp_compute_hash P path tr x)))))"

definition accepted_at_sender :: "uds \<Rightarrow> SenderId \<times> bytes \<Rightarrow> bool" where
  "accepted_at_sender u x \<longleftrightarrow> (case x of (s, p) \<Rightarrow>
     \<exists>c < length (conns u). c_sender (conns u ! c) = Some s \<and> p \<in> set (c_accepted (conns u ! c)))"

definition server_inv :: "protobuf \<Rightarrow> bytes \<Rightarrow> nat \<Rightarrow> uds world \<Rightarrow> bool" where
  "server_inv pb expected n w \<longleftrightarrow> uds_reachable pb expected (w_ipc w) \<and> n \<le> length (w_trace w)
     \<and> list_all (accepted_at_sender (w_ipc w)) (accepted_sends (drop n (w_trace w)))"

lemma accepted_at_sender_keeps:
  assumes "keeps_accepted u u'" "accepted_at_sender u x"
  shows "accepted_at_sender u' x"
proof -
  obtain s p where x: "x = (s, p)" by (cases x)
  with assms(2) obtain c where c: "c < length (conns u)" "c_sender (conns u ! c) = Some s"
    "p \<in> set (c_accepted (conns u ! c))" by (auto simp: accepted_at_sender_def)
  then have "c < length (conns u')" "c_sender (conns u' ! c) = Some s"
    "p \<in> set (c_accepted (conns u' ! c))"
    using assms(1) set_mono_prefix by (auto simp: keeps_accepted_def)
  with x show ?thesis by (auto simp: accepted_at_sender_def)
qed

lemma server_inv_runs:
  assumes "server_inv pb expected n w" "execution (uds_step pb) (w_ipc w) ls (w_ipc w')"
    and "w_trace w' = w_trace w @ new" "accepted_sends new = []"
  shows "server_inv pb expected n w'"
  using assms execution_reachable[OF assms(2)] accepted_at_sender_keeps[OF keeps_execution[OF assms(2)]]
  by (auto simp: server_inv_def list_all_iff)

lemma send_accepted:
  assumes "uds_inv u" "uds_send s p u = (Inr x, u')"
  shows "accepted_at_sender u' (s, p)"
proof -
  obtain c where c: "dict_get (peers u) s = Some c"
    "u' = upd_conn c (\<lambda>k. k\<lparr>c_queue := c_queue k @ [p], c_accepted := c_accepted k @ [p]\<rparr>) u"
    using assms(2) by (auto simp: uds_send_def split: option.splits if_splits)
  then show ?thesis
    using inv_peer_index[OF assms(1) c(1)] inv_serves[OF assms(1) c(1)]
    by (auto simp: accepted_at_sender_def serves_def conns_upd_conn intro!: exI[of _ c])
qed

lemma server_inv_send:
  assumes "server_inv pb expected n w" "uds_send s p (w_ipc w) = (r, w_ipc w')"
    and "w_trace w' = w_trace w @ [Sent s p r]"
  shows "server_inv pb expected n w'"
proof -
  let ?u = "w_ipc w" and ?u' = "w_ipc w'"
  have step: "uds_step pb ?u (Send s p) ?u'" using uds_step.send[of pb ?u s p] assms(2) by simp
  have "uds_reachable pb expected ?u'"
    using assms(1) step by (auto simp: server_inv_def intro: reachable_step)
  moreover have "accepted_at_sender ?u x \<Longrightarrow> accepted_at_sender ?u' x" for x
    by (rule accepted_at_sender_keeps[OF keeps_step[OF step]])
  moreover have "r = Inr x \<Longrightarrow> accepted_at_sender ?u' (s, p)" for x
    using send_accepted[of ?u s p x ?u'] assms reachable_inv by (auto simp: server_inv_def)
  ultimately show ?thesis
    using assms(1,3) by (cases r) (auto simp: server_inv_def list_all_iff)
qed

lemma server_inv_kept:
  assumes "over_server pb P"
  shows "kept_by_ports P (server_inv pb expected n)"
proof -
  have "server_inv pb expected n (snd (clock_sleep P d w))" if "server_inv pb expected n w" for d w
  proof -
    obtain r reg ds u where s: "dp_sleep P d (w_trace w) (shared_part w) = (r, reg, ds, u)"
      by (metis prod_cases4)
    obtain ls where "execution (uds_step pb) (snd (snd (shared_part w))) ls
        (snd (snd (snd (dp_sleep P d (w_trace w) (shared_part w)))))"
      using assms unfolding over_server_def by blast
    then have "execution (uds_step pb) (w_ipc w) ls u" by (simp add: s, simp add: shared_part_def)
    then show ?thesis
      by (intro server_inv_runs[OF that, where ls = ls and new = "[Slept d]"])
        (simp_all add: clock_sleep_def s set_shared_def emit_def)
  qed
  moreover have "server_inv pb expected n (snd (hasher_compute_hash P path w))"
    if "server_inv pb expected n w" for path w
  proof -
    obtain r reg ds u where s: "dp_compute_hash P path (w_trace w) (shared_part w) = (r, reg, ds, u)"
      by (metis prod_cases4)
    obtain ls where "execution (uds_step pb) (snd (snd (shared_part w))) ls
        (snd (snd (snd (dp_compute_hash P path (w_trace w) (shared_part w)))))"
      using assms unfolding over_server_def by blast
    then have "execution (uds_step pb) (w_ipc w) ls u" by (simp add: s, simp add: shared_part_def)
    then show ?thesis
      by (intro server_inv_runs[OF that, where ls = ls and new = "[]"])
        (simp_all add: hasher_compute_hash_def s set_shared_def)
  qed
  moreover have "server_inv pb expected n (snd (ipc_send P s p w))" if "server_inv pb expected n w" for s p w
  proof -
    obtain r u where u: "uds_send s p (w_ipc w) = (r, u)" by fastforce
    then show ?thesis
      using assms by (intro server_inv_send[OF that, of s p r])
        (simp_all add: over_server_def ipc_send_def emit_def)
  qed
  ultimately show ?thesis by (simp add: kept_by_ports_def) (simp add: server_inv_def emit_def)
qed

section \<open>A concrete dispatch over the server\<close>

definition example_server_world :: "uds world" where
  "example_server_world = \<lparr>w_registry = \<lparr>timeout_seconds = 15, last_seen = [(7, 1)]\<rparr>,
     w_ipc = connected_once, dispatched_sessions = [], w_trace = []\<rparr>"

lemma example_over_server: "over_server unary_protobuf example_uds_ports"
  by (auto simp: over_server_def example_uds_ports_def intro: execution_nil)

lemma example_server_inputs:
  "\<exists>sid. dispatch_inputs example_uds_ports example_config example_path example_server_world
    = Inr (\<lparr>sf_path = example_path, size_bytes = 10, file_hash = bytes_hex (replicate 32 171)\<rparr>,
        [7], sid, 10, example_server_world)"
proof -
  have "active_senders 1 (w_registry example_server_world) = ([7], w_registry example_server_world)"
    by (simp add: example_server_world_def active_senders_def purge_expired_def expired_at_def)
  moreover have "calculate_block_count 10 example_fec = Inr 10"
    using calculate_block_count_eq[of example_fec 10] example_config_valid(1)
    by (simp add: example_config_def example_fec_def block_size_def ceil_div_def)
  ultimately show ?thesis
    by (simp add: dispatch_inputs_def hasher_compute_hash_def shared_part_def set_shared_def
        example_uds_ports_def example_config_def example_server_world_def)
qed

lemma session_id_ascii:
  "dispatch_inputs P C path w = Inr (sf, active, sid, tb, w2) \<Longrightarrow> ascii_text sid"
  by (cases rule: dispatch_inputs_cases[of P path C w])
    (auto simp: dispatch_inputs_def res_simps generate_session_id_def ascii_text_hex)

lemma deliver_first_send:
  assumes "uds_send (sa_sender_id a) p (w_ipc w) = (Inr (), u)" "dp_send P = uds_send"
  shows "deliver P sid a p w = (Inr True, emit (Sent (sa_sender_id a) p (Inr ())) (w\<lparr>w_ipc := u\<rparr>))"
proof -
  have "[0..<MAX_DISPATCH_ATTEMPTS] = 0 # [Suc 0..<MAX_DISPATCH_ATTEMPTS]"
    by (simp add: MAX_DISPATCH_ATTEMPTS_def upt_conv_Cons)
  then show ?thesis using assms by (simp add: deliver_def ipc_send_def)
qed

lemma example_server_dispatch:
  "\<exists>sid w' p x. dispatch example_uds_ports example_config example_path example_server_world = (Inr (Some sid), w')
    \<and> w_trace w' = [Sent 7 p (Inr ()), Logged x] \<and> partial_failures [Logged x] = []
    \<and> w_ipc w' = snd (uds_send 7 p connected_once)"
proof -
  let ?P = example_uds_ports and ?C = example_config and ?w = example_server_world
  let ?sf = "\<lparr>sf_path = example_path, size_bytes = 10, file_hash = bytes_hex (replicate 32 171)\<rparr>"
  let ?a = "assignment_at 10 1 9000 (0, 7)"
  obtain sid where inp: "dispatch_inputs ?P ?C example_path ?w = Inr (?sf, [7], sid, 10, ?w)"
    using example_server_inputs by blast
  have base: "dc_base_port ?C = 9000" by (simp add: example_config_def)
  have as: "derive_shard_assignments 10 [7] (dc_base_port ?C) = Inr [?a]"
    unfolding base by (subst derive_shard_assignments_ok) (simp_all add: valid_shard_request_def)
  have rt: "dp_runtime ?P = unary_protobuf" by (simp add: example_uds_ports_def)
  obtain p where p: "assignment_payload (dp_runtime ?P) ?C sid ?sf ?a = Inr p"
    using assignment_payload_returns[OF example_acceptable example_regular(2)[unfolded example_runtime]
        example_config_valid(1) as, of ?a sid] example_config_valid(2) session_id_ascii[OF inp]
    unfolding rt by (auto simp: example_world_def dispatch_fits_def)
  have s: "sa_sender_id ?a = 7" by (simp add: assignment_at_def)
  obtain u where u: "uds_send 7 p connected_once = (Inr (), u)"
    by (simp add: uds_send_def connected_once_eq new_connection_def SEND_QUEUE_MAXSIZE_def)
  have d: "deliver ?P sid ?a p ?w = (Inr True, emit (Sent 7 p (Inr ())) (?w\<lparr>w_ipc := u\<rparr>))"
    using deliver_first_send[of ?a p ?w u ?P sid] u unfolding s
    by (simp add: example_server_world_def example_uds_ports_def)
  let ?x = "SessionDispatched sid 7 (shard_residue ?a) (shard_modulus ?a) (sa_target_port ?a)
    (length (assigned_blocks ?a))"
  have "send_to_senders ?P ?C sid ?sf 10 [7] ?w = (Inr (Some [7]),
      emit (Logged ?x) (emit (Sent 7 p (Inr ())) (?w\<lparr>w_ipc := u\<rparr>)))"
    by (simp add: send_to_senders_def as p d s)
  then show ?thesis
    using dispatch_sends[OF inp] u by (simp add: emit_def example_server_world_def)
qed

section \<open>Properties\<close>

text \<open>The payload a writer is sending.\<close>

fun in_flight :: "writer \<Rightarrow> bytes list" where
  "in_flight (WriterSending p) = [p]"
| "in_flight _ = []"

text \<open>C2: Whatever the other connections, senders and tasks do while a dispatch runs over the Unix-socket
  server, every payload the dispatch saw accepted was accepted by a connection of the sender it was meant
  for, one that said hello with the expected contract hash. As long as that connection's writer runs,
  and so at least as long as the sender is routed to it, what the connection accepted is what is
  written, in flight and queued, in this order. A writer that has stopped (the connection failed or
  closed) leaves no route to the connection; then the payload may be lost: what was accepted is
  what was written, at most one payload that was in flight, and a queue that nobody takes from.\<close>

theorem accepted_payloads_belong_to_their_sender:
  assumes "over_server pb P" "uds_reachable pb expected (w_ipc w)" "dispatch P C path w = (r, w')"
    and "w_trace w' = w_trace w @ new" "(s, p) \<in> set (accepted_sends new)"
  shows "\<exists>c k h. c < length (conns (w_ipc w')) \<and> k = conns (w_ipc w') ! c \<and> c_sender k = Some s
    \<and> h \<in> set (hellos (w_ipc w')) \<and> hello_sender_id h = s \<and> hello_proto_hash h = expected
    \<and> p \<in> set (c_accepted k)
    \<and> (if c_writer k = WriterStopped
       then dict_get (peers (w_ipc w')) s \<noteq> Some c
         \<and> (\<exists>lost. c_accepted k = c_wire k @ lost @ c_queue k \<and> length lost \<le> 1)
       else c_accepted k = c_wire k @ in_flight (c_writer k) @ c_queue k)"
proof -
  let ?u = "w_ipc w'"
  have "server_inv pb expected (length (w_trace w)) w" using assms(2) by (simp add: server_inv_def)
  then have "server_inv pb expected (length (w_trace w)) w'"
    by (rule holds_dispatch_same[OF server_inv_kept[OF assms(1)] _ assms(3)]) (simp add: server_inv_def)
  with assms(4)
  have reach: "uds_reachable pb expected ?u" and all: "list_all (accepted_at_sender ?u) (accepted_sends new)"
    by (simp_all add: server_inv_def)
  obtain c where c: "c < length (conns ?u)" "c_sender (conns ?u ! c) = Some s"
    "p \<in> set (c_accepted (conns ?u ! c))"
    using all assms(5) by (auto simp: list_all_iff accepted_at_sender_def)
  have inv: "uds_inv ?u" and exp: "expected_proto_hash ?u = expected"
    using uds_system.inv_reachable[OF reach] by auto
  obtain h where "h \<in> set (hellos ?u)" "hello_sender_id h = s"
    using inv_known[OF inv c(1,2)] by (auto simp: known_senders_def)
  moreover from this have "hello_proto_hash h = expected" using inv exp by (auto simp: uds_inv_def)
  moreover have "if c_writer (conns ?u ! c) = WriterStopped
      then dict_get (peers ?u) s \<noteq> Some c
        \<and> (\<exists>lost. c_accepted (conns ?u ! c) = c_wire (conns ?u ! c) @ lost @ c_queue (conns ?u ! c) \<and> length lost \<le> 1)
      else c_accepted (conns ?u ! c) = c_wire (conns ?u ! c) @ in_flight (c_writer (conns ?u ! c)) @ c_queue (conns ?u ! c)"
    using inv_connection[OF inv c(1)] inv_serves[OF inv, of s c]
    by (cases "c_writer (conns ?u ! c)") (auto simp: connection_ok_def serves_def)
  ultimately show ?thesis using c by blast
qed

theorem accepted_payloads_belong_to_their_sender_witness:
  "\<exists>r w' p c. dispatch example_uds_ports example_config example_path example_server_world = (r, w')
    \<and> c_sender (conns (w_ipc w') ! c) = Some 7 \<and> p \<in> set (c_accepted (conns (w_ipc w') ! c))"
proof -
  obtain sid w' p x where run: "dispatch example_uds_ports example_config example_path example_server_world
      = (Inr (Some sid), w')"
    and tr: "w_trace w' = [Sent 7 p (Inr ()), Logged x]" using example_server_dispatch by blast
  have reach: "uds_reachable unary_protobuf [1] (w_ipc example_server_world)"
    using connected_once_reachable by (simp add: example_server_world_def)
  have "w_trace w' = w_trace example_server_world @ [Sent 7 p (Inr ()), Logged x]"
    using tr by (simp add: example_server_world_def)
  from accepted_payloads_belong_to_their_sender[OF example_over_server reach run this, of 7 p] run
  show ?thesis by auto
qed

end
