(* ===== verification/Ingress.thy ===== *)
theory Ingress imports Delivery Loops begin

text \<open>
  The way of a sender into the registry: the IPC server, \<open>_run_incoming_dispatch_loop\<close> of \<open>main.py\<close>
  and the dispatcher on one state. The server's tasks run at any time; the message loop takes the
  oldest message of the server's queue and runs its handler; a dispatch reads and prunes the registry
  and lets the other tasks run while it waits.
\<close>

section \<open>The tasks that run while a dispatch waits\<close>

inductive tasks_step :: "protobuf \<Rightarrow> uds shared \<Rightarrow> uds shared \<Rightarrow> bool" for pb where
  server: "uds_step pb u l u' \<Longrightarrow> l \<noteq> GetIncoming \<Longrightarrow> tasks_step pb (reg, ds, u) (reg, ds, u')"
| message: "incoming (w_ipc w) = (s, raw) # ms \<Longrightarrow>
    handle_incoming pb t s raw (w\<lparr>w_ipc := (w_ipc w)\<lparr>incoming := ms\<rparr>\<rparr>) = (r, w') \<Longrightarrow>
    tasks_step pb (shared_part w) (shared_part w')"

definition over_tasks :: "protobuf \<Rightarrow> uds dispatch_ports \<Rightarrow> bool" where
  "over_tasks pb P \<longleftrightarrow> dp_send P = uds_send
     \<and> (\<forall>d tr x. (tasks_step pb)\<^sup>*\<^sup>* x (snd (dp_sleep P d tr x)))
     \<and> (\<forall>path tr x. (tasks_step pb)\<^sup>*\<^sup>* x (snd (dp_compute_hash P path tr x)))"

inductive ingress_step ::
  "protobuf \<Rightarrow> uds dispatch_ports \<Rightarrow> dispatch_config \<Rightarrow> uds world \<Rightarrow> uds world \<Rightarrow> bool" for pb P C where
  server: "uds_step pb (w_ipc w) l u' \<Longrightarrow> l \<noteq> GetIncoming \<Longrightarrow> ingress_step pb P C w (w\<lparr>w_ipc := u'\<rparr>)"
| message: "incoming (w_ipc w) = (s, raw) # ms \<Longrightarrow>
    handle_incoming pb t s raw (w\<lparr>w_ipc := (w_ipc w)\<lparr>incoming := ms\<rparr>\<rparr>) = (r, w') \<Longrightarrow>
    ingress_step pb P C w w'"
| dispatches: "dispatch P C path w = (q, w') \<Longrightarrow> ingress_step pb P C w w'"

definition ingress_init :: "bytes \<Rightarrow> uds world \<Rightarrow> bool" where
  "ingress_init expected w \<longleftrightarrow> last_seen (w_registry w) = [] \<and> w_ipc w = UdsIpcServer expected"

section \<open>Registered senders are known to the server\<close>

definition registered_senders :: "registry \<Rightarrow> SenderId set" where
  "registered_senders reg = {s. dict_get (last_seen reg) s \<noteq> None}"

definition admitted :: "protobuf \<Rightarrow> bytes \<Rightarrow> registry \<Rightarrow> uds \<Rightarrow> bool" where
  "admitted pb expected reg u \<longleftrightarrow> uds_reachable pb expected u \<and> registered_senders reg \<subseteq> known_senders u"

lemma registered_senders_register [simp]: "registered_senders (register t s reg) = insert s (registered_senders reg)"
  by (auto simp: registered_senders_def register_def)

lemma registered_remove: "registered_senders (remove s reg) \<subseteq> registered_senders reg"
  by (auto simp: registered_senders_def remove_def)

lemma get_fold_pop: "dict_get (fold dict_pop ks d) s \<noteq> None \<Longrightarrow> dict_get d s \<noteq> None"
  by (auto simp: fold_dict_pop_get split: if_splits)

lemma registered_active: "registered_senders (snd (active_senders t reg)) \<subseteq> registered_senders reg"
  using get_fold_pop by (fastforce simp: registered_senders_def active_senders_def purge_expired_def Let_def)

lemma active_registered: "set (fst (active_senders t reg)) = registered_senders (snd (active_senders t reg))"
  by (simp add: registered_senders_def active_senders_def Let_def dict.set_keys del: set_map)

lemma handle_incoming_keeps_ipc: "handle_incoming pb t s raw w = (r, w') \<Longrightarrow> w_ipc w' = w_ipc w"
  by (cases "decode pb raw")
    (auto simp: handle_incoming_def INCOMING_MESSAGE_HANDLERS_def handler_defs
      split: if_splits option.splits sum.splits prod.splits)

lemma handle_incoming_registered:
  assumes "handle_incoming pb t s raw w = (r, w')"
  shows "registered_senders (w_registry w') \<subseteq> insert s (registered_senders (w_registry w))"
proof -
  let ?a = "\<lparr>ar_before = id, ar_now = t, ar_sender = s, ar_raw = raw\<rparr>"
  have "w_registry w' = fold apply_registry_op (message_ops pb ?a) (w_registry w)"
    by (rule handle_incoming_registry) (use assms in simp)
  then show ?thesis by (auto simp: message_ops_def refresh_def split: sum.splits if_splits)
qed

lemma hellos_step: "uds_step pb u l u' \<Longrightarrow> known_senders u \<subseteq> known_senders u'"
proof (induction rule: uds_step.induct)
  case (recv c u packet)
  have same: "hellos (put_incoming d s raw v) = hellos v" "hellos (cleanup d v) = hellos v"
    "hellos (fail_peer d e v) = hellos v" for d s raw e v
    by (simp_all add: put_incoming_def cleanup_eq fail_peer_def)
  show ?case
  proof (cases "sock_recv packet = []")
    case True
    then show ?thesis by (simp add: handle_recv_def known_senders_def same)
  next
    case False
    then show ?thesis
      by (cases rule: handle_recv_cases[of "sock_recv packet" u c pb]) (auto simp: known_senders_def same)
  qed
next
  case (shutdown u)
  have "hellos (cancel_peer c v) = hellos v" for c v
    by (simp add: cancel_peer_def cleanup_eq split: phase.splits)
  then have "hellos (fold cancel_peer cs v) = hellos v" for cs v
    by (induction cs arbitrary: v) simp_all
  then show ?case by (simp add: serve_shutdown_def known_senders_def)
qed (auto simp: known_senders_def accept_peer_def fail_peer_def cleanup_eq put_incoming_def cancel_peer_def
    writer_take_def writer_sent_def writer_fails_eq uds_send_def split: phase.splits option.splits)

lemma admitted_server:
  assumes "admitted pb expected reg u" "uds_step pb u l u'"
  shows "admitted pb expected reg u'"
  using assms hellos_step[OF assms(2)] reachable_step[of _ _ u u']
  by (auto simp: admitted_def)

lemma admitted_message:
  assumes "admitted pb expected (w_registry w) (w_ipc w)" "incoming (w_ipc w) = (s, raw) # ms"
    and "handle_incoming pb t s raw (w\<lparr>w_ipc := (w_ipc w)\<lparr>incoming := ms\<rparr>\<rparr>) = (r, w')"
  shows "admitted pb expected (w_registry w') (w_ipc w')"
proof -
  let ?u = "(w_ipc w)\<lparr>incoming := ms\<rparr>"
  have u: "w_ipc w' = ?u" using handle_incoming_keeps_ipc[OF assms(3)] by simp
  have "uds_step pb (w_ipc w) GetIncoming ?u" by (rule uds_step.get[OF assms(2)])
  note adm = admitted_server[OF assms(1) this]
  have "uds_inv (w_ipc w)" using assms(1) reachable_inv by (auto simp: admitted_def)
  then have "s \<in> known_senders (w_ipc w)" using assms(2) by (auto simp: uds_inv_def)
  then have "s \<in> known_senders ?u" by (simp add: known_senders_def)
  then show ?thesis
    using adm handle_incoming_registered[OF assms(3)] unfolding u by (auto simp: admitted_def)
qed

definition admitted_world :: "protobuf \<Rightarrow> bytes \<Rightarrow> uds world \<Rightarrow> bool" where
  "admitted_world pb expected w \<longleftrightarrow> admitted pb expected (w_registry w) (w_ipc w)"

lemma admitted_tasks:
  assumes "(tasks_step pb)\<^sup>*\<^sup>* x y" "admitted pb expected (fst x) (snd (snd x))"
  shows "admitted pb expected (fst y) (snd (snd y))"
  using assms
proof (induction rule: rtranclp_induct)
  case (step y z)
  from step.hyps(2) step.IH[OF step.prems] show ?case
    by (cases rule: tasks_step.cases) (auto simp: shared_part_def intro: admitted_server admitted_message)
qed simp

lemma admitted_kept:
  assumes "over_tasks pb P"
  shows "kept_by_ports P (admitted_world pb expected)"
proof -
  have "admitted_world pb expected (snd (clock_sleep P d w))" if "admitted_world pb expected w" for d w
    using admitted_tasks[of pb "shared_part w" "snd (dp_sleep P d (w_trace w) (shared_part w))" expected] assms that
    by (auto simp: over_tasks_def admitted_world_def shared_part_def set_shared_def clock_sleep_def emit_def
        split: prod.splits)
  moreover have "admitted_world pb expected (snd (hasher_compute_hash P path w))"
    if "admitted_world pb expected w" for path w
    using admitted_tasks[of pb "shared_part w" "snd (dp_compute_hash P path (w_trace w) (shared_part w))" expected]
      assms that
    by (auto simp: over_tasks_def admitted_world_def shared_part_def set_shared_def hasher_compute_hash_def
        split: prod.splits)
  moreover have "admitted_world pb expected (snd (ipc_send P s p w))" if "admitted_world pb expected w" for s p w
    using admitted_server[OF that[unfolded admitted_world_def] uds_step.send[of pb _ s p]] assms
    by (auto simp: over_tasks_def admitted_world_def ipc_send_def emit_def split: prod.splits)
  moreover have "admitted_world pb expected (w\<lparr>w_registry := remove s (w_registry w)\<rparr>)"
    if "admitted_world pb expected w" for s w
    using that registered_remove by (fastforce simp: admitted_world_def admitted_def)
  moreover have "admitted_world pb expected (w\<lparr>w_registry := snd (active_senders t (w_registry w))\<rparr>)"
    if "admitted_world pb expected w" for t w
    using that registered_active by (fastforce simp: admitted_world_def admitted_def)
  ultimately show ?thesis by (simp add: kept_by_ports_def) (simp add: admitted_world_def emit_def)
qed

text \<open>The system of server, message loop and dispatches.\<close>

interpretation ingress: invariant_system "ingress_init expected" "\<lambda>w w'. over_tasks pb P \<and> ingress_step pb P C w w'"
    "admitted_world pb expected"
  for expected pb P C
proof (unfold_locales, goal_cases)
  case (1 w)
  then show ?case
    by (auto simp: ingress_init_def admitted_world_def admitted_def registered_senders_def uds_init_def intro: reachable_init)
next
  case (2 w w')
  then have over: "over_tasks pb P" and step: "ingress_step pb P C w w'" by auto
  from step 2(1) show ?case
  proof (cases rule: ingress_step.cases)
    case (dispatches path q)
    show ?thesis
      by (rule holds_dispatch_same[OF admitted_kept[OF over] 2(1) dispatches]) (simp add: admitted_world_def)
  qed (auto simp: admitted_world_def intro: admitted_server admitted_message)
qed

lemma ingress_reachable_admitted:
  assumes "over_tasks pb P" "reachable (ingress_init expected) (ingress_step pb P C) w"
  shows "admitted_world pb expected w"
proof -
  have "reachable (ingress_init expected) (\<lambda>w w'. over_tasks pb P \<and> ingress_step pb P C w w') w"
    using assms by simp
  then show ?thesis by (rule ingress.inv_reachable)
qed

lemma inputs_verified:
  assumes "over_tasks pb P" "admitted_world pb expected w"
    and "dispatch_inputs P C path w = Inr (sf, active, sid, n, w2)" "s \<in> set active"
  shows "s \<in> known_senders (w_ipc w2) \<and> uds_reachable pb expected (w_ipc w2)"
proof (cases rule: dispatch_inputs_cases[of P path C w])
  case (ready sz h w1 act reg)
  with assms(3) have eq: "active = act" "w2 = w1\<lparr>w_registry := reg\<rparr>"
    by (auto simp: dispatch_inputs_def res_simps)
  note kept = admitted_kept[OF assms(1), of expected]
  have "admitted_world pb expected w2"
    unfolding eq(2) by (rule holds_active[OF kept holds_hash[OF kept assms(2) ready(2)] ready(3)])
  moreover have "s \<in> registered_senders reg"
    using assms(4) active_registered[of "dp_now P (w_trace w1)" "w_registry w1"] by (simp add: ready(3) eq(1))
  ultimately show ?thesis by (auto simp: admitted_world_def admitted_def eq(2))
qed (use assms(3) in auto)

section \<open>A concrete run\<close>

text \<open>Sender 7 connects, says hello, and the message loop registers it.\<close>

definition ingress_world :: "uds \<Rightarrow> uds world" where
  "ingress_world u = \<lparr>w_registry = SenderRegistry 5, w_ipc = u, dispatched_sessions = [], w_trace = []\<rparr>"

definition registered_world :: "uds world" where
  "registered_world = (ingress_world (connected_once\<lparr>incoming := []\<rparr>))
     \<lparr>w_registry := register 1 7 (SenderRegistry 5)\<rparr>"

lemma example_over_tasks: "over_tasks unary_protobuf example_uds_ports"
  by (simp add: over_tasks_def example_uds_ports_def)

abbreviation example_ingress :: "uds world \<Rightarrow> bool" where
  "example_ingress \<equiv> reachable (ingress_init [1]) (ingress_step unary_protobuf example_uds_ports example_config)"

lemma ingress_server_step:
  "example_ingress (ingress_world u) \<Longrightarrow> uds_step unary_protobuf u l u' \<Longrightarrow> l \<noteq> GetIncoming \<Longrightarrow>
    example_ingress (ingress_world u')"
  using ingress_step.server[of unary_protobuf "ingress_world u" l u' example_uds_ports example_config]
  by (auto simp: ingress_world_def intro: reachable_step)

lemma registered_world_reachable: "example_ingress registered_world"
proof -
  let ?u0 = "UdsIpcServer [1]"
  let ?u1 = "accept_peer ?u0"
  let ?u2 = "upd_conn 0 (\<lambda>k. k\<lparr>c_phase := Reading\<rparr>) ?u1"
  let ?w = "ingress_world connected_once"
  have "example_ingress (ingress_world ?u0)"
    by (rule reachable_init) (simp add: ingress_init_def ingress_world_def SenderRegistry_def)
  then have "example_ingress (ingress_world ?u1)"
    by (rule ingress_server_step[OF _ uds_step.accept]) (simp_all add: UdsIpcServer_def)
  then have "example_ingress (ingress_world ?u2)"
    by (rule ingress_server_step[OF _ uds_step.start])
      (simp_all add: accept_peer_def UdsIpcServer_def new_connection_def)
  moreover have "uds_step unary_protobuf ?u2 (Recv 0 hello_bytes) connected_once"
    using uds_step.recv[of 0 ?u2 unary_protobuf hello_bytes]
    by (simp add: sock_recv_hello connected_once_def accept_peer_def UdsIpcServer_def conns_upd_conn)
  ultimately have "example_ingress ?w" by (rule ingress_server_step) simp
  moreover have "incoming (w_ipc ?w) = (7, hello_bytes) # []"
    by (simp add: ingress_world_def connected_once_eq)
  moreover have "handle_incoming unary_protobuf 1 7 hello_bytes (?w\<lparr>w_ipc := (w_ipc ?w)\<lparr>incoming := []\<rparr>\<rparr>)
      = (Inr (), registered_world)"
    by (simp add: handle_incoming_def decode_hello_bytes handlers_get handle_sender_hello_def
        registered_world_def ingress_world_def)
  ultimately show ?thesis by (blast intro: reachable_step ingress_step.message)
qed

lemma registered_world_inputs:
  "\<exists>sf sid n w2. dispatch_inputs example_uds_ports example_config example_path registered_world
    = Inr (sf, [7], sid, n, w2) \<and> w_ipc w2 = connected_once\<lparr>incoming := []\<rparr>"
proof -
  have "timeout_seconds (SenderRegistry 5) = 15"
    using default_timeout by (simp add: HEARTBEAT_INTERVAL_SECONDS_def)
  then have "py_fmul 5 (of_int MISSED_HEARTBEAT_LIMIT) = 15" by (simp add: SenderRegistry_def)
  then have "active_senders 1 (w_registry registered_world) = ([7], w_registry registered_world)"
    by (simp add: registered_world_def ingress_world_def active_senders_def purge_expired_def expired_at_def
        register_def SenderRegistry_def)
  moreover have "calculate_block_count 10 example_fec = Inr 10"
    using calculate_block_count_eq[of example_fec 10] example_config_valid(1)
    by (simp add: example_config_def example_fec_def block_size_def ceil_div_def)
  ultimately show ?thesis
    by (simp add: dispatch_inputs_def hasher_compute_hash_def shared_part_def set_shared_def
        example_uds_ports_def example_config_def registered_world_def ingress_world_def)
qed

section \<open>Properties\<close>

text \<open>C10: Only senders that proved the contract get a shard: whatever messages, connections, timeouts and
  dispatches came before, in whatever order, each sender a dispatch shares the blocks among has said
  hello with the expected contract hash on a connection of this server.\<close>

theorem only_verified_senders_get_shards:
  assumes "over_tasks pb P" "reachable (ingress_init expected) (ingress_step pb P C) w"
    and "dispatch_inputs P C path w = Inr (sf, active, sid, n, w2)" "s \<in> set active"
  shows "\<exists>h \<in> set (hellos (w_ipc w2)). hello_sender_id h = s \<and> hello_proto_hash h = expected"
proof -
  have known: "s \<in> known_senders (w_ipc w2)" and reach: "uds_reachable pb expected (w_ipc w2)"
    using inputs_verified[OF assms(1) ingress_reachable_admitted[OF assms(1,2)] assms(3,4)] by auto
  have "uds_inv (w_ipc w2) \<and> expected_proto_hash (w_ipc w2) = expected"
    by (rule uds_system.inv_reachable[OF reach])
  with known show ?thesis by (auto simp: known_senders_def uds_inv_def)
qed

theorem only_verified_senders_get_shards_witness:
  "\<exists>sf sid n w2. dispatch_inputs example_uds_ports example_config example_path registered_world
      = Inr (sf, [7], sid, n, w2)
    \<and> (\<exists>h \<in> set (hellos (w_ipc w2)). hello_sender_id h = 7 \<and> hello_proto_hash h = [1])"
proof -
  obtain sf sid n w2 where inp: "dispatch_inputs example_uds_ports example_config example_path registered_world
      = Inr (sf, [7], sid, n, w2)" using registered_world_inputs by blast
  have "7 \<in> set [7::SenderId]" by simp
  from only_verified_senders_get_shards[OF example_over_tasks registered_world_reachable inp this] inp
  show ?thesis by blast
qed

end
