(* ===== verification/Mailbox.thy ===== *)
theory Mailbox imports Uds begin

text \<open>
  What \<open>ipc/uds.py\<close> promises to those who send: one bounded first-in first-out mailbox for each
  connected sender. The specification knows no connections, tasks or sockets, only which senders have
  a mailbox and what waits in it. The server refines it: each step of a peer task, of a writer task,
  of \<open>send\<close> or of the shutdown shows one event of the specification or none.
\<close>

section \<open>The specification\<close>

type_synonym mailboxes = "SenderId \<rightharpoonup> bytes list"

datatype mailbox_event =
    Opened SenderId
  | Closed SenderId
  | Posted SenderId bytes
  | Taken SenderId bytes
  | AllClosed

inductive mailbox_step :: "mailboxes \<Rightarrow> mailbox_event \<Rightarrow> mailboxes \<Rightarrow> bool" where
  opened: "mailbox_step m (Opened s) (m(s \<mapsto> []))"
| closed: "m s \<noteq> None \<Longrightarrow> mailbox_step m (Closed s) (m(s := None))"
| posted: "m s = Some q \<Longrightarrow> length q < SEND_QUEUE_MAXSIZE \<Longrightarrow>
    mailbox_step m (Posted s p) (m(s \<mapsto> q @ [p]))"
| taken: "m s = Some (p # q) \<Longrightarrow> mailbox_step m (Taken s p) (m(s \<mapsto> q))"
| all_closed: "mailbox_step m AllClosed Map.empty"

inductive_simps mailbox_step_simps [simp]:
  "mailbox_step m (Opened s) m'" "mailbox_step m (Closed s) m'" "mailbox_step m (Posted s p) m'"
  "mailbox_step m (Taken s p) m'" "mailbox_step m AllClosed m'"

text \<open>What a sender's mailbox took in and gave out since it was last opened.\<close>

definition since_opened :: "SenderId \<Rightarrow> mailbox_event list \<Rightarrow> mailbox_event list" where
  "since_opened s es = rev (takeWhile (\<lambda>e. e \<noteq> Opened s) (rev es))"

fun posted_to :: "SenderId \<Rightarrow> mailbox_event list \<Rightarrow> bytes list" where
  "posted_to s [] = []"
| "posted_to s (Posted s' p # es) = (if s' = s then [p] else []) @ posted_to s es"
| "posted_to s (_ # es) = posted_to s es"

fun taken_from :: "SenderId \<Rightarrow> mailbox_event list \<Rightarrow> bytes list" where
  "taken_from s [] = []"
| "taken_from s (Taken s' p # es) = (if s' = s then [p] else []) @ taken_from s es"
| "taken_from s (_ # es) = taken_from s es"

lemma since_opened_snoc [simp]:
  "since_opened s (es @ [e]) = (if e = Opened s then [] else since_opened s es @ [e])"
  by (simp add: since_opened_def)

lemma posted_to_append [simp]: "posted_to s (xs @ ys) = posted_to s xs @ posted_to s ys"
  by (induction s xs rule: posted_to.induct) simp_all

lemma taken_from_append [simp]: "taken_from s (xs @ ys) = taken_from s xs @ taken_from s ys"
  by (induction s xs rule: taken_from.induct) simp_all

lemma mailbox_fifo:
  assumes "execution mailbox_step m0 es m" "m0 = Map.empty" "m s = Some q"
  shows "posted_to s (since_opened s es) = taken_from s (since_opened s es) @ q"
  using assms
proof (induction arbitrary: q rule: execution.induct)
  case (execution_snoc m0 es m e m')
  show ?case
  proof (cases "m s")
    case None
    with execution_snoc show ?thesis by (cases e) (auto split: if_splits)
  next
    case (Some q0)
    from execution_snoc.IH[OF execution_snoc.prems(1) this] execution_snoc.hyps(2) execution_snoc.prems(2) Some
    show ?thesis by (cases e) (auto split: if_splits)
  qed
qed simp

section \<open>The mailboxes of the server\<close>

definition mailboxes :: "uds \<Rightarrow> mailboxes" where
  "mailboxes u = (\<lambda>s. map_option (\<lambda>c. c_queue (conns u ! c)) (dict_get (peers u) s))"

definition route_closed :: "uds \<Rightarrow> nat \<Rightarrow> mailbox_event option" where
  "route_closed u c =
     (case c_sender (conns u ! c) of
        None \<Rightarrow> None
      | Some s \<Rightarrow> if dict_get (peers u) s = Some c then Some (Closed s) else None)"

fun observe_mailbox :: "protobuf \<Rightarrow> uds \<Rightarrow> uds_label \<Rightarrow> mailbox_event option" where
  "observe_mailbox pb u (Recv c packet) =
     (if sock_recv packet = [] then route_closed u c
      else if c_sender (conns u ! c) \<noteq> None then None
      else case fst (complete_handshake pb c (sock_recv packet) u) of
        Inr s \<Rightarrow> Some (Opened s) | Inl e \<Rightarrow> None)"
| "observe_mailbox pb u (RecvFails c e) = route_closed u c"
| "observe_mailbox pb u (CancelPeer c) = route_closed u c"
| "observe_mailbox pb u (WriterFails c) = route_closed u c"
| "observe_mailbox pb u (WriterTakes c) =
     (case c_sender (conns u ! c) of
        None \<Rightarrow> None
      | Some s \<Rightarrow> if dict_get (peers u) s = Some c then Some (Taken s (hd (c_queue (conns u ! c)))) else None)"
| "observe_mailbox pb u (Send s p) = (if fst (uds_send s p u) = Inr () then Some (Posted s p) else None)"
| "observe_mailbox pb u Shutdown = Some AllClosed"
| "observe_mailbox pb u _ = None"

definition matches :: "mailboxes \<Rightarrow> mailbox_event option \<Rightarrow> mailboxes \<Rightarrow> bool" where
  "matches m ev m' \<longleftrightarrow> (case ev of None \<Rightarrow> m' = m | Some e \<Rightarrow> mailbox_step m e m')"

lemma mailboxes_same:
  assumes "\<And>s. dict_get (peers u') s = dict_get (peers u) s"
    and "\<And>s c. dict_get (peers u) s = Some c \<Longrightarrow> c_queue (conns u' ! c) = c_queue (conns u ! c)"
  shows "mailboxes u' = mailboxes u"
proof
  fix s
  show "mailboxes u' s = mailboxes u s"
    using assms by (cases "dict_get (peers u) s") (simp_all add: mailboxes_def)
qed

text \<open>A connection that goes takes its own mailbox with it, if it still has one.\<close>

lemma mailboxes_closed:
  assumes "uds_inv u"
    and "\<And>s. dict_get (peers u') s = (if dict_get (peers u) s = Some c then None else dict_get (peers u) s)"
    and "\<And>d. d \<noteq> c \<Longrightarrow> c_queue (conns u' ! d) = c_queue (conns u ! d)"
  shows "matches (mailboxes u) (route_closed u c) (mailboxes u')"
proof (cases "\<exists>s. dict_get (peers u) s = Some c")
  case True
  then obtain s where s: "dict_get (peers u) s = Some c" by blast
  then have ev: "route_closed u c = Some (Closed s)"
    using inv_serves[OF assms(1) s] by (simp add: route_closed_def serves_def)
  have "mailboxes u' s' = ((mailboxes u)(s := None)) s'" for s'
    using assms(2)[of s'] assms(3) peers_injective[OF assms(1) s, of s'] s
    by (cases "dict_get (peers u) s'") (auto simp: mailboxes_def)
  then show ?thesis using s by (auto simp: matches_def ev mailboxes_def)
next
  case False
  then have "route_closed u c = None" by (auto simp: route_closed_def split: option.splits)
  moreover have "mailboxes u' = mailboxes u"
  proof (rule mailboxes_same)
    fix s d
    assume d: "dict_get (peers u) s = Some d"
    with False have "d \<noteq> c" by auto
    then show "c_queue (conns u' ! d) = c_queue (conns u ! d)" by (rule assms(3))
  qed (use False assms(2) in auto)
  ultimately show ?thesis by (simp add: matches_def)
qed

lemma mailboxes_cleanup:
  "uds_inv u \<Longrightarrow> matches (mailboxes u) (route_closed u c) (mailboxes (cleanup c u))"
  by (rule mailboxes_closed) (simp_all add: peers_cleanup, simp add: cleanup_eq conns_upd_conn)

lemma mailboxes_fail_peer:
  assumes "uds_inv u" "c < length (conns u)"
  shows "matches (mailboxes u) (route_closed u c) (mailboxes (fail_peer c e u))"
  by (rule mailboxes_closed[OF assms(1)])
    (simp add: peers_fail_peer assms, simp add: fail_peer_def cleanup_eq conns_upd_conn)

lemma mailboxes_put_incoming: "mailboxes (put_incoming c s raw u) = mailboxes u"
  by (rule mailboxes_same) (simp_all add: put_incoming_def conns_upd_conn)

lemma mailboxes_cancel:
  assumes "uds_inv u" "c < length (conns u)"
  shows "matches (mailboxes u) (route_closed u c) (mailboxes (cancel_peer c u))"
proof (cases "c_phase (conns u ! c) = Created \<or> c_phase (conns u ! c) = Finished")
  case True
  then have none: "dict_get (peers u) s \<noteq> Some c" for s
    using inv_serves[OF assms(1), of s c] by (auto simp: serves_def live_def)
  then have "route_closed u c = None" by (simp add: route_closed_def split: option.splits)
  moreover have "mailboxes (cancel_peer c u) = mailboxes u"
    by (rule mailboxes_same) (use True none in \<open>auto simp: cancel_peer_def conns_upd_conn\<close>)
  ultimately show ?thesis by (simp add: matches_def)
next
  case False
  then have "cancel_peer c u = cleanup c u" by (auto simp: cancel_peer_def split: phase.splits)
  then show ?thesis by (simp add: mailboxes_cleanup assms(1))
qed

lemma mailboxes_register_peer:
  assumes "uds_inv u" "c < length (conns u)" "c_sender (conns u ! c) = None"
  shows "mailboxes (register_peer c hello u) = (mailboxes u)(hello_sender_id hello \<mapsto> [])"
proof
  fix s
  have "c_queue (conns u ! c) = []"
    using inv_connection[OF assms(1,2)] assms(3) by (auto simp: connection_ok_def)
  then show "mailboxes (register_peer c hello u) s = ((mailboxes u)(hello_sender_id hello \<mapsto> [])) s"
    using assms(2) by (cases "dict_get (peers u) s")
      (auto simp: mailboxes_def register_peer_def conns_upd_conn)
qed

lemma mailboxes_recv:
  assumes "uds_inv u" "c < length (conns u)"
  shows "matches (mailboxes u) (observe_mailbox pb u (Recv c packet))
    (mailboxes (handle_recv pb c (sock_recv packet) u))"
proof (cases "sock_recv packet = []")
  case True
  then show ?thesis using mailboxes_cleanup[OF assms(1)] by (simp add: handle_recv_def)
next
  case False
  then show ?thesis
  proof (cases rule: handle_recv_cases[of "sock_recv packet" u c pb])
    case (again s)
    with False show ?thesis by (simp add: matches_def mailboxes_put_incoming)
  next
    case (hello hello)
    then have "fst (complete_handshake pb c (sock_recv packet) u) = Inr (hello_sender_id hello)"
      by (simp add: complete_handshake_def verify_proto_hash_def)
    with False hello show ?thesis
      by (simp add: matches_def mailboxes_put_incoming mailboxes_register_peer assms)
  next
    case (refused e)
    then have "route_closed u c = None" by (simp add: route_closed_def)
    with False refused mailboxes_fail_peer[OF assms, of e] show ?thesis by simp
  qed
qed

lemma mailboxes_send:
  assumes "uds_inv u"
  shows "matches (mailboxes u) (observe_mailbox pb u (Send s p)) (mailboxes (snd (uds_send s p u)))"
proof (cases "fst (uds_send s p u) = Inr ()")
  case True
  then obtain c where c: "dict_get (peers u) s = Some c" "length (c_queue (conns u ! c)) < SEND_QUEUE_MAXSIZE"
    by (auto simp: uds_send_def split: option.splits if_splits)
  have "mailboxes (snd (uds_send s p u)) s' = ((mailboxes u)(s \<mapsto> c_queue (conns u ! c) @ [p])) s'" for s'
    using c inv_peer_index[OF assms c(1)] peers_injective[OF assms c(1), of s']
    by (cases "dict_get (peers u) s'") (auto simp: mailboxes_def uds_send_def conns_upd_conn)
  then have "mailboxes (snd (uds_send s p u)) = (mailboxes u)(s \<mapsto> c_queue (conns u ! c) @ [p])" by blast
  with True c show ?thesis by (simp add: matches_def mailboxes_def)
next
  case False
  then have "snd (uds_send s p u) = u"
    by (auto simp: uds_send_def split: option.splits if_splits)
  with False show ?thesis by (simp add: matches_def)
qed

lemma mailboxes_take:
  assumes "uds_inv u" "c < length (conns u)" "c_queue (conns u ! c) \<noteq> []"
  shows "matches (mailboxes u) (observe_mailbox pb u (WriterTakes c)) (mailboxes (writer_take c u))"
proof (cases "\<exists>s. dict_get (peers u) s = Some c")
  case True
  then obtain s where s: "dict_get (peers u) s = Some c" by blast
  then have "c_sender (conns u ! c) = Some s"
    using inv_serves[OF assms(1) s] by (simp add: serves_def)
  moreover have "mailboxes (writer_take c u) s' = ((mailboxes u)(s \<mapsto> tl (c_queue (conns u ! c)))) s'" for s'
    using s assms(2) peers_injective[OF assms(1) s, of s']
    by (cases "dict_get (peers u) s'") (auto simp: mailboxes_def writer_take_def conns_upd_conn)
  then have "mailboxes (writer_take c u) = (mailboxes u)(s \<mapsto> tl (c_queue (conns u ! c)))" by blast
  moreover have "mailboxes u s = Some (hd (c_queue (conns u ! c)) # tl (c_queue (conns u ! c)))"
    using s assms(3) by (simp add: mailboxes_def)
  ultimately show ?thesis using s by (auto simp: matches_def simp del: list.collapse)
next
  case False
  moreover have "mailboxes (writer_take c u) = mailboxes u"
    by (rule mailboxes_same) (use False in \<open>auto simp: writer_take_def conns_upd_conn\<close>)
  ultimately show ?thesis by (auto simp: matches_def split: option.splits)
qed

lemma mailbox_simulation:
  "uds_step pb u l u' \<Longrightarrow> uds_inv u \<Longrightarrow> matches (mailboxes u) (observe_mailbox pb u l) (mailboxes u')"
proof (induction rule: uds_step.induct)
  case (accept u)
  then show ?case
    by (auto simp: matches_def accept_peer_def nth_append dest: inv_peer_index intro!: mailboxes_same)
next
  case (fails c u payload)
  then show ?case
    by (simp, intro mailboxes_closed) (simp_all add: writer_fails_eq get_drop_peer conns_upd_conn)
next
  case (shutdown u)
  have "mailboxes (serve_shutdown u) = Map.empty"
    by (simp add: fun_eq_iff mailboxes_def shutdown_no_peers[OF shutdown.prems])
  then show ?case by (simp add: matches_def)
next
  case (get u m ms)
  then show ?case by (simp add: matches_def mailboxes_def)
qed (simp_all add: mailboxes_recv mailboxes_fail_peer mailboxes_cancel mailboxes_take mailboxes_send
    del: observe_mailbox.simps(1,5,6),
    auto simp: matches_def writer_sent_def conns_upd_conn mailboxes_put_incoming intro!: mailboxes_same)

interpretation server_mailboxes: simulation "uds_step pb" uds_inv mailboxes mailbox_step "observe_mailbox pb"
  for pb
proof unfold_locales
  show "uds_inv u'" if "uds_inv u" "uds_step pb u l u'" for u l u'
    using inv_uds_step that by blast
  show "mailboxes u' = mailboxes u"
    if "uds_inv u" "uds_step pb u l u'" "observe_mailbox pb u l = None" for u l u'
    using mailbox_simulation[OF that(2,1)] that(3) by (simp add: matches_def)
  show "mailbox_step (mailboxes u) e (mailboxes u')"
    if "uds_inv u" "uds_step pb u l u'" "observe_mailbox pb u l = Some e" for u l u' e
    using mailbox_simulation[OF that(2,1)] that(3) by (simp add: matches_def)
qed

lemma mailboxes_init: "mailboxes (UdsIpcServer expected) = Map.empty"
  by (simp add: mailboxes_def UdsIpcServer_def fun_eq_iff)

lemma server_run_refines:
  assumes "execution (observed (uds_step pb) (observe_mailbox pb)) (UdsIpcServer expected) run u"
  shows "uds_inv u" "execution mailbox_step Map.empty (shown run) (mailboxes u)"
  using server_mailboxes.simulates[OF assms inv_uds_init] by (simp_all add: mailboxes_init)

section \<open>A writer drains its queue\<close>

lemma drain_step:
  assumes "c < length (conns u)" "c_writer (conns u ! c) = WriterIdle" "c_queue (conns u ! c) = p # q"
  defines "u' \<equiv> writer_sent c p (writer_take c u)"
  shows "execution (uds_step pb) u [WriterTakes c, WriterSent c] u'"
    and "c < length (conns u')" "c_writer (conns u' ! c) = WriterIdle" "c_queue (conns u' ! c) = q"
    and "c_wire (conns u' ! c) = c_wire (conns u ! c) @ [p]" "peers u' = peers u"
    and "c_accepted (conns u' ! c) = c_accepted (conns u ! c)"
proof -
  have "uds_step pb u (WriterTakes c) (writer_take c u)"
    by (rule uds_step.take) (use assms in auto)
  moreover have "uds_step pb (writer_take c u) (WriterSent c) u'"
    unfolding u'_def by (rule uds_step.sent) (use assms in \<open>simp_all add: writer_take_def conns_upd_conn\<close>)
  ultimately show "execution (uds_step pb) u [WriterTakes c, WriterSent c] u'"
    by (blast intro: execution_Cons execution_nil)
qed (use assms in \<open>simp_all add: writer_take_def writer_sent_def conns_upd_conn\<close>)

lemma writer_drains:
  assumes "c < length (conns u)" "c_writer (conns u ! c) = WriterIdle"
  shows "\<exists>ls u'. execution (uds_step pb) u ls u' \<and> set ls \<subseteq> {WriterTakes c, WriterSent c}
    \<and> length ls = 2 * length (c_queue (conns u ! c)) \<and> c_queue (conns u' ! c) = []
    \<and> c_wire (conns u' ! c) = c_wire (conns u ! c) @ c_queue (conns u ! c) \<and> peers u' = peers u"
  using assms
proof (induction "c_queue (conns u ! c)" arbitrary: u)
  case Nil
  then show ?case by (auto intro!: exI[of _ "[]"] exI[of _ u] execution_nil)
next
  case (Cons p q)
  note step = drain_step[OF Cons.prems Cons.hyps(2)[symmetric]]
  let ?u = "writer_sent c p (writer_take c u)"
  obtain ls u' where "execution (uds_step pb) ?u ls u'" "set ls \<subseteq> {WriterTakes c, WriterSent c}"
    "length ls = 2 * length q" "c_queue (conns u' ! c) = []"
    "c_wire (conns u' ! c) = c_wire (conns u ! c) @ [p] @ q" "peers u' = peers u"
    using Cons.hyps(1)[of ?u] step by auto
  moreover have "length (c_queue (conns u ! c)) = Suc (length q)" using Cons.hyps(2)[symmetric] by simp
  ultimately show ?case
    using Cons.hyps(2) execution_append[OF _ step(1)]
    by (intro exI[of _ "[WriterTakes c, WriterSent c] @ ls"] exI[of _ u']) auto
qed

text \<open>The same from a writer that is in the middle of a payload.\<close>

lemma accepted_can_be_written:
  assumes "uds_inv u" "dict_get (peers u) s = Some c"
  shows "\<exists>ls u'. execution (uds_step pb) u ls u' \<and> set ls \<subseteq> {WriterTakes c, WriterSent c}
    \<and> length ls \<le> 2 * SEND_QUEUE_MAXSIZE + 1 \<and> c_queue (conns u' ! c) = []
    \<and> c_wire (conns u' ! c) = c_accepted (conns u ! c) \<and> peers u' = peers u"
proof -
  note c = inv_peer_index[OF assms] and serv = inv_serves[OF assms]
  note ok = inv_connection[OF assms(1) c, unfolded connection_ok_def]
  show ?thesis
  proof (cases "c_writer (conns u ! c) = WriterIdle")
    case True
    with writer_drains[OF c True, of pb] ok show ?thesis by fastforce
  next
    case False
    then obtain p where p: "c_writer (conns u ! c) = WriterSending p"
      using serv by (auto simp: serves_def)
    let ?u = "writer_sent c p u"
    have step: "uds_step pb u (WriterSent c) ?u" by (rule uds_step.sent[OF c p])
    have "c < length (conns ?u)" "c_writer (conns ?u ! c) = WriterIdle" "peers ?u = peers u"
      "c_queue (conns ?u ! c) = c_queue (conns u ! c)" "c_wire (conns ?u ! c) = c_wire (conns u ! c) @ [p]"
      using c by (simp_all add: writer_sent_def conns_upd_conn)
    with writer_drains[of c ?u pb] obtain ls u' where "execution (uds_step pb) ?u ls u'"
      "set ls \<subseteq> {WriterTakes c, WriterSent c}" "length ls = 2 * length (c_queue (conns u ! c))"
      "c_queue (conns u' ! c) = []" "peers u' = peers u"
      "c_wire (conns u' ! c) = c_wire (conns u ! c) @ p # c_queue (conns u ! c)"
      by auto
    with execution_Cons[OF step this(1)] ok p show ?thesis
      by (intro exI[of _ "WriterSent c # ls"] exI[of _ u']) auto
  qed
qed

section \<open>A concrete run\<close>

text \<open>Sender 7 connects, two payloads are sent to it and its writer takes the first.\<close>

definition two_sent :: uds where
  "two_sent = connected_once\<lparr>conns := [(conns connected_once ! 0)
     \<lparr>c_queue := [[5], [6]], c_accepted := [[5], [6]]\<rparr>]\<rparr>"

definition example_run :: "(uds_label \<times> mailbox_event option) list" where
  "example_run = [(AcceptPeer, None), (StartPeer 0, None), (Recv 0 hello_bytes, Some (Opened 7)),
     (Send 7 [5], Some (Posted 7 [5])), (Send 7 [6], Some (Posted 7 [6])), (WriterTakes 0, Some (Taken 7 [5]))]"

lemmas run_snoc = observed_snoc[where lstep = "uds_step unary_protobuf"
  and observe = "observe_mailbox unary_protobuf"]

lemma example_run_connects:
  "execution (observed (uds_step unary_protobuf) (observe_mailbox unary_protobuf)) (UdsIpcServer [1])
    [(AcceptPeer, None), (StartPeer 0, None), (Recv 0 hello_bytes, Some (Opened 7))] connected_once"
proof -
  let ?u0 = "UdsIpcServer [1]"
  let ?u1 = "accept_peer ?u0"
  let ?u2 = "upd_conn 0 (\<lambda>k. k\<lparr>c_phase := Reading\<rparr>) ?u1"
  have new: "0 < length (conns ?u1)" "c_phase (conns ?u1 ! 0) = Created" "listening ?u0"
    by (simp_all add: accept_peer_def UdsIpcServer_def new_connection_def)
  have read: "0 < length (conns ?u2)" "c_phase (conns ?u2 ! 0) = Reading" "c_sender (conns ?u2 ! 0) = None"
    by (simp_all add: accept_peer_def UdsIpcServer_def upd_conn_def new_connection_def)
  have recv: "uds_step unary_protobuf ?u2 (Recv 0 hello_bytes) connected_once"
    using uds_step.recv[OF read(1,2), of unary_protobuf hello_bytes]
    by (simp add: sock_recv_hello connected_once_def)
  have "fst (complete_handshake unary_protobuf 0 hello_bytes ?u2) = Inr 7"
    by (subst handshake_hello) (simp_all add: accept_peer_def UdsIpcServer_def)
  then have ev: "Some (Opened 7) = observe_mailbox unary_protobuf ?u2 (Recv 0 hello_bytes)"
    using read(3) hello_bytes_nonempty by (simp add: sock_recv_hello)
  let ?steps = "observed (uds_step unary_protobuf) (observe_mailbox unary_protobuf)"
  have "execution ?steps ?u0 ([] @ [(AcceptPeer, None)]) ?u1"
    by (rule run_snoc[OF execution_nil uds_step.accept[OF new(3)]]) simp
  then have "execution ?steps ?u0 (([] @ [(AcceptPeer, None)]) @ [(StartPeer 0, None)]) ?u2"
    by (rule run_snoc[OF _ uds_step.start[OF new(1,2)]]) simp
  from run_snoc[OF this recv ev] show ?thesis by simp
qed

lemma example_run_execution:
  "execution (observed (uds_step unary_protobuf) (observe_mailbox unary_protobuf)) (UdsIpcServer [1])
    example_run (writer_take 0 two_sent)"
proof -
  let ?u1 = "snd (uds_send 7 [5] connected_once)"
  have sends: "snd (uds_send 7 [6] ?u1) = two_sent" "fst (uds_send 7 [5] connected_once) = Inr ()"
    "fst (uds_send 7 [6] ?u1) = Inr ()"
    by (simp_all add: uds_send_def connected_once_eq two_sent_def upd_conn_def SEND_QUEUE_MAXSIZE_def
        new_connection_def)
  have "uds_step unary_protobuf two_sent (WriterTakes 0) (writer_take 0 two_sent)"
    by (rule uds_step.take) (simp_all add: two_sent_def connected_once_eq)
  note take = run_snoc[OF _ this]
  have "uds_step unary_protobuf ?u1 (Send 7 [6]) two_sent"
    using uds_step.send[of unary_protobuf ?u1 7 "[6]"] by (simp add: sends)
  note send2 = run_snoc[OF _ this]
  note send1 = run_snoc[OF example_run_connects uds_step.send[of _ _ 7 "[5]"]]
  have "Some (Taken 7 [5]) = observe_mailbox unary_protobuf two_sent (WriterTakes 0)"
    by (simp add: two_sent_def connected_once_eq)
  from take[OF send2[OF send1] this] show ?thesis by (simp add: example_run_def sends)
qed

section \<open>Properties\<close>

text \<open>C4: The server is a bank of bounded mailboxes: whatever its tasks do, in whatever order, the run it
  makes is a run of the specification, in which a hello opens an empty mailbox for its sender, a
  connection that ends closes the mailbox that is still its own and no other, a send that returns
  puts its payload last, a writer takes the first, and the shutdown closes all; and what a send
  returns is what the sender's mailbox says, unknown, full or accepted.\<close>

theorem server_refines_mailboxes:
  assumes "execution (observed (uds_step pb) (observe_mailbox pb)) (UdsIpcServer expected) run u"
  shows "execution mailbox_step Map.empty (shown run) (mailboxes u)
    \<and> fst (uds_send s p u) = (case mailboxes u s of
        None \<Rightarrow> Inl (IpcError (UnknownSenderError s))
      | Some q \<Rightarrow> if length q < SEND_QUEUE_MAXSIZE then Inr () else Inl (IpcError (SendQueueFullError s)))"
  using server_run_refines(2)[OF assms]
  by (auto simp: mailboxes_def uds_send_def split: option.splits)

theorem server_refines_mailboxes_witness:
  "execution mailbox_step Map.empty [Opened 7, Posted 7 [5], Posted 7 [6], Taken 7 [5]]
      (mailboxes (writer_take 0 two_sent))
    \<and> fst (uds_send 8 [5] (writer_take 0 two_sent)) = Inl (IpcError (UnknownSenderError 8))"
proof -
  have "shown example_run = [Opened 7, Posted 7 [5], Posted 7 [6], Taken 7 [5]]"
    by (simp add: example_run_def)
  moreover have "mailboxes (writer_take 0 two_sent) 8 = None"
    by (simp add: mailboxes_def writer_take_def two_sent_def connected_once_eq)
  ultimately show ?thesis
    using server_refines_mailboxes[OF example_run_execution, of 8 "[5]"] by simp
qed

text \<open>C18: Payloads leave in the order they were accepted: since a sender last connected, what its writer
  took, followed by what waits in the queue, is what the sends for it accepted, so that none is lost,
  doubled or overtaken while the connection stands.\<close>

theorem payloads_taken_in_order:
  assumes "execution (observed (uds_step pb) (observe_mailbox pb)) (UdsIpcServer expected) run u"
    and "dict_get (peers u) s = Some c"
  shows "posted_to s (since_opened s (shown run))
    = taken_from s (since_opened s (shown run)) @ c_queue (conns u ! c)"
  by (rule mailbox_fifo[OF server_run_refines(2)[OF assms(1)]]) (simp_all add: mailboxes_def assms(2))

theorem payloads_taken_in_order_witness:
  "[[5], [6]] = [[5]] @ c_queue (conns (writer_take 0 two_sent) ! 0)"
proof -
  have "dict_get (peers (writer_take 0 two_sent)) 7 = Some 0"
    by (simp add: writer_take_def two_sent_def connected_once_eq)
  from payloads_taken_in_order[OF example_run_execution this] show ?thesis
    by (simp add: example_run_def since_opened_def)
qed

text \<open>C26: A payload accepted for a connected sender is never stuck: from every state the server can reach
  the sender's writer alone can put everything accepted for the connection on the wire, in order, within
  two steps for each place of the queue and one for the payload in flight.\<close>

theorem accepted_payloads_can_be_written:
  assumes "uds_reachable pb expected u" "dict_get (peers u) s = Some c"
  shows "\<exists>ls u'. execution (uds_step pb) u ls u' \<and> set ls \<subseteq> {WriterTakes c, WriterSent c}
    \<and> length ls \<le> 2 * SEND_QUEUE_MAXSIZE + 1 \<and> c_queue (conns u' ! c) = []
    \<and> c_wire (conns u' ! c) = c_accepted (conns u ! c) \<and> peers u' = peers u"
  by (rule accepted_can_be_written[OF reachable_inv[OF assms(1)] assms(2)])

theorem accepted_payloads_can_be_written_witness:
  "\<exists>ls u'. execution (uds_step unary_protobuf) (writer_take 0 two_sent) ls u'
    \<and> c_wire (conns u' ! 0) = [[5], [6]]"
proof -
  have "execution (uds_step unary_protobuf) (UdsIpcServer [1]) (map fst example_run) (writer_take 0 two_sent)"
    by (rule observed_execution[OF example_run_execution])
  then have reach: "uds_reachable unary_protobuf [1] (writer_take 0 two_sent)"
    by (rule execution_reachable) (simp add: uds_init_def reachable_init)
  have "dict_get (peers (writer_take 0 two_sent)) 7 = Some 0"
    "c_accepted (conns (writer_take 0 two_sent) ! 0) = [[5], [6]]"
    by (simp_all add: writer_take_def two_sent_def connected_once_eq conns_upd_conn)
  with accepted_payloads_can_be_written[OF reach this(1)] show ?thesis by auto
qed

end
