(* ===== verification/Egress.thy ===== *)
theory Egress imports Mailbox Delivery begin

text \<open>
  From the dispatcher to the wire: what a dispatch handed to the server and what the writers of the
  server can put on the senders' sockets.
\<close>

section \<open>Several writers\<close>

definition writer_labels :: "uds_label set" where
  "writer_labels = range WriterTakes \<union> range WriterSent"

text \<open>A writer shortens no wire and changes no route.\<close>

lemma writer_step_keeps:
  assumes "uds_step pb u l u'" "l \<in> writer_labels"
  shows "prefix (c_wire (conns u ! d)) (c_wire (conns u' ! d))" "peers u' = peers u"
    and "c_accepted (conns u' ! d) = c_accepted (conns u ! d)"
  using assms
  by (cases rule: uds_step.cases; auto simp: writer_labels_def writer_take_def writer_sent_def conns_upd_conn)+

lemma writers_keep:
  assumes "execution (uds_step pb) u ls u'" "set ls \<subseteq> writer_labels"
  shows "prefix (c_wire (conns u ! d)) (c_wire (conns u' ! d)) \<and> peers u' = peers u
    \<and> c_accepted (conns u' ! d) = c_accepted (conns u ! d)"
  using assms
proof (induction rule: execution.induct)
  case (execution_snoc u ls u1 l u2)
  then show ?case using writer_step_keeps[OF execution_snoc.hyps(2)] by (auto intro: prefix_order.trans)
qed simp

lemma all_can_be_written:
  assumes "uds_inv u" "\<forall>s\<in>set ss. dict_get (peers u) s \<noteq> None"
  shows "\<exists>ls u'. execution (uds_step pb) u ls u' \<and> set ls \<subseteq> writer_labels
    \<and> length ls \<le> (2 * SEND_QUEUE_MAXSIZE + 1) * length ss
    \<and> (\<forall>s\<in>set ss. \<forall>c. dict_get (peers u) s = Some c \<longrightarrow> set (c_accepted (conns u ! c)) \<subseteq> set (c_wire (conns u' ! c)))"
  using assms(2)
proof (induction ss rule: rev_induct)
  case Nil
  then show ?case by (intro exI[of _ "[]"] exI[of _ u]) (simp add: execution_nil)
next
  case (snoc s ss)
  then obtain ls u1 where u1: "execution (uds_step pb) u ls u1" "set ls \<subseteq> writer_labels"
    "length ls \<le> (2 * SEND_QUEUE_MAXSIZE + 1) * length ss"
    "\<forall>s\<in>set ss. \<forall>c. dict_get (peers u) s = Some c \<longrightarrow> set (c_accepted (conns u ! c)) \<subseteq> set (c_wire (conns u1 ! c))"
    by auto
  note keep1 = writers_keep[OF u1(1,2)]
  have inv1: "uds_inv u1" using u1(1) assms(1) by (induction rule: execution.induct) (auto intro: inv_uds_step)
  obtain c where c: "dict_get (peers u1) s = Some c" using snoc.prems keep1 by auto
  obtain ms u2 where u2: "execution (uds_step pb) u1 ms u2" "set ms \<subseteq> {WriterTakes c, WriterSent c}"
    "length ms \<le> 2 * SEND_QUEUE_MAXSIZE + 1" "c_wire (conns u2 ! c) = c_accepted (conns u1 ! c)"
    using accepted_can_be_written[OF inv1 c, of pb] by blast
  have ms: "set ms \<subseteq> writer_labels" using u2(2) by (auto simp: writer_labels_def)
  have "set (c_wire (conns u1 ! d)) \<subseteq> set (c_wire (conns u2 ! d))" for d
    using writers_keep[OF u2(1) ms] set_mono_prefix by blast
  then have "\<forall>t\<in>set (ss @ [s]). \<forall>d. dict_get (peers u) t = Some d \<longrightarrow>
      set (c_accepted (conns u ! d)) \<subseteq> set (c_wire (conns u2 ! d))"
    using u1(4) u2(4) c keep1 by fastforce
  moreover have "length (ls @ ms) \<le> (2 * SEND_QUEUE_MAXSIZE + 1) * length (ss @ [s])"
    using u1(3) u2(3) by (simp add: algebra_simps)
  ultimately show ?case
    using execution_append[OF u2(1) u1(1)] u1(2) ms by (intro exI[of _ "ls @ ms"] exI[of _ u2]) auto
qed

section \<open>A sender that dies after it accepted\<close>

text \<open>
  The proviso of \<open>dispatched_file_reaches_senders\<close> is needed: when the connection of a sender ends after
  \<open>send\<close> accepted its message and before the writer wrote it, the message is dropped, although the
  dispatch returned a session and no partial failure is on record.
\<close>

lemma accepted_message_is_dropped:
  "\<exists>q w' p x u. dispatch example_uds_ports example_config example_path example_server_world = (Inr (Some q), w')
    \<and> w_trace w' = [Sent 7 p (Inr ()), Logged x] \<and> partial_failures (w_trace w') = []
    \<and> uds_step unary_protobuf (w_ipc w') (Recv 0 []) u
    \<and> p \<in> set (c_accepted (conns u ! 0)) \<and> c_wire (conns u ! 0) = [] \<and> c_writer (conns u ! 0) = WriterStopped
    \<and> peers u = []"
proof -
  obtain q w' p x where run: "dispatch example_uds_ports example_config example_path example_server_world = (Inr (Some q), w')"
    and tr: "w_trace w' = [Sent 7 p (Inr ()), Logged x]" "partial_failures [Logged x] = []"
    and ipc: "w_ipc w' = snd (uds_send 7 p connected_once)" using example_server_dispatch by blast
  let ?u = "handle_recv unary_protobuf 0 [] (w_ipc w')"
  have "uds_step unary_protobuf (w_ipc w') (Recv 0 []) (handle_recv unary_protobuf 0 (sock_recv []) (w_ipc w'))"
    by (rule uds_step.recv)
      (simp_all add: ipc uds_send_def connected_once_eq new_connection_def SEND_QUEUE_MAXSIZE_def conns_upd_conn)
  then have step: "uds_step unary_protobuf (w_ipc w') (Recv 0 []) ?u" by (simp add: sock_recv_def)
  have "p \<in> set (c_accepted (conns ?u ! 0)) \<and> c_wire (conns ?u ! 0) = [] \<and> c_writer (conns ?u ! 0) = WriterStopped
      \<and> peers ?u = []"
    by (simp add: ipc handle_recv_def cleanup_eq uds_send_def connected_once_eq new_connection_def
        SEND_QUEUE_MAXSIZE_def conns_upd_conn drop_peer_def pop_if_current_def)
  with run tr step show ?thesis by fastforce
qed

section \<open>Properties\<close>

text \<open>C3: A file that was dispatched reaches the senders: if the dispatch returned with no partial failure on
  record and the senders that accepted are still connected as it returns, then the server's writers
  alone, within a bound, put every accepted message on the wire of its sender's connection, and the
  blocks the senders compute from what they were sent are all blocks of the file, each at one sender.\<close>

theorem dispatched_file_reaches_senders:
  assumes "over_server pb P" "parses_back (dp_runtime P)" "uds_reachable pb expected (w_ipc w)"
    and "dispatch P C path w = (Inr q, w')" "w_trace w' = w_trace w @ new" "partial_failures new = []"
    and "dispatch_inputs P C path w = Inr (sf, active, sid, total_blocks, w2)" "active \<noteq> []"
    and "\<forall>(s, p)\<in>set (accepted_sends new). \<exists>c. dict_get (peers (w_ipc w')) s = Some c
      \<and> p \<in> set (c_accepted (conns (w_ipc w') ! c))"
  shows "\<exists>ls u. execution (uds_step pb) (w_ipc w') ls u \<and> set ls \<subseteq> range WriterTakes \<union> range WriterSent
    \<and> length ls \<le> (2 * SEND_QUEUE_MAXSIZE + 1) * length (accepted_sends new)
    \<and> (\<forall>(s, p)\<in>set (accepted_sends new). \<exists>c. dict_get (peers u) s = Some c \<and> p \<in> set (c_wire (conns u ! c)))
    \<and> mset (concat (map (\<lambda>(s, p). received_blocks (dp_runtime P) p) (accepted_sends new)))
        = mset [0..total_blocks - 1]"
proof -
  let ?u = "w_ipc w'" and ?ss = "map fst (accepted_sends new)"
  have "server_inv pb expected (length (w_trace w)) w" using assms(3) by (simp add: server_inv_def)
  then have "server_inv pb expected (length (w_trace w)) w'"
    by (rule holds_dispatch_same[OF server_inv_kept[OF assms(1)] _ assms(4)]) (simp add: server_inv_def)
  then have inv: "uds_inv ?u" using reachable_inv by (auto simp: server_inv_def)
  have "\<forall>s\<in>set ?ss. dict_get (peers ?u) s \<noteq> None" using assms(9) by fastforce
  from all_can_be_written[OF inv this, of pb] obtain ls u where u: "execution (uds_step pb) ?u ls u"
    "set ls \<subseteq> writer_labels" "length ls \<le> (2 * SEND_QUEUE_MAXSIZE + 1) * length (accepted_sends new)"
    "\<forall>s\<in>set ?ss. \<forall>c. dict_get (peers ?u) s = Some c \<longrightarrow> set (c_accepted (conns ?u ! c)) \<subseteq> set (c_wire (conns u ! c))"
    by auto
  have "peers u = peers ?u" using writers_keep[OF u(1,2)] by blast
  then have wire: "\<forall>(s, p)\<in>set (accepted_sends new). \<exists>c. dict_get (peers u) s = Some c \<and> p \<in> set (c_wire (conns u ! c))"
    using assms(9) u(4) by fastforce
  obtain lost where lost: "partial_failures new = (if lost = [] then [] else [partial_failure_record sid lost])"
    "mset (concat (map (\<lambda>(s, raw). received_blocks (dp_runtime P) raw) (accepted_sends new)))
      + mset (concat (map assigned_blocks lost)) = mset [0..total_blocks - 1]"
    using dispatch_blocks[OF assms(2,4,7,8)] assms(5) by auto
  have "lost = []" using lost(1) assms(6) by (simp split: if_splits)
  with lost(2) have "mset (concat (map (\<lambda>(s, p). received_blocks (dp_runtime P) p) (accepted_sends new)))
      = mset [0..total_blocks - 1]" by simp
  with u(1-3) wire show ?thesis unfolding writer_labels_def by blast
qed

theorem dispatched_file_reaches_senders_witness:
  "\<exists>q w' p ls u c. dispatch example_uds_ports example_config example_path example_server_world = (Inr q, w')
    \<and> execution (uds_step unary_protobuf) (w_ipc w') ls u \<and> p \<in> set (c_wire (conns u ! c))
    \<and> mset (received_blocks unary_protobuf p) = mset [0..9]"
proof -
  obtain q w' p x where run: "dispatch example_uds_ports example_config example_path example_server_world = (Inr (Some q), w')"
    and tr: "w_trace w' = [Sent 7 p (Inr ()), Logged x]" "partial_failures [Logged x] = []"
    and ipc: "w_ipc w' = snd (uds_send 7 p connected_once)" using example_server_dispatch by blast
  obtain sid where inp: "dispatch_inputs example_uds_ports example_config example_path example_server_world
    = Inr (\<lparr>sf_path = example_path, size_bytes = 10, file_hash = bytes_hex (replicate 32 171)\<rparr>,
        [7], sid, 10, example_server_world)" using example_server_inputs by blast
  have rt: "dp_runtime example_uds_ports = unary_protobuf" by (simp add: example_uds_ports_def)
  have "w_trace w' = w_trace example_server_world @ [Sent 7 p (Inr ()), Logged x]"
    using tr by (simp add: example_server_world_def)
  moreover have none: "partial_failures [Sent 7 p (Inr ()), Logged x] = []" using tr(2) by simp
  moreover have "accepted_sends [Sent 7 p (Inr ()), Logged x] = [(7, p)]" by simp
  moreover have "dict_get (peers (w_ipc w')) 7 = Some 0 \<and> p \<in> set (c_accepted (conns (w_ipc w') ! 0))"
    unfolding ipc by (simp add: uds_send_def connected_once_eq new_connection_def SEND_QUEUE_MAXSIZE_def conns_upd_conn)
  moreover have "uds_reachable unary_protobuf [1] (w_ipc example_server_world)"
    using connected_once_reachable by (simp add: example_server_world_def)
  ultimately show ?thesis
    using dispatched_file_reaches_senders[OF example_over_server _ _ run _ _ inp, of "[1]"
        "[Sent 7 p (Inr ()), Logged x]"] unary_parses_back run unfolding rt by fastforce
qed

end
