(* ===== verification/Debouncer.thy ===== *)
theory Debouncer imports Watcher "HOL-Library.Sublist" begin

text \<open>
  What \<open>services/watcher.py\<close> promises to its listener: a debouncer, which remembers for each path with
  unsettled changes the time of the last one, lets a path settle when it was quiet for the debounce
  time, and delivers the settled paths in order until it is closed. It knows no tasks, timers or
  queues. The watcher refines it.
\<close>

section \<open>The specification\<close>

record debouncer =
  last_change :: "path \<rightharpoonup> pyfloat"
  settled_queue :: "path list"

datatype debouncer_event =
    Changed path pyfloat
  | Settled path pyfloat
  | Delivered path
  | Closed

text \<open>A closed debouncer has no state and shows no event.\<close>

inductive debouncer_step ::
  "pyfloat \<Rightarrow> debouncer option \<Rightarrow> debouncer_event \<Rightarrow> debouncer option \<Rightarrow> bool" for d where
  changed: "debouncer_step d (Some b) (Changed p t) (Some (b\<lparr>last_change := (last_change b)(p \<mapsto> t)\<rparr>))"
| settles: "last_change b p = Some s \<Longrightarrow> s + d \<le> t \<Longrightarrow>
    debouncer_step d (Some b) (Settled p t)
      (Some (b\<lparr>last_change := (last_change b)(p := None), settled_queue := settled_queue b @ [p]\<rparr>))"
| delivered: "settled_queue b = p # ps \<Longrightarrow>
    debouncer_step d (Some b) (Delivered p) (Some (b\<lparr>settled_queue := ps\<rparr>))"
| closed: "debouncer_step d (Some b) Closed None"

inductive_simps debouncer_step_simps [simp]:
  "debouncer_step d b (Changed p t) b'" "debouncer_step d b (Settled p t) b'"
  "debouncer_step d b (Delivered p) b'" "debouncer_step d b Closed b'"

section \<open>The watcher as a debouncer\<close>

fun held :: "listen_state \<Rightarrow> path list" where
  "held (Holding p) = [p]"
| "held _ = []"

definition debouncer_of :: "watcher \<Rightarrow> debouncer option" where
  "debouncer_of w =
     (if is_stopped w then None
      else Some \<lparr>last_change = (\<lambda>p. open_burst p (watch_log w)),
        settled_queue = held (listen_at w) @ stable_paths w\<rparr>)"

fun observe_watcher :: "watcher \<Rightarrow> watch_label \<Rightarrow> debouncer_event option" where
  "observe_watcher w (RawEvent p) = Some (Changed p (now w))"
| "observe_watcher w (Fire i) = Some (Settled (fst (tasks w ! i)) (now w))"
| "observe_watcher w YieldPath = map_option Delivered (case listen_at w of Holding p \<Rightarrow> Some p | _ \<Rightarrow> None)"
| "observe_watcher w NoticeConsumer = Some Closed"
| "observe_watcher w CloseListen = Some Closed"
| "observe_watcher w _ = None"

definition debouncer_matches ::
  "pyfloat \<Rightarrow> debouncer option \<Rightarrow> debouncer_event option \<Rightarrow> debouncer option \<Rightarrow> bool" where
  "debouncer_matches d b ev b' \<longleftrightarrow> (case ev of None \<Rightarrow> b' = b | Some e \<Rightarrow> debouncer_step d b e b')"

lemma running_not_stopped: "watch_inv w \<Longrightarrow> consumer w = ConsumerRunning \<Longrightarrow> \<not> is_stopped w"
  by (auto simp: watch_inv_def split: if_splits)

lemma debouncer_raw:
  assumes "watch_inv w" "consumer w = ConsumerRunning"
  shows "debouncer_step d (debouncer_of w) (Changed p (now w)) (debouncer_of (debounce p w))"
  using running_not_stopped[OF assms] by (auto simp: debouncer_of_def)

lemma debouncer_fire:
  assumes inv: "watch_inv w" and i: "i < length (tasks w)" "snd (tasks w ! i) = TaskSleeping wake"
    and "wake \<le> now w"
  shows "debouncer_step (debounce_seconds w) (debouncer_of w) (Settled (fst (tasks w ! i)) (now w))
    (debouncer_of (emit_when_stable i w))"
proof -
  have l: "live_task (snd (tasks w ! i))" by (simp add: i(2))
  obtain t where t: "open_burst (fst (tasks w ! i)) (watch_log w) = Some t" "t + debounce_seconds w \<le> now w"
    using inv_live[OF inv i(1) l] i(2) assms(4) by (auto simp: live_ok_def)
  show ?thesis
    using t inv_live_running[OF inv i(1) l]
    by (auto simp: debouncer_of_def emit_when_stable_eq[OF inv i(1) l] is_stopped_def)
qed

lemma debouncer_stop:
  assumes "\<not> is_stopped w"
  shows "debouncer_step d (debouncer_of w) Closed (debouncer_of (stop_listening e w))"
  using assms by (simp add: debouncer_of_def)

lemma debouncer_simulation:
  "watch_step w l w' \<Longrightarrow> watch_inv w \<Longrightarrow>
    debouncer_matches (debounce_seconds w) (debouncer_of w) (observe_watcher w l) (debouncer_of w')"
proof (induction rule: watch_step.induct)
  case (raw_event w p)
  then show ?case using debouncer_raw by (simp add: debouncer_matches_def del: debouncer_step_simps)
next
  case (fire i w wake)
  then show ?case using debouncer_fire by (simp add: debouncer_matches_def del: debouncer_step_simps)
next
  case (yield_path w p)
  then show ?case by (simp add: debouncer_matches_def debouncer_of_def is_stopped_def)
next
  case (notice_consumer w)
  then have "\<not> is_stopped w" by (auto simp: is_stopped_def)
  then show ?case
    using debouncer_stop by (simp add: debouncer_matches_def consumer_done_def del: debouncer_step_simps
        split: consumer_state.splits)
next
  case (close_listen w)
  then show ?case using debouncer_stop by (simp add: debouncer_matches_def del: debouncer_step_simps)
qed (auto simp: debouncer_matches_def debouncer_of_def is_stopped_def)

interpretation watcher_debouncer: simulation watch_step "\<lambda>w. watch_inv w \<and> debounce_seconds w = d"
    debouncer_of "debouncer_step d" observe_watcher
  for d
proof unfold_locales
  show "watch_inv w' \<and> debounce_seconds w' = d"
    if "watch_inv w \<and> debounce_seconds w = d" "watch_step w l w'" for w l w'
    using that inv_watch_step debounce_seconds_step by metis
  show "debouncer_of w' = debouncer_of w"
    if "watch_inv w \<and> debounce_seconds w = d" "watch_step w l w'" "observe_watcher w l = None" for w l w'
    using debouncer_simulation[OF that(2)] that(1,3) by (simp add: debouncer_matches_def)
  show "debouncer_step d (debouncer_of w) e (debouncer_of w')"
    if "watch_inv w \<and> debounce_seconds w = d" "watch_step w l w'" "observe_watcher w l = Some e" for w l w' e
    using debouncer_simulation[OF that(2)] that(1,3) by (simp add: debouncer_matches_def)
qed

lemma debouncer_of_init:
  "debouncer_of (DirectoryWatcher d t) = Some \<lparr>last_change = Map.empty, settled_queue = []\<rparr>"
  by (simp add: debouncer_of_def DirectoryWatcher_def is_stopped_def open_burst_def)

section \<open>What a listener of a debouncer can rely on\<close>

fun delivered_paths :: "debouncer_event list \<Rightarrow> path list" where
  "delivered_paths [] = []"
| "delivered_paths (Delivered p # es) = p # delivered_paths es"
| "delivered_paths (_ # es) = delivered_paths es"

fun settled_paths :: "debouncer_event list \<Rightarrow> path list" where
  "settled_paths [] = []"
| "settled_paths (Settled p t # es) = p # settled_paths es"
| "settled_paths (_ # es) = settled_paths es"

lemma delivered_paths_append [simp]: "delivered_paths (es @ fs) = delivered_paths es @ delivered_paths fs"
  by (induction es rule: delivered_paths.induct) simp_all

lemma settled_paths_append [simp]: "settled_paths (es @ fs) = settled_paths es @ settled_paths fs"
  by (induction es rule: settled_paths.induct) simp_all

lemma debouncer_delivers:
  assumes "execution (debouncer_step d) b0 es b" "b0 = Some \<lparr>last_change = Map.empty, settled_queue = []\<rparr>"
  shows "prefix (delivered_paths es) (settled_paths es)
    \<and> (\<forall>x. b = Some x \<longrightarrow> settled_paths es = delivered_paths es @ settled_queue x)"
  using assms
proof (induction rule: execution.induct)
  case (execution_snoc b0 es b e b')
  from execution_snoc.IH[OF execution_snoc.prems] execution_snoc.hyps(2) show ?case
    by (cases e) auto
qed simp

text \<open>The run of the witness: a file changes, its task sleeps, two seconds pass, the path settles.\<close>

definition example_burst :: "(watch_label \<times> debouncer_event option) list" where
  "example_burst = [(RawEvent (Path ''/w/a''), Some (Changed (Path ''/w/a'') 0)), (StartTask 0, None),
     (Tick 2, None), (Fire 0, Some (Settled (Path ''/w/a'') 2))]"

definition example_settled :: watcher where
  "example_settled = emit_when_stable 0 ((start_sleep 0 example_pending)\<lparr>now := 2\<rparr>)"

lemma example_burst_execution:
  "execution (observed watch_step observe_watcher) (DirectoryWatcher 2 0) example_burst example_settled"
proof -
  let ?step = "observed watch_step observe_watcher"
  let ?asleep = "start_sleep 0 example_pending"
  have changed: "?step (DirectoryWatcher 2 0) (RawEvent (Path ''/w/a''), Some (Changed (Path ''/w/a'') 0)) example_pending"
    unfolding observed_def example_pending_def
    by (auto intro: raw_event simp: DirectoryWatcher_def)
  have started: "?step example_pending (StartTask 0, None) ?asleep"
    unfolding observed_def by (auto intro!: start_task simp: example_pending_def DirectoryWatcher_def debounce_def)
  have passed: "?step ?asleep (Tick 2, None) (?asleep\<lparr>now := 2\<rparr>)"
    unfolding observed_def by (auto intro: tick simp: example_pending_def DirectoryWatcher_def)
  have fired: "?step (?asleep\<lparr>now := 2\<rparr>) (Fire 0, Some (Settled (Path ''/w/a'') 2)) example_settled"
    unfolding observed_def example_settled_def
    by (auto intro!: fire simp: example_pending_def DirectoryWatcher_def debounce_def start_sleep_def set_task_def)
  show ?thesis
    unfolding example_burst_def
    by (rule execution_Cons, rule changed, rule execution_Cons, rule started, rule execution_Cons,
        rule passed, rule execution_Cons, rule fired, rule execution_nil)
qed

section \<open>Properties\<close>

text \<open>C7: The watcher is a debouncer: whatever its tasks do, in whatever order, and whenever time passes,
  its run is a run of the specification, in which a path settles only when its last change is at least
  the debounce time ago and then waits for its next change, and settled paths are delivered first in,
  first out, none doubled and none overtaken, until the watcher is closed. So what the listener got is
  a beginning of what settled, and while it listens the rest is the queue.\<close>

theorem watcher_refines_debouncer:
  assumes "execution (observed watch_step observe_watcher) (DirectoryWatcher d t) run w"
  shows "execution (debouncer_step d) (Some \<lparr>last_change = Map.empty, settled_queue = []\<rparr>)
      (shown run) (debouncer_of w)
    \<and> prefix (delivered_paths (shown run)) (settled_paths (shown run))
    \<and> (\<not> is_stopped w \<longrightarrow> settled_paths (shown run)
        = delivered_paths (shown run) @ held (listen_at w) @ stable_paths w)"
proof -
  have "execution (debouncer_step d) (Some \<lparr>last_change = Map.empty, settled_queue = []\<rparr>)
      (shown run) (debouncer_of w)"
    using watcher_debouncer.simulates[OF assms, of d] inv_watch_init debouncer_of_init
    by (simp add: DirectoryWatcher_def)
  with debouncer_delivers[OF this refl] show ?thesis by (auto simp: debouncer_of_def)
qed

theorem watcher_refines_debouncer_witness:
  "execution (debouncer_step 2) (Some \<lparr>last_change = Map.empty, settled_queue = []\<rparr>)
      [Changed (Path ''/w/a'') 0, Settled (Path ''/w/a'') 2] (debouncer_of example_settled)
    \<and> stable_paths example_settled = [Path ''/w/a'']"
proof -
  have "listen_at example_settled = Waiting" "\<not> is_stopped example_settled"
    by (simp_all add: example_settled_def emit_when_stable_def Let_def example_pending_def
        DirectoryWatcher_def is_stopped_def)
  then show ?thesis
    using watcher_refines_debouncer[OF example_burst_execution] by (simp add: example_burst_def)
qed

end
